(* ===== verification/Prelude.thy ===== *)
theory Prelude
  imports Main "HOL-Library.Sublist" "HOL-Library.Word" "HOL-Library.Char_ord" "HOL-Library.List_Lexorder"
begin

text \<open>
  Shared vocabulary of the development: what a C++ call can do (\<open>outcome\<close>), the exceptions
  the sources raise or catch (\<open>exn\<close>), the pieces of the standard string library they use
  (\<open>find_sub\<close> for \<open>find\<close>, \<open>substr\<close>, decimal printing and reading, \<open>setw\<close>), and the
  collections of simplification rules the component theories share.
\<close>

named_theorems lock_simps \<open>one call of a guarded operation on an unlocked object\<close>
named_theorems outcome_simps \<open>sequencing of outcomes\<close>
named_theorems string_simps \<open>string library\<close>

section \<open>Outcomes of a call\<close>

text \<open>
  The error codes the file system operations report, the exceptions that cross a call in the
  sources, and the four ways a call can end: it returns, it throws, it has undefined behaviour,
  or it never comes back (a spin lock that is never released). \<open>Process_end\<close> is no exception: it
  stands for \<open>std::terminate\<close> and \<open>TerminateProcess\<close>, and no handler catches it.
\<close>

datatype errc = No_entry | Is_directory | Not_directory | Denied | Not_empty | Same_file

datatype exn = Out_of_range | Invalid_argument | Filesystem_error errc | Bad_optional_access
  | Access_violation | Format_error | Log_error | Process_end

datatype 'a outcome = Ret 'a | Throw exn | Undef | Diverge

fun obind :: "'a outcome \<Rightarrow> ('a \<Rightarrow> 'b outcome) \<Rightarrow> 'b outcome" where
  "obind (Ret a) f = f a"
| "obind (Throw e) f = Throw e"
| "obind Undef f = Undef"
| "obind Diverge f = Diverge"

fun ofold :: "('a \<Rightarrow> 's \<Rightarrow> 's outcome) \<Rightarrow> 'a list \<Rightarrow> 's \<Rightarrow> 's outcome" where
  "ofold f [] s = Ret s"
| "ofold f (x # xs) s = obind (f x s) (ofold f xs)"

definition is_ret :: "'a outcome \<Rightarrow> bool" where
  "is_ret r = (case r of Ret _ \<Rightarrow> True | _ \<Rightarrow> False)"

lemma is_ret_simps [simp, outcome_simps]:
  "is_ret (Ret a)" "\<not> is_ret (Throw e)" "\<not> is_ret Undef" "\<not> is_ret Diverge"
  by (simp_all add: is_ret_def)

lemma obind_Ret [simp, outcome_simps]: "obind m Ret = m"
  by (cases m) auto

lemma obind_assoc [outcome_simps]: "obind (obind m f) g = obind m (\<lambda>a. obind (f a) g)"
  by (cases m) auto

lemma obind_eq_Ret [outcome_simps]: "obind m f = Ret b \<longleftrightarrow> (\<exists>a. m = Ret a \<and> f a = Ret b)"
  by (cases m) auto

lemma ofold_append [outcome_simps]: "ofold f (xs @ ys) s = obind (ofold f xs s) (ofold f ys)"
proof (induction xs arbitrary: s)
  case (Cons x xs)
  then show ?case by (cases "f x s") auto
qed simp

lemma ofold_pure:
  assumes "\<And>x s. x \<in> set xs \<Longrightarrow> f x s = Ret (g x s)"
  shows "ofold f xs s = Ret (fold g xs s)"
  using assms by (induction xs arbitrary: s) auto

lemma ofold_invariant:
  assumes "\<And>x s t. x \<in> set xs \<Longrightarrow> P s \<Longrightarrow> f x s = Ret t \<Longrightarrow> P t"
    and "P s" and "ofold f xs s = Ret t"
  shows "P t"
  using assms
proof (induction xs arbitrary: s)
  case (Cons x xs)
  then obtain u where u: "f x s = Ret u" "ofold f xs u = Ret t"
    by (auto simp: obind_eq_Ret)
  then show ?case using Cons.IH [of u] Cons.prems(1,2) by (meson list.set_intros)
qed simp

section \<open>Loops\<close>

text \<open>
  \<open>cwhile c b s\<close> is the loop \<open>while (c) b;\<close> over an explicit state. The guard and the body are
  calls, so each can end in any of the four ways; a loop that is never left is \<open>Diverge\<close>.
\<close>

partial_function (option) cwhile_opt ::
  "('s \<Rightarrow> bool outcome) \<Rightarrow> ('s \<Rightarrow> 's outcome) \<Rightarrow> 's \<Rightarrow> 's outcome option" where
  "cwhile_opt c b s =
     (case c s of
        Ret go \<Rightarrow>
          (if go then
             (case b s of
                Ret t \<Rightarrow> cwhile_opt c b t
              | Throw e \<Rightarrow> Some (Throw e)
              | Undef \<Rightarrow> Some Undef
              | Diverge \<Rightarrow> Some Diverge)
           else Some (Ret s))
      | Throw e \<Rightarrow> Some (Throw e)
      | Undef \<Rightarrow> Some Undef
      | Diverge \<Rightarrow> Some Diverge)"

definition cwhile :: "('s \<Rightarrow> bool outcome) \<Rightarrow> ('s \<Rightarrow> 's outcome) \<Rightarrow> 's \<Rightarrow> 's outcome" where
  "cwhile c b s = (case cwhile_opt c b s of None \<Rightarrow> Diverge | Some r \<Rightarrow> r)"

lemma cwhile_unfold:
  "cwhile c b s = obind (c s) (\<lambda>go. if go then obind (b s) (cwhile c b) else Ret s)"
  unfolding cwhile_def
  by (subst cwhile_opt.simps) (auto split: outcome.splits)

lemma cwhile_stop: "c s = Ret False \<Longrightarrow> cwhile c b s = Ret s"
  by (subst cwhile_unfold) simp

lemma cwhile_step: "c s = Ret True \<Longrightarrow> b s = Ret t \<Longrightarrow> cwhile c b s = cwhile c b t"
  by (subst cwhile_unfold) simp

lemma cwhile_forever:
  assumes "P s" and "\<And>s. P s \<Longrightarrow> c s = Ret True" and "\<And>s. P s \<Longrightarrow> \<exists>t. b s = Ret t \<and> P t"
  shows "cwhile c b s = Diverge"
proof -
  have "cwhile_opt c b s = Some r \<Longrightarrow> P s \<longrightarrow> False" for s r
  proof (rule cwhile_opt.raw_induct [where P = "\<lambda>c' b' s r. c' = c \<longrightarrow> b' = b \<longrightarrow> P s \<longrightarrow> False",
        THEN mp, THEN mp, of c b s r], goal_cases)
    case (1 w c' b' s r)
    then show ?case using assms(2,3) by (fastforce split: outcome.splits)
  qed simp_all
  with assms(1) have "cwhile_opt c b s = None" by (cases "cwhile_opt c b s") auto
  then show ?thesis by (simp add: cwhile_def)
qed

text \<open>
  The work loops of the program share one shape: the state holds a list of pending items, an
  iteration takes the first of them and processes it. A component that shows this for its loop
  gets the loop's result: every item is processed, once, in order, and the loop is left.
\<close>

locale work_loop =
  fixes pending :: "'s \<Rightarrow> 'a list"
    and inv :: "'s \<Rightarrow> bool"
    and guard :: "'s \<Rightarrow> bool outcome"
    and body :: "'s \<Rightarrow> 's outcome"
    and proc :: "'a \<Rightarrow> 's \<Rightarrow> 's"
  assumes guard_law: "inv s \<Longrightarrow> guard s = Ret (pending s \<noteq> [])"
    and body_law: "inv s \<Longrightarrow> pending s = x # xs \<Longrightarrow> body s = Ret (proc x s)"
    and pending_law: "inv s \<Longrightarrow> pending s = x # xs \<Longrightarrow> pending (proc x s) = xs"
    and inv_law: "inv s \<Longrightarrow> pending s = x # xs \<Longrightarrow> inv (proc x s)"
begin

lemma loop_result: "inv s \<Longrightarrow> cwhile guard body s = Ret (fold proc (pending s) s)"
proof (induction "pending s" arbitrary: s)
  case Nil
  then show ?case using guard_law [of s] by (simp add: cwhile_stop)
next
  case (Cons x xs)
  then have "cwhile guard body s = cwhile guard body (proc x s)"
    by (intro cwhile_step) (auto simp: guard_law body_law [of s x xs])
  also have "\<dots> = Ret (fold proc (pending (proc x s)) (proc x s))"
    using Cons by (metis inv_law pending_law)
  also have "pending (proc x s) = xs" using Cons by (metis pending_law)
  finally show ?case using Cons.hyps(2) by (metis fold_simps(2))
qed

lemma loop_done:
  assumes "inv s"
  shows "inv (fold proc (pending s) s)" and "pending (fold proc (pending s) s) = []"
proof -
  have "inv (fold proc (pending s) s) \<and> pending (fold proc (pending s) s) = []"
    using assms
  proof (induction "pending s" arbitrary: s)
    case (Cons x xs)
    then have p: "pending (proc x s) = xs" "inv (proc x s)" by (metis pending_law, metis inv_law)
    with Cons.hyps(1) [of "proc x s"] Cons.hyps(2) show ?case by (metis fold_simps(2))
  qed simp
  then show "inv (fold proc (pending s) s)" and "pending (fold proc (pending s) s) = []" by auto
qed

lemma loop_leaves_empty:
  "inv s \<Longrightarrow> \<exists>t. cwhile guard body s = Ret t \<and> inv t \<and> pending t = []"
  using loop_result loop_done by blast

end

section \<open>Strings\<close>

text \<open>
  \<open>find_sub pat s\<close> is \<open>s.find(pat)\<close>: the first position at which \<open>pat\<close> occurs, \<open>None\<close> for
  \<open>npos\<close>. \<open>substr s pos n\<close> is \<open>s.substr(pos, n)\<close>: it throws when \<open>pos\<close> is past the end and
  clips the count otherwise.
\<close>

fun find_sub :: "string \<Rightarrow> string \<Rightarrow> nat option" where
  "find_sub pat [] = (if pat = [] then Some 0 else None)"
| "find_sub pat (c # s) =
     (if prefix pat (c # s) then Some 0 else map_option Suc (find_sub pat s))"

definition contains_sub :: "string \<Rightarrow> string \<Rightarrow> bool" where
  "contains_sub pat s \<longleftrightarrow> find_sub pat s \<noteq> None"

definition substr :: "string \<Rightarrow> nat \<Rightarrow> nat \<Rightarrow> string outcome" where
  "substr s pos n = (if length s < pos then Throw Out_of_range else Ret (take n (drop pos s)))"

lemma find_sub_None: "find_sub pat s = None \<longleftrightarrow> \<not> sublist pat s"
  by (induction s) (auto simp: sublist_Cons_right)

lemma contains_sub_iff: "contains_sub pat s \<longleftrightarrow> sublist pat s"
  by (simp add: contains_sub_def find_sub_None)

lemma find_sub_Some:
  "find_sub pat s = Some i \<Longrightarrow> \<exists>post. s = take i s @ pat @ post \<and> i + length pat \<le> length s"
proof (induction s arbitrary: i)
  case (Cons c s)
  show ?case
  proof (cases "prefix pat (c # s)")
    case True
    with Cons.prems have i: "i = 0" by simp
    from True obtain post where "c # s = pat @ post" by (auto elim: prefixE)
    with i show ?thesis by (metis True add_0 prefix_length_le self_append_conv2 take0)
  next
    case False
    with Cons.prems obtain j where "find_sub pat s = Some j" "i = Suc j" by auto
    with Cons.IH [of j] show ?thesis by auto
  qed
qed (simp split: if_splits)

lemma substr_rest [string_simps]:
  "pos \<le> length s \<Longrightarrow> substr s pos (length s - pos) = Ret (drop pos s)"
  by (simp add: substr_def)

subsection \<open>Decimal numbers\<close>

definition digit_char :: "nat \<Rightarrow> char" where
  "digit_char d = char_of (48 + d)"

definition digit_value :: "char \<Rightarrow> nat" where
  "digit_value c = of_char c - 48"

definition is_digit :: "char \<Rightarrow> bool" where
  "is_digit c \<longleftrightarrow> 48 \<le> (of_char c :: nat) \<and> (of_char c :: nat) \<le> 57"

fun show_nat :: "nat \<Rightarrow> string" where
  "show_nat n = (if n < 10 then [digit_char n] else show_nat (n div 10) @ [digit_char (n mod 10)])"

declare show_nat.simps [simp del]

definition show_int :: "int \<Rightarrow> string" where
  "show_int i = (if i < 0 then CHR ''-'' # show_nat (nat (- i)) else show_nat (nat i))"

definition read_nat :: "string \<Rightarrow> nat" where
  "read_nat s = foldl (\<lambda>acc c. 10 * acc + digit_value c) 0 s"

definition setw :: "nat \<Rightarrow> string \<Rightarrow> string" where
  "setw w s = replicate (w - length s) (CHR '' '') @ s"

lemma of_char_digit: "d < 10 \<Longrightarrow> of_char (digit_char d) = (48 + d :: nat)"
  by (simp add: digit_char_def)

lemma digit_char_roundtrip [simp, string_simps]:
  "d < 10 \<Longrightarrow> digit_value (digit_char d) = d" "d < 10 \<Longrightarrow> is_digit (digit_char d)"
  by (simp_all add: digit_value_def is_digit_def of_char_digit)

lemma show_nat_nonempty [simp, string_simps]: "show_nat n \<noteq> []"
  by (subst show_nat.simps) simp

lemma show_nat_digits [string_simps]: "\<forall>c \<in> set (show_nat n). is_digit c"
proof (induction n rule: show_nat.induct)
  case (1 n)
  then show ?case by (subst show_nat.simps) auto
qed

lemma read_nat_snoc [string_simps]: "read_nat (s @ [c]) = 10 * read_nat s + digit_value c"
  by (simp add: read_nat_def)

lemma read_show_nat [simp, string_simps]: "read_nat (show_nat n) = n"
proof (induction n rule: show_nat.induct)
  case (1 n)
  show ?case
  proof (cases "n < 10")
    case True
    then show ?thesis by (subst show_nat.simps) (simp add: read_nat_def)
  next
    case False
    with "1" show ?thesis by (subst show_nat.simps) (simp add: read_nat_snoc)
  qed
qed

lemma show_nat_length: "n < 10 ^ k \<Longrightarrow> 0 < k \<Longrightarrow> length (show_nat n) \<le> k"
proof (induction k arbitrary: n)
  case (Suc k)
  show ?case
  proof (cases "n < 10")
    case True
    then show ?thesis by (subst show_nat.simps) simp
  next
    case False
    with Suc.prems have "0 < k" by (cases k) auto
    moreover from Suc.prems have "n div 10 < 10 ^ k" by (simp add: less_mult_imp_div_less mult.commute)
    ultimately have "length (show_nat (n div 10)) \<le> k" using Suc.IH by simp
    with False show ?thesis by (subst show_nat.simps) simp
  qed
qed simp

lemma show_nat_length_ge: "10 ^ k \<le> n \<Longrightarrow> k < length (show_nat n)"
proof (induction k arbitrary: n)
  case (Suc k)
  then have "10 \<le> n" by (metis le_trans power_increasing_iff power_one_right one_less_numeral_iff
      le_add1 plus_1_eq_Suc semiring_norm(76))
  moreover from Suc.prems have "10 ^ k \<le> n div 10" by (simp add: less_eq_div_iff_mult_less_eq mult.commute)
  ultimately show ?case using Suc.IH by (subst show_nat.simps) simp
qed simp

lemma length_setw [simp, string_simps]: "length (setw w s) = max w (length s)"
  by (simp add: setw_def max_def)

section \<open>Small facts on lists and option\<close>

lemma map_of_filter_neq: "map_of (filter (\<lambda>(k, v). k \<noteq> x) xs) y = (if y = x then None else map_of xs y)"
  by (induction xs) auto

end
