(* ===== verification/Spinlock.thy ===== *)
theory Spinlock
  imports Prelude
begin

text \<open>
  \<open>include/Threading.h\<close>: the two guard classes \<open>Spinlock\<close> and \<open>SpinlockA\<close>, and the objects
  they protect. An object with an \<open>atomic_flag\<close> and a protected value is a \<open>locked\<close> record. The
  sequential part gives one call of a guarded operation (\<open>guarded\<close> for a guard object,
  \<open>flag_section\<close> for the classes that set and clear the flag by hand). The concurrent part is
  the step relation of any number of threads that call guarded operations on one object; mutual
  exclusion, linearizability and progress hold in every reachable state.
\<close>

section \<open>The flag and the guards\<close>

text \<open>
  \<open>test_and_set\<close> returns the old value and leaves the flag set. \<open>spin\<close> is the loop
  \<open>while (flag.test_and_set());\<close>: run alone it either stops at the first test or never stops.
\<close>

record 'q locked =
  flag :: bool
  payload :: 'q

definition test_and_set :: "'q locked \<Rightarrow> bool \<times> 'q locked" where
  "test_and_set ob = (flag ob, ob\<lparr>flag := True\<rparr>)"

definition clear_flag :: "'q locked \<Rightarrow> 'q locked" where
  "clear_flag ob = ob\<lparr>flag := False\<rparr>"

definition spin_guard :: "bool \<times> 'q locked \<Rightarrow> bool outcome" where
  "spin_guard s = Ret (fst s)"

definition spin_body :: "bool \<times> 'q locked \<Rightarrow> (bool \<times> 'q locked) outcome" where
  "spin_body s = Ret (test_and_set (snd s))"

definition spin :: "'q locked \<Rightarrow> 'q locked outcome" where
  "spin ob = obind (cwhile spin_guard spin_body (test_and_set ob)) (\<lambda>s. Ret (snd s))"

definition Spinlock_ctor :: "'q locked \<Rightarrow> 'q locked outcome" where
  "Spinlock_ctor ob = spin ob"

definition Spinlock_dtor :: "'q locked \<Rightarrow> 'q locked" where
  "Spinlock_dtor ob = clear_flag ob"

text \<open>
  \<open>SpinlockA\<close> waits on the flag between two tests (\<open>flag.wait(true)\<close>) and wakes one waiter when
  it clears the flag. Waiting returns only when the flag is clear, so alone it behaves as the
  busy loop; the wake-up changes no state of the object.
\<close>

definition SpinlockA_ctor :: "'q locked \<Rightarrow> 'q locked outcome" where
  "SpinlockA_ctor ob = spin ob"

definition SpinlockA_dtor :: "'q locked \<Rightarrow> 'q locked" where
  "SpinlockA_dtor ob = clear_flag ob"

lemma spin_free [lock_simps]: "\<not> flag ob \<Longrightarrow> spin ob = Ret (ob\<lparr>flag := True\<rparr>)"
  by (simp add: spin_def test_and_set_def cwhile_stop spin_guard_def)

lemma spin_taken [lock_simps]: "flag ob \<Longrightarrow> spin ob = Diverge"
proof -
  assume "flag ob"
  then have "cwhile spin_guard spin_body (test_and_set ob) = Diverge"
    by (intro cwhile_forever [where P = "\<lambda>s. fst s \<and> flag (snd s)"])
      (auto simp: spin_guard_def spin_body_def test_and_set_def)
  then show ?thesis by (simp add: spin_def)
qed

section \<open>A call of a guarded operation\<close>

text \<open>
  \<open>guarded body ob\<close> is a member function that begins with \<open>Spinlock guard(_flag);\<close> and goes on
  with \<open>body\<close>: the destructor of the guard runs on every way out, exceptions included.
  \<open>flag_section\<close> is the same with the loop and the \<open>clear\<close> written out in the function: when the
  body throws, the \<open>clear\<close> is skipped and the flag stays set.
\<close>

definition guarded :: "('q \<Rightarrow> 'r outcome \<times> 'q) \<Rightarrow> 'q locked \<Rightarrow> 'r outcome \<times> 'q locked" where
  "guarded body ob =
     (case Spinlock_ctor ob of
        Ret ob1 \<Rightarrow> (let (r, q) = body (payload ob1) in (r, Spinlock_dtor (ob1\<lparr>payload := q\<rparr>)))
      | Throw e \<Rightarrow> (Throw e, ob)
      | Undef \<Rightarrow> (Undef, ob)
      | Diverge \<Rightarrow> (Diverge, ob))"

definition flag_section :: "('q \<Rightarrow> 'r outcome \<times> 'q) \<Rightarrow> 'q locked \<Rightarrow> 'r outcome \<times> 'q locked" where
  "flag_section body ob =
     (case spin ob of
        Ret ob1 \<Rightarrow>
          (let (r, q) = body (payload ob1)
           in (case r of
                 Ret a \<Rightarrow> (Ret a, clear_flag (ob1\<lparr>payload := q\<rparr>))
               | _ \<Rightarrow> (r, ob1\<lparr>payload := q\<rparr>)))
      | Throw e \<Rightarrow> (Throw e, ob)
      | Undef \<Rightarrow> (Undef, ob)
      | Diverge \<Rightarrow> (Diverge, ob))"

lemma guarded_free [lock_simps]:
  "\<not> flag ob \<Longrightarrow> guarded body ob = (fst (body (payload ob)), ob\<lparr>payload := snd (body (payload ob))\<rparr>)"
  by (cases ob) (simp add: guarded_def Spinlock_ctor_def Spinlock_dtor_def clear_flag_def spin_free
      split_beta)

lemma guarded_taken [lock_simps]: "flag ob \<Longrightarrow> guarded body ob = (Diverge, ob)"
  by (simp add: guarded_def Spinlock_ctor_def spin_taken)

lemma guarded_releases [lock_simps]: "\<not> flag ob \<Longrightarrow> \<not> flag (snd (guarded body ob))"
  by (simp add: guarded_free)

lemma guarded_cong_free [lock_simps]:
  "guarded body \<lparr>flag = False, payload = q\<rparr> = (fst (body q), \<lparr>flag = False, payload = snd (body q)\<rparr>)"
  by (simp add: guarded_free)

lemma flag_section_free [lock_simps]:
  assumes "\<not> flag ob"
  shows "flag_section body ob =
     (fst (body (payload ob)),
      ob\<lparr>flag := \<not> is_ret (fst (body (payload ob))), payload := snd (body (payload ob))\<rparr>)"
  using assms
  by (cases ob) (auto simp: flag_section_def spin_free clear_flag_def split_beta split: outcome.splits)

lemma flag_section_taken [lock_simps]: "flag ob \<Longrightarrow> flag_section body ob = (Diverge, ob)"
  by (simp add: flag_section_def spin_taken)

section \<open>Many threads, one object\<close>

text \<open>
  Thread \<open>t\<close> runs the operations \<open>todo t\<close> in order. Inside the critical section an operation
  first reads the protected value (\<open>Read\<close>), computing its result and the new value on its own,
  and only then writes (\<open>Written\<close>); a second thread in between would lose an update. \<open>hist\<close> is a
  ghost variable: the operations with their threads and results in the order of their writes.
\<close>

datatype ('op, 'r, 'q) thread_pc =
    Outside
  | Spinning 'op
  | Entered 'op
  | Read 'op 'r 'q
  | Written 'op 'r

record ('op, 'r, 'q) spin_sys =
  ob :: "'q locked"
  pcs :: "nat \<Rightarrow> ('op, 'r, 'q) thread_pc"
  todo :: "nat \<Rightarrow> 'op list"
  hist :: "(nat \<times> 'op \<times> 'r) list"

definition spin_init :: "'q \<Rightarrow> (nat \<Rightarrow> 'op list) \<Rightarrow> ('op, 'r, 'q) spin_sys" where
  "spin_init q0 prog = \<lparr>ob = \<lparr>flag = False, payload = q0\<rparr>, pcs = (\<lambda>_. Outside), todo = prog, hist = []\<rparr>"

inductive spin_step :: "('op \<Rightarrow> 'q \<Rightarrow> 'r \<times> 'q) \<Rightarrow> ('op, 'r, 'q) spin_sys \<Rightarrow> ('op, 'r, 'q) spin_sys \<Rightarrow> bool"
  for body where
  call: "pcs s t = Outside \<Longrightarrow> todo s t = op # ops \<Longrightarrow>
    spin_step body s (s\<lparr>pcs := (pcs s)(t := Spinning op), todo := (todo s)(t := ops)\<rparr>)"
| fail: "pcs s t = Spinning op \<Longrightarrow> test_and_set (ob s) = (True, ob') \<Longrightarrow>
    spin_step body s (s\<lparr>ob := ob'\<rparr>)"
| enter: "pcs s t = Spinning op \<Longrightarrow> test_and_set (ob s) = (False, ob') \<Longrightarrow>
    spin_step body s (s\<lparr>ob := ob', pcs := (pcs s)(t := Entered op)\<rparr>)"
| read: "pcs s t = Entered op \<Longrightarrow> body op (payload (ob s)) = (r, q) \<Longrightarrow>
    spin_step body s (s\<lparr>pcs := (pcs s)(t := Read op r q)\<rparr>)"
| store: "pcs s t = Read op r q \<Longrightarrow>
    spin_step body s (s\<lparr>ob := (ob s)\<lparr>payload := q\<rparr>, pcs := (pcs s)(t := Written op r), hist := hist s @ [(t, op, r)]\<rparr>)"
| leave: "pcs s t = Written op r \<Longrightarrow>
    spin_step body s (s\<lparr>ob := clear_flag (ob s), pcs := (pcs s)(t := Outside)\<rparr>)"

inductive spin_reach :: "('op \<Rightarrow> 'q \<Rightarrow> 'r \<times> 'q) \<Rightarrow> ('op, 'r, 'q) spin_sys \<Rightarrow> ('op, 'r, 'q) spin_sys \<Rightarrow> bool"
  for body where
  spin_start: "spin_reach body s s"
| spin_more: "spin_reach body s u \<Longrightarrow> spin_step body u v \<Longrightarrow> spin_reach body s v"

inductive_cases spin_stepE: "spin_step body s u"

definition in_section :: "('op, 'r, 'q) thread_pc \<Rightarrow> bool" where
  "in_section p = (case p of Outside \<Rightarrow> False | Spinning _ \<Rightarrow> False | _ \<Rightarrow> True)"

lemma in_section_simps [simp]:
  "\<not> in_section Outside" "\<not> in_section (Spinning op)" "in_section (Entered op)"
  "in_section (Read op r q)" "in_section (Written op r)"
  by (simp_all add: in_section_def)

text \<open>
  The sequential specification: \<open>replay\<close> runs the history alone, from the initial value, and
  compares every recorded result with the one the operation returns there.
\<close>

fun replay :: "('op \<Rightarrow> 'q \<Rightarrow> 'r \<times> 'q) \<Rightarrow> 'q \<Rightarrow> (nat \<times> 'op \<times> 'r) list \<Rightarrow> 'q option" where
  "replay body q [] = Some q"
| "replay body q ((t, op, r) # h) = (let (r', q') = body op q in if r' = r then replay body q' h else None)"

lemma replay_append:
  "replay body q (h @ [(t, op, r)]) =
     (case replay body q h of None \<Rightarrow> None
      | Some q1 \<Rightarrow> let (r', q2) = body op q1 in if r' = r then Some q2 else None)"
proof (induction body q h rule: replay.induct)
  case (2 body q t' op' r' h)
  then show ?case by (simp split: prod.splits)
qed (simp split: prod.splits)

fun pending_op :: "('op, 'r, 'q) thread_pc \<Rightarrow> 'op list" where
  "pending_op Outside = []"
| "pending_op (Spinning op) = [op]"
| "pending_op (Entered op) = [op]"
| "pending_op (Read op r q) = [op]"
| "pending_op (Written op r) = []"

definition ops_of :: "nat \<Rightarrow> (nat \<times> 'op \<times> 'r) list \<Rightarrow> 'op list" where
  "ops_of t h = map (\<lambda>(_, op, _). op) (filter (\<lambda>(u, _). u = t) h)"

definition exclusive :: "('op, 'r, 'q) spin_sys \<Rightarrow> bool" where
  "exclusive s \<longleftrightarrow>
     (flag (ob s) = (\<exists>t. in_section (pcs s t))) \<and>
     (\<forall>t u. in_section (pcs s t) \<longrightarrow> in_section (pcs s u) \<longrightarrow> t = u)"

definition spin_inv :: "('op \<Rightarrow> 'q \<Rightarrow> 'r \<times> 'q) \<Rightarrow> 'q \<Rightarrow> (nat \<Rightarrow> 'op list) \<Rightarrow> ('op, 'r, 'q) spin_sys \<Rightarrow> bool" where
  "spin_inv body q0 prog s \<longleftrightarrow>
     exclusive s \<and>
     replay body q0 (hist s) = Some (payload (ob s)) \<and>
     (\<forall>t op r q. pcs s t = Read op r q \<longrightarrow> body op (payload (ob s)) = (r, q)) \<and>
     (\<forall>t. ops_of t (hist s) @ pending_op (pcs s t) @ todo s t = prog t)"

lemma exclusive_step: "spin_step body s u \<Longrightarrow> exclusive s \<Longrightarrow> exclusive u"
  by (erule spin_stepE)
    (auto simp: exclusive_def test_and_set_def clear_flag_def split: if_splits; metis in_section_simps)+

lemma ops_of_snoc: "ops_of t (h @ [(u, op, r)]) = ops_of t h @ (if u = t then [op] else [])"
  by (simp add: ops_of_def)

lemma spin_inv_step:
  assumes st: "spin_step body s u" and inv: "spin_inv body q0 prog s"
  shows "spin_inv body q0 prog u"
proof -
  have ex: "exclusive s" and rep: "replay body q0 (hist s) = Some (payload (ob s))"
    and rd: "\<And>t op r q. pcs s t = Read op r q \<Longrightarrow> body op (payload (ob s)) = (r, q)"
    and prog: "\<And>t. ops_of t (hist s) @ pending_op (pcs s t) @ todo s t = prog t"
    using inv by (auto simp: spin_inv_def)
  have "exclusive u" using st ex by (rule exclusive_step)
  moreover from st have "replay body q0 (hist u) = Some (payload (ob u))"
    using rep rd by (auto elim!: spin_stepE simp: replay_append test_and_set_def clear_flag_def)
  moreover from st have "body op (payload (ob u)) = (r, q)" if "pcs u t = Read op r q" for t op r q
    using that rd ex
    by (auto elim!: spin_stepE simp: test_and_set_def clear_flag_def exclusive_def split: if_splits)
  moreover from st have "ops_of t (hist u) @ pending_op (pcs u t) @ todo u t = prog t" for t
    using prog [of t] by (cases rule: spin_step.cases) (auto simp: ops_of_snoc)
  ultimately show ?thesis by (simp add: spin_inv_def)
qed

lemma spin_inv_init: "spin_inv body q0 prog (spin_init q0 prog)"
  by (simp add: spin_inv_def spin_init_def exclusive_def ops_of_def)

lemma spin_reach_inv:
  assumes "spin_reach body s0 s" and "s0 = spin_init q0 prog"
  shows "spin_inv body q0 prog s"
  using assms by induction (auto intro: spin_inv_init spin_inv_step)

lemma hist_in_program:
  assumes "spin_inv body q0 prog s" and "(t, op, r) \<in> set (hist s)"
  shows "op \<in> set (prog t)"
proof -
  have "op \<in> set (ops_of t (hist s))" using assms(2) by (force simp: ops_of_def)
  moreover have "ops_of t (hist s) @ pending_op (pcs s t) @ todo s t = prog t"
    using assms(1) by (simp add: spin_inv_def)
  ultimately show ?thesis by (metis Un_iff set_append)
qed

section \<open>Clients of a protected object\<close>

text \<open>
  The contract between the operations of a protected class and the threads that call them: an
  invariant of the protected value that every operation keeps, run alone. Clients get it in every
  state other threads can bring about.
\<close>

locale protected_object =
  fixes body :: "'op \<Rightarrow> 'q \<Rightarrow> 'r \<times> 'q"
    and allowed :: "'op \<Rightarrow> bool"
    and I :: "'q \<Rightarrow> bool"
  assumes keeps: "allowed op \<Longrightarrow> I q \<Longrightarrow> I (snd (body op q))"
begin

lemma replay_keeps:
  "replay body q h = Some q' \<Longrightarrow> \<forall>(t, op, r) \<in> set h. allowed op \<Longrightarrow> I q \<Longrightarrow> I q'"
proof (induction h arbitrary: q)
  case (Cons x h)
  obtain t op r where x: "x = (t, op, r)" by (cases x)
  with Cons.prems(1) have "replay body (snd (body op q)) h = Some q'"
    by (simp add: split_beta split: if_splits)
  moreover have "I (snd (body op q))" using keeps Cons.prems(2,3) x by auto
  ultimately show ?case using Cons.IH Cons.prems(2) by auto
qed simp

lemma reachable_keeps:
  assumes "spin_reach body (spin_init q0 prog) s"
    and "\<And>t op. op \<in> set (prog t) \<Longrightarrow> allowed op" and "I q0"
  shows "I (payload (ob s))"
proof (rule replay_keeps)
  have inv: "spin_inv body q0 prog s" using spin_reach_inv [OF assms(1) refl] .
  then show "replay body q0 (hist s) = Some (payload (ob s))" by (simp add: spin_inv_def)
  show "\<forall>(t, op, r) \<in> set (hist s). allowed op"
    using hist_in_program [OF inv] assms(2) by fast
qed (rule assms(3))

end

lemma step_changes: "spin_step body s u \<Longrightarrow> pcs u t \<noteq> pcs s t \<Longrightarrow> \<exists>u. spin_step body s u \<and> u \<noteq> s"
  by auto

section \<open>Properties\<close>

text \<open>C15: in every state the threads can reach, at most one of them is between its
  successful \<open>test_and_set\<close> and the \<open>clear\<close> of its guard.\<close>

theorem spinlock_mutual_exclusion:
  assumes "spin_reach body (spin_init q0 prog) s"
    and "in_section (pcs s t)" and "in_section (pcs s u)"
  shows "t = u"
  using spin_reach_inv [OF assms(1) refl] assms(2,3) by (auto simp: spin_inv_def exclusive_def)

text \<open>C16: the history of writes, run alone from the initial value, gives back every
  recorded result and the present value; each thread's part of it is a prefix of its program.\<close>

theorem spinlock_linearizable:
  assumes "spin_reach body (spin_init q0 prog) s"
  shows "replay body q0 (hist s) = Some (payload (ob s)) \<and>
    (\<forall>t. \<exists>rest. prog t = ops_of t (hist s) @ rest)"
  using spin_reach_inv [OF assms refl] by (metis spin_inv_def)

text \<open>The lock is never the reason that nothing can happen. In every reachable state in
  which some thread still has work, some thread has a step that changes the state.\<close>

theorem spinlock_progress:
  assumes "spin_reach body (spin_init q0 prog) s"
    and "pcs s t \<noteq> Outside \<or> todo s t \<noteq> []"
  shows "\<exists>u. spin_step body s u \<and> u \<noteq> s"
proof (cases "\<exists>v. in_section (pcs s v)")
  case True
  then obtain v where "in_section (pcs s v)" by blast
  then show ?thesis
  proof (cases "pcs s v")
    case (Entered op)
    show ?thesis
      by (rule step_changes [OF read [OF Entered surjective_pairing], where t = v]) (simp add: Entered)
  next
    case (Read op r q)
    show ?thesis by (rule step_changes [OF store [OF Read], where t = v]) (simp add: Read)
  next
    case (Written op r)
    show ?thesis by (rule step_changes [OF leave [OF Written], where t = v]) (simp add: Written)
  qed auto
next
  case False
  then have "\<not> flag (ob s)"
    using spin_reach_inv [OF assms(1) refl] by (auto simp: spin_inv_def exclusive_def)
  then have free: "test_and_set (ob s) = (False, (ob s)\<lparr>flag := True\<rparr>)" by (simp add: test_and_set_def)
  show ?thesis
  proof (cases "pcs s t")
    case Outside
    then obtain op ops where ops: "todo s t = op # ops" using assms(2) by (cases "todo s t") auto
    show ?thesis by (rule step_changes [OF call [OF Outside ops], where t = t]) (simp add: Outside)
  next
    case (Spinning op)
    show ?thesis by (rule step_changes [OF enter [OF Spinning free], where t = t]) (simp add: Spinning)
  qed (use False in \<open>metis in_section_simps\<close>)+
qed

text \<open>Two threads that each add one to a counter; thread 0 has entered, thread 1 waits.\<close>

definition example_body :: "nat \<Rightarrow> nat \<Rightarrow> nat \<times> nat" where
  "example_body n q = (q, q + n)"

definition example_prog :: "nat \<Rightarrow> nat list" where
  "example_prog t = (if t < 2 then [1] else [])"

definition example_entered :: "(nat, nat, nat) spin_sys" where
  "example_entered =
     \<lparr>ob = \<lparr>flag = True, payload = 0\<rparr>, pcs = (\<lambda>_. Outside)(0 := Entered 1),
      todo = example_prog(0 := []), hist = []\<rparr>"

lemma example_entered_reach: "spin_reach example_body (spin_init 0 example_prog) example_entered"
proof -
  let ?s = "spin_init 0 example_prog :: (nat, nat, nat) spin_sys"
  let ?a = "?s\<lparr>pcs := (pcs ?s)(0 := Spinning 1), todo := (todo ?s)(0 := [])\<rparr>"
  have a: "spin_step example_body ?s ?a"
    by (rule call) (simp_all add: spin_init_def example_prog_def)
  have "spin_step example_body ?a (?a\<lparr>ob := (ob ?a)\<lparr>flag := True\<rparr>, pcs := (pcs ?a)(0 := Entered 1)\<rparr>)"
    by (rule enter) (simp_all add: spin_init_def test_and_set_def)
  also have "?a\<lparr>ob := (ob ?a)\<lparr>flag := True\<rparr>, pcs := (pcs ?a)(0 := Entered 1)\<rparr> = example_entered"
    by (simp add: spin_init_def example_entered_def)
  finally have b: "spin_step example_body ?a example_entered" .
  show ?thesis by (rule spin_reach.spin_more [OF spin_reach.spin_more [OF spin_reach.spin_start a] b])
qed

theorem spinlock_mutual_exclusion_witness:
  "{t. in_section (pcs example_entered t)} = {0}"
proof -
  have "in_section (pcs example_entered 0)" by (simp add: example_entered_def)
  then show ?thesis using spinlock_mutual_exclusion [OF example_entered_reach, where u = 0] by blast
qed

theorem spinlock_linearizable_witness:
  "replay example_body 0 (hist example_entered) = Some (payload (ob example_entered))"
  using spinlock_linearizable [OF example_entered_reach] by (rule conjunct1)

theorem spinlock_progress_witness:
  "\<exists>u. spin_step example_body example_entered u \<and> u \<noteq> example_entered"
  using spinlock_progress [OF example_entered_reach, of 0] by (simp add: example_entered_def)

end
