(* ===== verification/TsDeque.thy ===== *)
theory TsDeque
  imports Spinlock
begin

text \<open>
  \<open>ts_deque\<close> of \<open>include/Types.h\<close>: a \<open>std::deque\<close> behind a spin lock. Every member function is
  a body on the list of elements run under the guard. References and iterators are positions
  (\<open>Elem i\<close>); a reference to an element that the same call removes is \<open>Dangling\<close>. Calls that the
  standard leaves undefined (\<open>front\<close> of an empty deque, a position outside the deque, a function
  that ends without returning its value) are \<open>Undef\<close>.
\<close>

section \<open>State and access\<close>

type_synonym 'a ts_deque = "'a list locked"

datatype reference = Elem nat | Dangling

fun deref :: "reference \<Rightarrow> 'a list \<Rightarrow> 'a outcome" where
  "deref (Elem i) q = (if i < length q then Ret (q ! i) else Undef)"
| "deref Dangling q = Undef"

definition dq_lock :: "'a ts_deque \<Rightarrow> 'a ts_deque outcome" where
  "dq_lock d = spin d"

definition dq_unlock :: "'a ts_deque \<Rightarrow> 'a ts_deque" where
  "dq_unlock d = clear_flag d"

definition dq_data :: "'a ts_deque \<Rightarrow> 'a list" where
  "dq_data d = payload d"

definition fresh_deque :: "'a ts_deque" where
  "fresh_deque = \<lparr>flag = False, payload = []\<rparr>"

section \<open>Constructors\<close>

definition dq_ctor :: "unit outcome \<times> 'a ts_deque" where
  "dq_ctor = guarded (\<lambda>_. (Ret (), [])) fresh_deque"

definition dq_ctor_count :: "'a \<Rightarrow> nat \<Rightarrow> unit outcome \<times> 'a ts_deque" where
  "dq_ctor_count dflt count = guarded (\<lambda>_. (Ret (), replicate count dflt)) fresh_deque"

definition dq_ctor_fill :: "nat \<Rightarrow> 'a \<Rightarrow> unit outcome \<times> 'a ts_deque" where
  "dq_ctor_fill count v = guarded (\<lambda>_. (Ret (), replicate count v)) fresh_deque"

definition dq_ctor_range :: "'a list \<Rightarrow> unit outcome \<times> 'a ts_deque" where
  "dq_ctor_range xs = guarded (\<lambda>_. (Ret (), xs)) fresh_deque"

definition dq_ctor_deque :: "'a list \<Rightarrow> unit outcome \<times> 'a ts_deque" where
  "dq_ctor_deque other = guarded (\<lambda>_. (Ret (), other)) fresh_deque"

definition dq_ctor_init :: "'a list \<Rightarrow> unit outcome \<times> 'a ts_deque" where
  "dq_ctor_init ilist = guarded (\<lambda>_. (Ret (), ilist)) fresh_deque"

text \<open>
  The copy and move constructors lock the other deque while they copy its elements; the moved-from
  deque keeps them, because \<open>other.data()\<close> is an lvalue. The result is the new deque and the other.
\<close>

definition dq_ctor_copy :: "'a ts_deque \<Rightarrow> ('a ts_deque \<times> 'a ts_deque) outcome" where
  "dq_ctor_copy other =
     obind (Spinlock_ctor fresh_deque) (\<lambda>self1.
     obind (dq_lock other) (\<lambda>other1.
       let self2 = self1\<lparr>payload := dq_data other1\<rparr>;
           other2 = dq_unlock other1
       in Ret (Spinlock_dtor self2, other2)))"

definition dq_ctor_move :: "'a ts_deque \<Rightarrow> ('a ts_deque \<times> 'a ts_deque) outcome" where
  "dq_ctor_move other =
     obind (Spinlock_ctor fresh_deque) (\<lambda>self1.
     obind (dq_lock other) (\<lambda>other1.
       let self2 = self1\<lparr>payload := dq_data other1\<rparr>;
           other2 = dq_unlock other1
       in Ret (Spinlock_dtor self2, other2)))"

text \<open>
  \<open>swap\<close> names two objects, which may be the same one: the deques live in a store of objects
  by address.
\<close>

type_synonym 'a dq_store = "nat \<Rightarrow> 'a ts_deque"

definition dq_swap :: "nat \<Rightarrow> nat \<Rightarrow> 'a dq_store \<Rightarrow> 'a dq_store outcome" where
  "dq_swap self other st =
     obind (Spinlock_ctor (st self)) (\<lambda>s1.
       let st1 = st(self := s1)
       in obind (dq_lock (st1 other)) (\<lambda>o1.
            let st2 = st1(other := o1);
                qs = dq_data (st2 self); qo = dq_data (st2 other);
                st3 = st2(other := (st2 other)\<lparr>payload := qs\<rparr>);
                st4 = st3(self := (st3 self)\<lparr>payload := qo\<rparr>);
                st5 = st4(other := dq_unlock (st4 other))
            in Ret (st5(self := Spinlock_dtor (st5 self)))))"

section \<open>Member functions\<close>

definition dq_assign_fill :: "nat \<Rightarrow> 'a \<Rightarrow> 'a ts_deque \<Rightarrow> unit outcome \<times> 'a ts_deque" where
  "dq_assign_fill count v = guarded (\<lambda>_. (Ret (), replicate count v))"

definition dq_assign_range :: "'a list \<Rightarrow> 'a ts_deque \<Rightarrow> unit outcome \<times> 'a ts_deque" where
  "dq_assign_range xs = guarded (\<lambda>_. (Ret (), xs))"

definition dq_assign_init :: "'a list \<Rightarrow> 'a ts_deque \<Rightarrow> unit outcome \<times> 'a ts_deque" where
  "dq_assign_init ilist = guarded (\<lambda>_. (Ret (), ilist))"

definition dq_at :: "nat \<Rightarrow> 'a ts_deque \<Rightarrow> reference outcome \<times> 'a ts_deque" where
  "dq_at pos = guarded (\<lambda>q. (if pos < length q then Ret (Elem pos) else Throw Out_of_range, q))"

definition dq_index :: "nat \<Rightarrow> 'a ts_deque \<Rightarrow> reference outcome \<times> 'a ts_deque" where
  "dq_index pos = guarded (\<lambda>q. (if pos < length q then Ret (Elem pos) else Undef, q))"

definition dq_front :: "'a ts_deque \<Rightarrow> reference outcome \<times> 'a ts_deque" where
  "dq_front = guarded (\<lambda>q. (if q = [] then Undef else Ret (Elem 0), q))"

definition dq_get_pop_front :: "'a ts_deque \<Rightarrow> 'a outcome \<times> 'a ts_deque" where
  "dq_get_pop_front = guarded (\<lambda>q. (case q of [] \<Rightarrow> (Throw Out_of_range, q) | elem # rest \<Rightarrow> (Ret elem, rest)))"

definition dq_back :: "'a ts_deque \<Rightarrow> reference outcome \<times> 'a ts_deque" where
  "dq_back = guarded (\<lambda>q. (if q = [] then Undef else Ret (Elem (length q - 1)), q))"

definition dq_begin :: "'a ts_deque \<Rightarrow> nat outcome \<times> 'a ts_deque" where
  "dq_begin = guarded (\<lambda>q. (Ret 0, q))"

definition dq_end :: "'a ts_deque \<Rightarrow> nat outcome \<times> 'a ts_deque" where
  "dq_end = guarded (\<lambda>q. (Ret (length q), q))"

text \<open>\<open>cbegin\<close> and \<open>cend\<close> give the same positions; a reverse iterator is kept by its base.\<close>

definition dq_rbegin :: "'a ts_deque \<Rightarrow> nat outcome \<times> 'a ts_deque" where
  "dq_rbegin = guarded (\<lambda>q. (Ret (length q), q))"

definition dq_rend :: "'a ts_deque \<Rightarrow> nat outcome \<times> 'a ts_deque" where
  "dq_rend = guarded (\<lambda>q. (Ret 0, q))"

definition dq_empty :: "'a ts_deque \<Rightarrow> bool outcome \<times> 'a ts_deque" where
  "dq_empty = guarded (\<lambda>q. (Ret (q = []), q))"

definition dq_size :: "'a ts_deque \<Rightarrow> nat outcome \<times> 'a ts_deque" where
  "dq_size = guarded (\<lambda>q. (Ret (length q), q))"

definition dq_shrink_to_fit :: "'a ts_deque \<Rightarrow> unit outcome \<times> 'a ts_deque" where
  "dq_shrink_to_fit = guarded (\<lambda>q. (Ret (), q))"

definition dq_clear :: "'a ts_deque \<Rightarrow> unit outcome \<times> 'a ts_deque" where
  "dq_clear = guarded (\<lambda>_. (Ret (), []))"

text \<open>The three \<open>emplace\<close> functions change the deque and then end without a \<open>return\<close>.\<close>

definition dq_emplace :: "nat \<Rightarrow> 'a \<Rightarrow> 'a ts_deque \<Rightarrow> nat outcome \<times> 'a ts_deque" where
  "dq_emplace pos v = guarded (\<lambda>q. (Undef, if pos \<le> length q then take pos q @ v # drop pos q else q))"

definition dq_emplace_back :: "'a \<Rightarrow> 'a ts_deque \<Rightarrow> reference outcome \<times> 'a ts_deque" where
  "dq_emplace_back v = guarded (\<lambda>q. (Undef, q @ [v]))"

definition dq_emplace_front :: "'a \<Rightarrow> 'a ts_deque \<Rightarrow> reference outcome \<times> 'a ts_deque" where
  "dq_emplace_front v = guarded (\<lambda>q. (Undef, v # q))"

definition dq_push_back :: "'a \<Rightarrow> 'a ts_deque \<Rightarrow> unit outcome \<times> 'a ts_deque" where
  "dq_push_back v = guarded (\<lambda>q. (Ret (), q @ [v]))"

definition dq_pop_back :: "'a ts_deque \<Rightarrow> unit outcome \<times> 'a ts_deque" where
  "dq_pop_back = guarded (\<lambda>q. if q = [] then (Undef, q) else (Ret (), butlast q))"

definition dq_push_front :: "'a \<Rightarrow> 'a ts_deque \<Rightarrow> unit outcome \<times> 'a ts_deque" where
  "dq_push_front v = guarded (\<lambda>q. (Ret (), v # q))"

definition dq_pop_front :: "'a ts_deque \<Rightarrow> unit outcome \<times> 'a ts_deque" where
  "dq_pop_front = guarded (\<lambda>q. if q = [] then (Undef, q) else (Ret (), tl q))"

definition dq_resize :: "'a \<Rightarrow> nat \<Rightarrow> 'a ts_deque \<Rightarrow> unit outcome \<times> 'a ts_deque" where
  "dq_resize dflt count = guarded (\<lambda>q. (Ret (), take count q @ replicate (count - length q) dflt))"

definition dq_resize_fill :: "nat \<Rightarrow> 'a \<Rightarrow> 'a ts_deque \<Rightarrow> unit outcome \<times> 'a ts_deque" where
  "dq_resize_fill count v = guarded (\<lambda>q. (Ret (), take count q @ replicate (count - length q) v))"

definition dq_erase :: "nat \<Rightarrow> 'a ts_deque \<Rightarrow> nat outcome \<times> 'a ts_deque" where
  "dq_erase pos = guarded (\<lambda>q. if pos < length q then (Ret pos, take pos q @ drop (Suc pos) q) else (Undef, q))"

definition dq_erase_range :: "nat \<Rightarrow> nat \<Rightarrow> 'a ts_deque \<Rightarrow> nat outcome \<times> 'a ts_deque" where
  "dq_erase_range from till = guarded (\<lambda>q.
     if from \<le> till \<and> till \<le> length q then (Ret from, take from q @ drop till q) else (Undef, q))"

definition dq_insert :: "nat \<Rightarrow> 'a \<Rightarrow> 'a ts_deque \<Rightarrow> nat outcome \<times> 'a ts_deque" where
  "dq_insert pos v = guarded (\<lambda>q.
     if pos \<le> length q then (Ret pos, take pos q @ v # drop pos q) else (Undef, q))"

definition dq_insert_fill :: "nat \<Rightarrow> nat \<Rightarrow> 'a \<Rightarrow> 'a ts_deque \<Rightarrow> nat outcome \<times> 'a ts_deque" where
  "dq_insert_fill pos count v = guarded (\<lambda>q.
     if pos \<le> length q then (Ret pos, take pos q @ replicate count v @ drop pos q) else (Undef, q))"

definition dq_insert_range :: "nat \<Rightarrow> 'a list \<Rightarrow> 'a ts_deque \<Rightarrow> nat outcome \<times> 'a ts_deque" where
  "dq_insert_range pos xs = guarded (\<lambda>q.
     if pos \<le> length q then (Ret pos, take pos q @ xs @ drop pos q) else (Undef, q))"

text \<open>
  \<open>ts_front\<close> and \<open>ts_back\<close> remove an element and return a reference to it: the element is gone
  when the caller gets the reference.
\<close>

definition dq_ts_front :: "'a ts_deque \<Rightarrow> reference outcome \<times> 'a ts_deque" where
  "dq_ts_front = guarded (\<lambda>q. if q = [] then (Throw Out_of_range, q) else (Ret Dangling, tl q))"

definition dq_ts_back :: "'a ts_deque \<Rightarrow> reference outcome \<times> 'a ts_deque" where
  "dq_ts_back = guarded (\<lambda>q. if q = [] then (Throw Out_of_range, q) else (Ret Dangling, butlast q))"

section \<open>The class as a set of calls\<close>

text \<open>
  One value per member function with its arguments, and the results they return, so that a client
  program is a list of calls. \<open>dflt\<close> is the default value of the element type.
\<close>

datatype 'a dq_call =
    Assign "'a list" | At nat | Index nat | Front | Get_pop_front | Back | Begin | End | Empty | Size
  | Shrink | Clear | Emplace nat 'a | Emplace_back 'a | Emplace_front 'a
  | Push_back 'a | Pop_back | Push_front 'a | Pop_front | Resize nat | Resize_fill nat 'a
  | Erase nat | Erase_range nat nat | Insert nat 'a | Insert_range nat "'a list" | Ts_front | Ts_back

datatype 'a dq_result = No_value | Truth bool | Number nat | Refers reference | Element 'a

fun dq_exec :: "'a \<Rightarrow> 'a dq_call \<Rightarrow> 'a ts_deque \<Rightarrow> 'a dq_result outcome \<times> 'a ts_deque" where
  "dq_exec dflt (Assign xs) d = apfst (map_outcome (\<lambda>_. No_value)) (dq_assign_range xs d)"
| "dq_exec dflt (At i) d = apfst (map_outcome Refers) (dq_at i d)"
| "dq_exec dflt (Index i) d = apfst (map_outcome Refers) (dq_index i d)"
| "dq_exec dflt Front d = apfst (map_outcome Refers) (dq_front d)"
| "dq_exec dflt Get_pop_front d = apfst (map_outcome Element) (dq_get_pop_front d)"
| "dq_exec dflt Back d = apfst (map_outcome Refers) (dq_back d)"
| "dq_exec dflt Begin d = apfst (map_outcome Number) (dq_begin d)"
| "dq_exec dflt End d = apfst (map_outcome Number) (dq_end d)"
| "dq_exec dflt Empty d = apfst (map_outcome Truth) (dq_empty d)"
| "dq_exec dflt Size d = apfst (map_outcome Number) (dq_size d)"
| "dq_exec dflt Shrink d = apfst (map_outcome (\<lambda>_. No_value)) (dq_shrink_to_fit d)"
| "dq_exec dflt Clear d = apfst (map_outcome (\<lambda>_. No_value)) (dq_clear d)"
| "dq_exec dflt (Emplace i v) d = apfst (map_outcome Number) (dq_emplace i v d)"
| "dq_exec dflt (Emplace_back v) d = apfst (map_outcome Refers) (dq_emplace_back v d)"
| "dq_exec dflt (Emplace_front v) d = apfst (map_outcome Refers) (dq_emplace_front v d)"
| "dq_exec dflt (Push_back v) d = apfst (map_outcome (\<lambda>_. No_value)) (dq_push_back v d)"
| "dq_exec dflt Pop_back d = apfst (map_outcome (\<lambda>_. No_value)) (dq_pop_back d)"
| "dq_exec dflt (Push_front v) d = apfst (map_outcome (\<lambda>_. No_value)) (dq_push_front v d)"
| "dq_exec dflt Pop_front d = apfst (map_outcome (\<lambda>_. No_value)) (dq_pop_front d)"
| "dq_exec dflt (Resize n) d = apfst (map_outcome (\<lambda>_. No_value)) (dq_resize dflt n d)"
| "dq_exec dflt (Resize_fill n v) d = apfst (map_outcome (\<lambda>_. No_value)) (dq_resize_fill n v d)"
| "dq_exec dflt (Erase i) d = apfst (map_outcome Number) (dq_erase i d)"
| "dq_exec dflt (Erase_range i j) d = apfst (map_outcome Number) (dq_erase_range i j d)"
| "dq_exec dflt (Insert i v) d = apfst (map_outcome Number) (dq_insert i v d)"
| "dq_exec dflt (Insert_range i xs) d = apfst (map_outcome Number) (dq_insert_range i xs d)"
| "dq_exec dflt Ts_front d = apfst (map_outcome Refers) (dq_ts_front d)"
| "dq_exec dflt Ts_back d = apfst (map_outcome Refers) (dq_ts_back d)"

lemmas dq_defs =
  dq_assign_range_def dq_at_def dq_index_def dq_front_def dq_get_pop_front_def dq_back_def
  dq_begin_def dq_end_def dq_empty_def dq_size_def dq_shrink_to_fit_def dq_clear_def dq_emplace_def
  dq_emplace_back_def dq_emplace_front_def dq_push_back_def dq_pop_back_def dq_push_front_def
  dq_pop_front_def dq_resize_def dq_resize_fill_def dq_erase_def dq_erase_range_def dq_insert_def
  dq_insert_range_def dq_ts_front_def dq_ts_back_def

text \<open>What a call does to the elements of an unlocked deque.\<close>

definition dq_body :: "'a \<Rightarrow> 'a dq_call \<Rightarrow> 'a list \<Rightarrow> 'a dq_result outcome \<times> 'a list" where
  "dq_body dflt op q = apsnd payload (dq_exec dflt op \<lparr>flag = False, payload = q\<rparr>)"

definition call_elems :: "'a \<Rightarrow> 'a dq_call \<Rightarrow> 'a set" where
  "call_elems dflt op =
     (case op of
        Assign xs \<Rightarrow> set xs | Emplace _ v \<Rightarrow> {v} | Emplace_back v \<Rightarrow> {v} | Emplace_front v \<Rightarrow> {v}
      | Push_back v \<Rightarrow> {v} | Push_front v \<Rightarrow> {v} | Resize _ \<Rightarrow> {dflt} | Resize_fill _ v \<Rightarrow> {v}
      | Insert _ v \<Rightarrow> {v} | Insert_range _ xs \<Rightarrow> set xs | _ \<Rightarrow> {})"

lemma dq_exec_taken: "flag d \<Longrightarrow> dq_exec dflt op d = (Diverge, d)"
  by (cases op) (simp_all add: dq_defs guarded_taken)

lemma dq_exec_free:
  "\<not> flag d \<Longrightarrow> dq_exec dflt op d =
     (fst (dq_body dflt op (payload d)), d\<lparr>payload := snd (dq_body dflt op (payload d))\<rparr>)"
  by (cases op) (simp_all add: dq_body_def dq_defs guarded_free split: list.split)

lemma dq_body_returns: "fst (dq_body dflt op q) \<noteq> Diverge"
  by (cases op) (simp_all add: dq_body_def dq_defs guarded_free split: list.split)

lemma set_dq_body: "set (snd (dq_body dflt op q)) \<subseteq> set q \<union> call_elems dflt op"
  by (cases op)
    (auto simp: dq_body_def dq_defs guarded_free call_elems_def split: list.split if_splits
      dest: in_set_takeD in_set_dropD in_set_butlastD list.set_sel(2) [rotated])

section \<open>The queue contract\<close>

text \<open>
  What the clients of the deque (the copy engine) rely on: \<open>push_back\<close> appends, \<open>get_pop_front\<close>
  takes the first element or throws on an empty queue, \<open>size\<close> and \<open>empty\<close> read, and all four
  return with the lock released.
\<close>

locale fifo_queue =
  fixes push :: "'a \<Rightarrow> 'q \<Rightarrow> unit outcome \<times> 'q"
    and pop :: "'q \<Rightarrow> 'a outcome \<times> 'q"
    and count :: "'q \<Rightarrow> nat outcome \<times> 'q"
    and none :: "'q \<Rightarrow> bool outcome \<times> 'q"
    and elems :: "'q \<Rightarrow> 'a list"
    and ready :: "'q \<Rightarrow> bool"
  assumes push_law: "ready q \<Longrightarrow> \<exists>q'. push v q = (Ret (), q') \<and> ready q' \<and> elems q' = elems q @ [v]"
    and pop_law: "ready q \<Longrightarrow> elems q = v # vs \<Longrightarrow> \<exists>q'. pop q = (Ret v, q') \<and> ready q' \<and> elems q' = vs"
    and pop_empty_law: "ready q \<Longrightarrow> elems q = [] \<Longrightarrow> \<exists>q'. pop q = (Throw Out_of_range, q') \<and> ready q' \<and> elems q' = []"
    and count_law: "ready q \<Longrightarrow> \<exists>q'. count q = (Ret (length (elems q)), q') \<and> ready q' \<and> elems q' = elems q"
    and none_law: "ready q \<Longrightarrow> \<exists>q'. none q = (Ret (elems q = []), q') \<and> ready q' \<and> elems q' = elems q"
begin

lemma pop_total:
  "ready q \<Longrightarrow> \<exists>q'. ready q' \<and>
     ((\<exists>v. pop q = (Ret v, q') \<and> elems q = v # elems q') \<or>
      (pop q = (Throw Out_of_range, q') \<and> elems q = [] \<and> elems q' = []))"
proof (cases "elems q")
  case (Cons v vs)
  assume "ready q"
  with Cons pop_law [of q v vs] show ?thesis by auto
qed (use pop_empty_law [of q] in auto)

lemma pushes:
  "ready q \<Longrightarrow> ready (fold (\<lambda>v q. snd (push v q)) vs q) \<and>
     elems (fold (\<lambda>v q. snd (push v q)) vs q) = elems q @ vs"
proof (induction vs arbitrary: q)
  case (Cons v vs)
  obtain q' where "push v q = (Ret (), q')" "ready q'" "elems q' = elems q @ [v]"
    using push_law [OF Cons.prems, of v] by blast
  with Cons.IH [of q'] show ?case by simp
qed simp

lemma push_pop_roundtrip:
  assumes "ready q" "elems q = []"
  shows "fst (pop (snd (push v q))) = Ret v"
proof -
  obtain q' where q': "push v q = (Ret (), q')" "ready q'" "elems q' = elems q @ [v]"
    using push_law [OF assms(1), of v] by blast
  with assms(2) pop_law [of q' v "[]"] show ?thesis by auto
qed

end

interpretation dq: fifo_queue dq_push_back dq_get_pop_front dq_size dq_empty payload "\<lambda>d. \<not> flag d"
  by unfold_locales (auto simp: dq_push_back_def dq_get_pop_front_def dq_size_def dq_empty_def guarded_free)

interpretation dq_obj: protected_object "dq_body dflt" "\<lambda>op. call_elems dflt op \<subseteq> A" "\<lambda>q. set q \<subseteq> A"
  for dflt A
  by unfold_locales (use set_dq_body in fastforce)

section \<open>First in, first out\<close>

definition fifo_call :: "'a dq_call \<Rightarrow> bool" where
  "fifo_call op = (case op of Push_back _ \<Rightarrow> True | Get_pop_front \<Rightarrow> True | Empty \<Rightarrow> True | Size \<Rightarrow> True | _ \<Rightarrow> False)"

fun pushed_by :: "(nat \<times> 'a dq_call \<times> 'a dq_result outcome) list \<Rightarrow> 'a list" where
  "pushed_by [] = []"
| "pushed_by ((t, Push_back v, r) # h) = v # pushed_by h"
| "pushed_by ((t, op, r) # h) = pushed_by h"

fun popped_by :: "(nat \<times> 'a dq_call \<times> 'a dq_result outcome) list \<Rightarrow> 'a list" where
  "popped_by [] = []"
| "popped_by ((t, Get_pop_front, Ret (Element v)) # h) = v # popped_by h"
| "popped_by ((t, op, r) # h) = popped_by h"

lemma replay_fifo:
  "replay (dq_body dflt) q h = Some q' \<Longrightarrow> \<forall>(t, op, r) \<in> set h. fifo_call op \<Longrightarrow>
     popped_by h @ q' = q @ pushed_by h"
proof (induction h arbitrary: q)
  case (Cons x h)
  obtain t op r where x: "x = (t, op, r)" by (cases x)
  with Cons.prems(1) have r: "r = fst (dq_body dflt op q)"
    and h: "replay (dq_body dflt) (snd (dq_body dflt op q)) h = Some q'"
    by (auto simp: split_beta split: if_splits)
  have ih: "popped_by h @ q' = snd (dq_body dflt op q) @ pushed_by h"
    using Cons.IH [OF h] Cons.prems(2) by simp
  have "fifo_call op" using Cons.prems(2) x by simp
  then show ?case using ih r unfolding x
    by (cases op) (auto simp: fifo_call_def dq_body_def dq_defs guarded_free split: list.splits)
qed simp

section \<open>Properties\<close>


text \<open>C13: any number of threads that push, take, test and measure one deque: the elements
  taken so far, in the order they were taken, followed by the elements still in the deque, are
  the initial elements followed by the pushed ones in the order of the pushes. Nothing is lost,
  duplicated or reordered.\<close>

theorem ts_deque_concurrent_fifo:
  assumes "spin_reach (dq_body dflt) (spin_init q0 prog) s"
    and "\<forall>t. \<forall>op \<in> set (prog t). fifo_call op"
  shows "popped_by (hist s) @ payload (ob s) = q0 @ pushed_by (hist s)"
proof -
  have inv: "spin_inv (dq_body dflt) q0 prog s" using spin_reach_inv [OF assms(1) refl] .
  then have "replay (dq_body dflt) q0 (hist s) = Some (payload (ob s))" by (simp add: spin_inv_def)
  moreover from inv have "\<forall>(t, op, r) \<in> set (hist s). fifo_call op"
    using hist_in_program assms(2) by fast
  ultimately show ?thesis by (rule replay_fifo)
qed

text \<open>No thread can make an element appear in the deque that was neither there at the start
  nor an argument of one of the calls.\<close>

theorem ts_deque_elements_accounted:
  assumes "spin_reach (dq_body dflt) (spin_init q0 prog) s"
    and "\<And>t op. op \<in> set (prog t) \<Longrightarrow> call_elems dflt op \<subseteq> A" and "set q0 \<subseteq> A"
  shows "set (payload (ob s)) \<subseteq> A"
  using assms by (rule dq_obj.reachable_keeps)

text \<open>\<open>swap\<close> of two different unlocked deques exchanges their elements and leaves both
  unlocked; \<open>d.swap(d)\<close>, like a swap with a deque someone holds, never returns.\<close>

theorem ts_deque_swap_spec:
  "dq_swap a b st =
     (if a = b \<or> flag (st a) \<or> flag (st b) then Diverge
      else Ret (st(a := (st a)\<lparr>payload := payload (st b)\<rparr>, b := (st b)\<lparr>payload := payload (st a)\<rparr>)))"
proof (cases "flag (st a)")
  case False
  then have "Spinlock_ctor (st a) = Ret ((st a)\<lparr>flag := True\<rparr>)"
    by (simp add: Spinlock_ctor_def spin_free)
  with False show ?thesis
    by (cases "flag (st b)"; cases "st a"; cases "st b")
      (auto simp: dq_swap_def dq_lock_def dq_unlock_def dq_data_def spin_free spin_taken clear_flag_def
        Spinlock_dtor_def Let_def fun_upd_twist)
qed (simp add: dq_swap_def Spinlock_ctor_def spin_taken)

text \<open>\<open>ts_front\<close> takes the same element away as \<open>get_pop_front\<close>, but whenever it
  returns, reading through the reference it returns is undefined.\<close>

theorem ts_front_dangles:
  "snd (dq_ts_front d) = snd (dq_get_pop_front d) \<and>
   obind (fst (dq_ts_front d)) (\<lambda>r. deref r (payload (snd (dq_ts_front d)))) =
     obind (fst (dq_get_pop_front d)) (\<lambda>_. Undef)"
  by (cases "flag d") (auto simp: dq_ts_front_def dq_get_pop_front_def guarded_free guarded_taken
      split: list.split)

text \<open>A producer and a consumer: thread 0 has entered its \<open>push_back\<close>.\<close>

definition example_calls :: "nat \<Rightarrow> nat dq_call list" where
  "example_calls t = (if t = 0 then [Push_back 7] else if t = 1 then [Get_pop_front] else [])"

definition example_pushing :: "(nat dq_call, nat dq_result outcome, nat list) spin_sys" where
  "example_pushing =
     \<lparr>ob = \<lparr>flag = True, payload = [3, 7]\<rparr>, pcs = (\<lambda>_. Outside)(0 := Written (Push_back 7) (Ret No_value)),
      todo = example_calls(0 := []), hist = [(0, Push_back 7, Ret No_value)]\<rparr>"

lemma example_pushing_reach: "spin_reach (dq_body 0) (spin_init [3] example_calls) example_pushing"
proof -
  let ?s = "spin_init [3] example_calls :: (nat dq_call, nat dq_result outcome, nat list) spin_sys"
  let ?a = "?s\<lparr>pcs := (pcs ?s)(0 := Spinning (Push_back 7)), todo := (todo ?s)(0 := [])\<rparr>"
  let ?b = "?a\<lparr>ob := (ob ?a)\<lparr>flag := True\<rparr>, pcs := (pcs ?a)(0 := Entered (Push_back 7))\<rparr>"
  let ?c = "?b\<lparr>pcs := (pcs ?b)(0 := Read (Push_back 7) (Ret No_value) [3, 7])\<rparr>"
  have a: "spin_step (dq_body 0) ?s ?a"
    by (rule call) (simp_all add: spin_init_def example_calls_def)
  have b: "spin_step (dq_body 0) ?a ?b"
    by (rule enter) (simp_all add: spin_init_def test_and_set_def)
  have c: "spin_step (dq_body 0) ?b ?c"
    by (rule read) (simp_all add: spin_init_def dq_body_def dq_push_back_def guarded_free)
  have "spin_step (dq_body 0) ?c (?c\<lparr>ob := (ob ?c)\<lparr>payload := [3, 7]\<rparr>,
      pcs := (pcs ?c)(0 := Written (Push_back 7) (Ret No_value)), hist := hist ?c @ [(0, Push_back 7, Ret No_value)]\<rparr>)"
    by (rule store) simp
  then have "spin_step (dq_body 0) ?c example_pushing"
    by (simp add: spin_init_def example_pushing_def)
  from spin_reach.spin_more [OF spin_reach.spin_more [OF spin_reach.spin_more [OF spin_reach.spin_more
        [OF spin_reach.spin_start a] b] c] this]
  show ?thesis .
qed

lemma example_calls_cases: "op \<in> set (example_calls t) \<Longrightarrow> op = Push_back 7 \<or> op = Get_pop_front"
  by (simp add: example_calls_def split: if_splits)

theorem ts_deque_concurrent_fifo_witness:
  "popped_by (hist example_pushing) @ payload (ob example_pushing) = [3, 7]"
proof -
  have "\<forall>t. \<forall>op \<in> set (example_calls t). fifo_call op"
    by (auto simp: fifo_call_def dest!: example_calls_cases)
  from ts_deque_concurrent_fifo [OF example_pushing_reach this]
  show ?thesis by (simp add: example_pushing_def)
qed

theorem ts_deque_elements_accounted_witness: "set (payload (ob example_pushing)) \<subseteq> {3, 7}"
  by (rule ts_deque_elements_accounted [OF example_pushing_reach])
    (auto simp: call_elems_def dest!: example_calls_cases)

end
