(* ===== verification/FileSys.thy ===== *)
theory FileSys
  imports Prelude "HOL-Library.AList"
begin

text \<open>
  The part of \<open>std::filesystem\<close> that the sources call, as functions on an explicit file system:
  a list of absolute component paths with their nodes. \<open>windows\<close> selects the platform's
  separators and whether \<open>copy_file\<close> keeps the modification time; \<open>denied\<close> lists the paths the
  operating system refuses to open, so that every error branch of the callers can occur. Not
  modelled: links and junctions, hard links, case-insensitive names, drive-relative paths.
\<close>

section \<open>File times\<close>

datatype file_time = FileTime int

fun time_value :: "file_time \<Rightarrow> int" where
  "time_value (FileTime i) = i"

instantiation file_time :: linorder
begin

definition less_eq_file_time :: "file_time \<Rightarrow> file_time \<Rightarrow> bool" where
  "less_eq_file_time a b \<longleftrightarrow> time_value a \<le> time_value b"

definition less_file_time :: "file_time \<Rightarrow> file_time \<Rightarrow> bool" where
  "less_file_time a b \<longleftrightarrow> time_value a < time_value b"

instance
proof
  fix a b c :: file_time
  show "(a < b) = (a \<le> b \<and> \<not> b \<le> a)" by (auto simp: less_eq_file_time_def less_file_time_def)
  show "a \<le> a" by (simp add: less_eq_file_time_def)
  show "a \<le> b \<Longrightarrow> b \<le> c \<Longrightarrow> a \<le> c" by (simp add: less_eq_file_time_def)
  show "a \<le> b \<Longrightarrow> b \<le> a \<Longrightarrow> a = b" by (cases a; cases b) (simp add: less_eq_file_time_def)
  show "a \<le> b \<or> b \<le> a" by (auto simp: less_eq_file_time_def)
qed

end

text \<open>\<open>file_time_type::min()\<close>, the value the error-code overload returns on failure.\<close>

definition file_time_min :: file_time where
  "file_time_min = FileTime (- (2 ^ 63))"

section \<open>Paths\<close>

type_synonym path = "string list"

definition is_sep :: "bool \<Rightarrow> char \<Rightarrow> bool" where
  "is_sep win c \<longleftrightarrow> c = CHR ''/'' \<or> (win \<and> c = CHR 0x5C)"

definition preferred_separator :: "bool \<Rightarrow> char" where
  "preferred_separator win = (if win then CHR 0x5C else CHR ''/'')"

fun split_path :: "bool \<Rightarrow> string \<Rightarrow> string list" where
  "split_path win [] = [[]]"
| "split_path win (c # s) =
     (if is_sep win c then [] # split_path win s
      else (case split_path win s of h # t \<Rightarrow> (c # h) # t | [] \<Rightarrow> [[c]]))"

definition comps :: "bool \<Rightarrow> string \<Rightarrow> string list" where
  "comps win s = filter (\<lambda>x. x \<noteq> []) (split_path win s)"

definition is_absolute :: "bool \<Rightarrow> string \<Rightarrow> bool" where
  "is_absolute win s \<longleftrightarrow>
     (case s of
        [] \<Rightarrow> False
      | c # r \<Rightarrow> is_sep win c \<or> (win \<and> (case r of [] \<Rightarrow> False | d # _ \<Rightarrow> d = CHR '':'')))"

definition walk :: "path \<Rightarrow> string \<Rightarrow> path" where
  "walk cur c = (if c = ''.'' then cur else if c = ''..'' then butlast cur else cur @ [c])"

definition valid_name :: "bool \<Rightarrow> string \<Rightarrow> bool" where
  "valid_name win c \<longleftrightarrow> c \<noteq> [] \<and> c \<noteq> ''.'' \<and> c \<noteq> ''..'' \<and> (\<forall>x \<in> set c. \<not> is_sep win x)"

text \<open>\<open>operator/\<close>: a separator is added unless the left side is empty or already ends in one.\<close>

definition path_append :: "bool \<Rightarrow> string \<Rightarrow> string \<Rightarrow> string" where
  "path_append win p name =
     (if p = [] \<or> is_sep win (last p) then p @ name else p @ [preferred_separator win] @ name)"

fun join_names :: "bool \<Rightarrow> string list \<Rightarrow> string" where
  "join_names win [] = []"
| "join_names win [n] = n"
| "join_names win (n # ns) = n @ preferred_separator win # join_names win ns"

lemma is_sep_preferred [simp]: "is_sep win (preferred_separator win)"
  by (simp add: is_sep_def preferred_separator_def)

lemma split_path_nonempty [simp]: "split_path win s \<noteq> []"
  by (induction s) (auto split: list.splits)

lemma split_path_sep:
  "is_sep win c \<Longrightarrow> split_path win (p @ c # s) = split_path win p @ split_path win s"
proof (induction p)
  case (Cons x p)
  then show ?case by (cases "split_path win p") (auto split: list.splits)
qed simp

lemma comps_sep: "is_sep win c \<Longrightarrow> comps win (p @ c # s) = comps win p @ comps win s"
  by (simp add: comps_def split_path_sep)

lemma split_path_plain: "\<forall>x \<in> set c. \<not> is_sep win x \<Longrightarrow> split_path win c = [c]"
  by (induction c) auto

lemma comps_name: "valid_name win c \<Longrightarrow> comps win c = [c]"
  by (simp add: comps_def valid_name_def split_path_plain)

lemma comps_join: "\<forall>n \<in> set ns. valid_name win n \<Longrightarrow> comps win (join_names win ns) = ns"
proof (induction win ns rule: join_names.induct)
  case (1 win)
  then show ?case by (simp add: comps_def)
next
  case (2 win n)
  then show ?case by (simp add: comps_name)
next
  case (3 win n m ns)
  then show ?case by (simp add: comps_sep comps_name)
qed

lemma join_inj:
  "\<forall>n \<in> set ns. valid_name win n \<Longrightarrow> \<forall>n \<in> set ms. valid_name win n \<Longrightarrow>
   join_names win ns = join_names win ms \<longleftrightarrow> ns = ms"
  by (metis comps_join)

lemma join_nonempty: "\<forall>n \<in> set ns. valid_name win n \<Longrightarrow> ns \<noteq> [] \<Longrightarrow> join_names win ns \<noteq> []"
  by (cases ns; cases "tl ns") (auto simp: valid_name_def)

lemma foldl_walk: "\<forall>n \<in> set ns. valid_name win n \<Longrightarrow> foldl walk p ns = p @ ns"
  by (induction ns arbitrary: p) (auto simp: walk_def valid_name_def)

lemma last_not_sep:
  "\<forall>n \<in> set ns. valid_name win n \<Longrightarrow> ns \<noteq> [] \<Longrightarrow> \<not> is_sep win (last (join_names win ns))"
proof (induction win ns rule: join_names.induct)
  case (3 win n m ns)
  then show ?case using join_nonempty [of "m # ns" win] by auto
qed (auto simp: valid_name_def)

text \<open>The string of a directory entry: the iterator appends the names below the root to it.\<close>

definition entry_string :: "bool \<Rightarrow> string \<Rightarrow> string list \<Rightarrow> string" where
  "entry_string win root names = foldl (path_append win) root names"

lemma entry_string_append:
  assumes "p \<noteq> []" "\<not> is_sep win (last p)" "ns \<noteq> []" "\<forall>n \<in> set ns. valid_name win n"
  shows "entry_string win p ns = p @ preferred_separator win # join_names win ns"
  using assms
proof (induction ns arbitrary: p)
  case (Cons n ns)
  then have v: "valid_name win n" by simp
  let ?p = "p @ preferred_separator win # n"
  have one: "path_append win p n = ?p" using Cons.prems by (simp add: path_append_def)
  show ?case
  proof (cases ns)
    case Nil
    with one show ?thesis by (simp add: entry_string_def)
  next
    case (Cons m ms)
    have "?p \<noteq> []" "\<not> is_sep win (last ?p)" using v by (auto simp: valid_name_def)
    then have "entry_string win ?p ns = ?p @ preferred_separator win # join_names win ns"
      using Cons.IH [of ?p] Cons Cons.prems by simp
    with one Cons show ?thesis by (simp add: entry_string_def)
  qed
qed simp

lemma entry_string_prefix: "\<exists>rest. entry_string win p ns = p @ rest"
proof (induction ns arbitrary: p)
  case (Cons n ns)
  have "\<exists>r. path_append win p n = p @ r" by (simp add: path_append_def)
  then obtain r where "path_append win p n = p @ r" by blast
  moreover obtain r' where "entry_string win (p @ r) ns = (p @ r) @ r'" using Cons.IH by blast
  ultimately show ?case by (simp add: entry_string_def)
qed (simp add: entry_string_def)

section \<open>The file system\<close>

datatype node = Dir | File file_time string

record fs =
  windows :: bool
  cwd :: path
  clock :: file_time
  nodes :: "(path \<times> node) list"
  denied :: "path list"

definition node_at :: "fs \<Rightarrow> path \<Rightarrow> node option" where
  "node_at fs p = (if p = [] then Some Dir else map_of (nodes fs) p)"

definition set_node :: "fs \<Rightarrow> path \<Rightarrow> node \<Rightarrow> fs" where
  "set_node fs p n = fs\<lparr>nodes := AList.update p n (nodes fs)\<rparr>"

definition del_node :: "fs \<Rightarrow> path \<Rightarrow> fs" where
  "del_node fs p = fs\<lparr>nodes := AList.delete p (nodes fs)\<rparr>"

definition resolve :: "fs \<Rightarrow> string \<Rightarrow> path" where
  "resolve fs s = foldl walk (if is_absolute (windows fs) s then [] else cwd fs) (comps (windows fs) s)"

definition wf_fs :: "fs \<Rightarrow> bool" where
  "wf_fs fs \<longleftrightarrow>
     distinct (map fst (nodes fs)) \<and>
     (\<forall>p \<in> set (map fst (nodes fs)).
        p \<noteq> [] \<and> (\<forall>n \<in> set p. valid_name (windows fs) n) \<and> node_at fs (butlast p) = Some Dir)"

lemma node_at_set [simp]: "p \<noteq> [] \<Longrightarrow> node_at (set_node fs p n) q = (if q = p then Some n else node_at fs q)"
  by (auto simp: node_at_def set_node_def update_conv')

lemma node_at_del [simp]: "p \<noteq> [] \<Longrightarrow> node_at (del_node fs p) q = (if q = p then None else node_at fs q)"
  by (auto simp: node_at_def del_node_def delete_conv')

lemma set_node_fields [simp]:
  "windows (set_node fs p n) = windows fs" "cwd (set_node fs p n) = cwd fs"
  "clock (set_node fs p n) = clock fs" "denied (set_node fs p n) = denied fs"
  "windows (del_node fs p) = windows fs" "cwd (del_node fs p) = cwd fs"
  "clock (del_node fs p) = clock fs" "denied (del_node fs p) = denied fs"
  by (simp_all add: set_node_def del_node_def)

lemma resolve_set [simp]:
  "resolve (set_node fs p n) s = resolve fs s" "resolve (del_node fs p) s = resolve fs s"
  by (simp_all add: resolve_def)

lemma resolve_below:
  assumes "root \<noteq> []" and "\<forall>n \<in> set ns. valid_name (windows fs) n"
  shows "resolve fs (root @ preferred_separator (windows fs) # join_names (windows fs) ns) = resolve fs root @ ns"
proof -
  let ?w = "windows fs"
  have "is_absolute ?w (root @ preferred_separator ?w # s) = is_absolute ?w root" for s
    using assms(1) by (cases root; cases "tl root")
      (auto simp: is_absolute_def preferred_separator_def)
  with assms show ?thesis by (simp add: resolve_def comps_sep comps_join foldl_walk)
qed

section \<open>Queries\<close>

definition exists_path :: "fs \<Rightarrow> string \<Rightarrow> bool" where
  "exists_path fs s = (node_at fs (resolve fs s) \<noteq> None)"

definition is_directory :: "fs \<Rightarrow> string \<Rightarrow> bool" where
  "is_directory fs s = (node_at fs (resolve fs s) = Some Dir)"

definition size_at :: "fs \<Rightarrow> path \<Rightarrow> errc + 64 word" where
  "size_at fs p =
     (case node_at fs p of
        None \<Rightarrow> Inl No_entry
      | Some Dir \<Rightarrow> Inl Is_directory
      | Some (File t c) \<Rightarrow> if p \<in> set (denied fs) then Inl Denied else Inr (word_of_nat (length c)))"

text \<open>The throwing overload, and the error-code overload, which returns \<open>uintmax_t(-1)\<close>.\<close>

definition file_size :: "fs \<Rightarrow> string \<Rightarrow> 64 word outcome" where
  "file_size fs s = (case size_at fs (resolve fs s) of Inl e \<Rightarrow> Throw (Filesystem_error e) | Inr n \<Rightarrow> Ret n)"

definition file_size_ec :: "fs \<Rightarrow> string \<Rightarrow> 64 word" where
  "file_size_ec fs s = (case size_at fs (resolve fs s) of Inl e \<Rightarrow> - 1 | Inr n \<Rightarrow> n)"

definition last_write_time_ec :: "fs \<Rightarrow> string \<Rightarrow> file_time" where
  "last_write_time_ec fs s =
     (let p = resolve fs s
      in case node_at fs p of
           None \<Rightarrow> file_time_min
         | Some Dir \<Rightarrow> if p \<in> set (denied fs) then file_time_min else clock fs
         | Some (File t c) \<Rightarrow> if p \<in> set (denied fs) then file_time_min else t)"

section \<open>Modifications\<close>

definition copy_file_at :: "fs \<Rightarrow> path \<Rightarrow> path \<Rightarrow> errc + fs" where
  "copy_file_at fs src dst =
     (case node_at fs src of
        None \<Rightarrow> Inl No_entry
      | Some Dir \<Rightarrow> Inl Is_directory
      | Some (File t c) \<Rightarrow>
          if src = dst then Inl Same_file
          else if node_at fs dst = Some Dir then Inl Is_directory
          else if node_at fs (butlast dst) \<noteq> Some Dir then Inl No_entry
          else if src \<in> set (denied fs) \<or> dst \<in> set (denied fs) then Inl Denied
          else Inr (set_node fs dst (File (if windows fs then t else clock fs) c)))"

definition copy_file :: "fs \<Rightarrow> string \<Rightarrow> string \<Rightarrow> fs outcome" where
  "copy_file fs a b =
     (case copy_file_at fs (resolve fs a) (resolve fs b) of
        Inl e \<Rightarrow> Throw (Filesystem_error e) | Inr fs' \<Rightarrow> Ret fs')"

text \<open>Renaming a file; the callers never rename a directory, which is refused here.\<close>

definition rename_at :: "fs \<Rightarrow> path \<Rightarrow> path \<Rightarrow> errc + fs" where
  "rename_at fs src dst =
     (case node_at fs src of
        None \<Rightarrow> Inl No_entry
      | Some Dir \<Rightarrow> Inl Is_directory
      | Some (File t c) \<Rightarrow>
          if src = dst then Inr fs
          else if node_at fs dst = Some Dir then Inl Is_directory
          else if node_at fs (butlast dst) \<noteq> Some Dir then Inl No_entry
          else if src \<in> set (denied fs) \<or> dst \<in> set (denied fs) then Inl Denied
          else Inr (set_node (del_node fs src) dst (File t c)))"

definition rename_file :: "fs \<Rightarrow> string \<Rightarrow> string \<Rightarrow> fs outcome" where
  "rename_file fs a b =
     (case rename_at fs (resolve fs a) (resolve fs b) of
        Inl e \<Rightarrow> Throw (Filesystem_error e) | Inr fs' \<Rightarrow> Ret fs')"

text \<open>\<open>remove\<close> reports whether something was removed; a path that is not there is no error.\<close>

definition has_children :: "fs \<Rightarrow> path \<Rightarrow> bool" where
  "has_children fs p = list_ex (\<lambda>(q, n). strict_prefix p q) (nodes fs)"

definition remove_at :: "fs \<Rightarrow> path \<Rightarrow> errc + bool \<times> fs" where
  "remove_at fs p =
     (case node_at fs p of
        None \<Rightarrow> Inr (False, fs)
      | Some Dir \<Rightarrow>
          if p = [] \<or> p \<in> set (denied fs) then Inl Denied
          else if has_children fs p then Inl Not_empty
          else Inr (True, del_node fs p)
      | Some (File t c) \<Rightarrow> if p \<in> set (denied fs) then Inl Denied else Inr (True, del_node fs p))"

definition remove_path :: "fs \<Rightarrow> string \<Rightarrow> (bool \<times> fs) outcome" where
  "remove_path fs s =
     (case remove_at fs (resolve fs s) of Inl e \<Rightarrow> Throw (Filesystem_error e) | Inr r \<Rightarrow> Ret r)"

text \<open>
  \<open>remove_all\<close>: the whole tree goes, or nothing when a path in it is refused (the standard leaves
  open how much is gone when it fails).
\<close>

definition remove_all_at :: "fs \<Rightarrow> path \<Rightarrow> errc + fs" where
  "remove_all_at fs p =
     (if node_at fs p = None then Inr fs
      else if p = [] \<or> list_ex (\<lambda>q. prefix p q \<and> node_at fs q \<noteq> None) (denied fs) then Inl Denied
      else Inr (fs\<lparr>nodes := filter (\<lambda>(q, n). \<not> prefix p q) (nodes fs)\<rparr>))"

definition remove_all :: "fs \<Rightarrow> string \<Rightarrow> fs outcome" where
  "remove_all fs s =
     (case remove_all_at fs (resolve fs s) of Inl e \<Rightarrow> Throw (Filesystem_error e) | Inr fs' \<Rightarrow> Ret fs')"

text \<open>
  \<open>create_directories\<close> creates the missing directories from the top down and stops at the first
  component it cannot create. The throwing overload raises the error, the error-code overload
  stores it.
\<close>

fun mkdirs :: "fs \<Rightarrow> path \<Rightarrow> path \<Rightarrow> errc option \<times> fs" where
  "mkdirs fs cur [] = (None, fs)"
| "mkdirs fs cur (c # cs) =
     (case node_at fs (cur @ [c]) of
        Some Dir \<Rightarrow> mkdirs fs (cur @ [c]) cs
      | Some (File _ _) \<Rightarrow> (Some Not_directory, fs)
      | None \<Rightarrow>
          if cur @ [c] \<in> set (denied fs) then (Some Denied, fs)
          else mkdirs (set_node fs (cur @ [c]) Dir) (cur @ [c]) cs)"

definition create_directories_ec :: "fs \<Rightarrow> string \<Rightarrow> errc option \<times> fs" where
  "create_directories_ec fs s = mkdirs fs [] (resolve fs s)"

definition create_directories :: "fs \<Rightarrow> string \<Rightarrow> fs outcome" where
  "create_directories fs s =
     (case create_directories_ec fs s of
        (Some e, _) \<Rightarrow> Throw (Filesystem_error e) | (None, fs') \<Rightarrow> Ret fs')"

section \<open>Recursive directory iteration\<close>

text \<open>
  The entries below a directory in the order of the node list. Entering a refused directory ends
  the iteration with an error; the entries seen before are kept.
\<close>

fun scan_entries :: "fs \<Rightarrow> path \<Rightarrow> (path \<times> node) list \<Rightarrow> (path \<times> node) list \<times> errc option" where
  "scan_entries fs r [] = ([], None)"
| "scan_entries fs r ((p, n) # es) =
     (if list_ex (\<lambda>d. strict_prefix r d \<and> strict_prefix d p) (denied fs) then ([], Some Denied)
      else if n = Dir \<and> p \<in> set (denied fs) then ([(p, n)], Some Denied)
      else apfst (Cons (p, n)) (scan_entries fs r es))"

definition recursive_entries :: "fs \<Rightarrow> string \<Rightarrow> ((path \<times> node) list \<times> errc option) outcome" where
  "recursive_entries fs root =
     (let r = resolve fs root
      in case node_at fs r of
           None \<Rightarrow> Throw (Filesystem_error No_entry)
         | Some (File _ _) \<Rightarrow> Throw (Filesystem_error Not_directory)
         | Some Dir \<Rightarrow>
             if r \<in> set (denied fs) then Throw (Filesystem_error Denied)
             else Ret (scan_entries fs r (filter (\<lambda>(p, n). strict_prefix r p) (nodes fs))))"

end
