(* ===== verification/SyncEngine.thy ===== *)
theory SyncEngine
  imports TsDeque FileSys
begin

text \<open>
  The class \<open>Functions\<close> (\<open>include/Functions.h\<close>, \<open>src/Functions.cpp\<close>): its state as one record,
  and one definition per member function. The loops that the program runs on threads of their own
  are given here as the thread runs them alone; \<open>Copy\<close> composes the phases in the order in which
  the joins of the code separate them. The theory of the interleavings is \<open>SyncThreads\<close>.
  An exception that leaves a thread or \<open>Copy\<close> is the outcome \<open>Throw\<close>, which ends the program.
\<close>

section \<open>State\<close>

text \<open>
  The queues are \<open>ts_deque\<close>s; the three \<open>boost::unordered_set\<close>s are sets, whose iteration order
  is the parameter \<open>iter\<close> of the functions that iterate over them. \<open>int\<close> and \<open>size_t\<close> fields
  have their width. An error message is its fixed text and the code behind \<open>e.what()\<close>.
\<close>

record sync_state =
  copyQueue :: "string ts_deque"
  deleteQueue :: "string ts_deque"
  createDirsQueue :: "string ts_deque"
  doneCreatingDirs :: bool
  doneStuff :: bool
  inputPrefix :: string
  outputPrefix :: string
  threads :: nat
  IFilesSet :: "string ts_deque"
  IDirSet :: "string set"
  OFilesSet :: "string set"
  ODirSet :: "string set"
  filesinput :: "string list"
  dirsinput :: "string list"
  filesoutput :: "string list"
  dirsoutput :: "string list"
  outputprefixlength :: "32 word"
  inputprefixlength :: "32 word"
  cdeleted :: "32 word"
  move_flag :: bool
  force_flag :: bool
  overwrite_flag :: bool
  finished :: bool
  bytesToCopy :: "64 word"
  filesToCopy :: "64 word"
  bytesCopied :: "64 word"
  filesCopied :: "64 word"
  activeCopy :: bool
  errors :: "(string \<times> errc) ts_deque"

definition new_functions :: sync_state where
  "new_functions =
     \<lparr>copyQueue = snd dq_ctor, deleteQueue = snd dq_ctor, createDirsQueue = snd dq_ctor,
      doneCreatingDirs = False, doneStuff = False, inputPrefix = [], outputPrefix = [], threads = 0,
      IFilesSet = snd dq_ctor, IDirSet = {}, OFilesSet = {}, ODirSet = {},
      filesinput = [], dirsinput = [], filesoutput = [], dirsoutput = [],
      outputprefixlength = 0, inputprefixlength = 0, cdeleted = 0,
      move_flag = False, force_flag = False, overwrite_flag = False, finished = False,
      bytesToCopy = 0, filesToCopy = 0, bytesCopied = 0, filesCopied = 0, activeCopy = False,
      errors = snd dq_ctor\<rparr>"

type_synonym world = "sync_state \<times> fs"

text \<open>\<open>try { ... } catch (std::exception&) {}\<close>: nothing of the state is changed before the throw.\<close>

definition catch_all :: "'s outcome \<Rightarrow> 's \<Rightarrow> 's outcome" where
  "catch_all m s = (case m of Throw e \<Rightarrow> Ret s | r \<Rightarrow> r)"

section \<open>Stripping the prefixes\<close>

text \<open>
  \<open>s.substr(len, s.size() - len)\<close> with \<open>int len\<close>: the length is converted to \<open>size_t\<close> by sign
  extension, and the difference is taken modulo \<open>2^64\<close>.
\<close>

definition strip_prefix :: "32 word \<Rightarrow> string \<Rightarrow> string outcome" where
  "strip_prefix len s =
     substr s (unat (scast len :: 64 word)) (unat (word_of_nat (length s) - (scast len :: 64 word)))"

definition Helper_IFiles :: "sync_state \<Rightarrow> sync_state outcome" where
  "Helper_IFiles s =
     ofold (\<lambda>file s.
       obind (strip_prefix (inputprefixlength s) file) (\<lambda>rel.
         case dq_push_back rel (IFilesSet s) of
           (r, q) \<Rightarrow> obind r (\<lambda>_. Ret (s\<lparr>IFilesSet := q\<rparr>))))
       (filesinput s) s"

definition Helper_OFiles :: "sync_state \<Rightarrow> sync_state outcome" where
  "Helper_OFiles s =
     ofold (\<lambda>file s.
       obind (strip_prefix (outputprefixlength s) file) (\<lambda>rel.
         Ret (s\<lparr>OFilesSet := insert rel (OFilesSet s)\<rparr>)))
       (filesoutput s) s"

definition Helper_IDirSet :: "sync_state \<Rightarrow> sync_state outcome" where
  "Helper_IDirSet s =
     ofold (\<lambda>dir s.
       obind (strip_prefix (inputprefixlength s) dir) (\<lambda>rel.
         Ret (s\<lparr>IDirSet := insert rel (IDirSet s)\<rparr>)))
       (dirsinput s) s"

definition Helper_ODirSet :: "sync_state \<Rightarrow> sync_state outcome" where
  "Helper_ODirSet s =
     ofold (\<lambda>dir s.
       obind (strip_prefix (outputprefixlength s) dir) (\<lambda>rel.
         Ret (s\<lparr>ODirSet := insert rel (ODirSet s)\<rparr>)))
       (dirsoutput s) s"

section \<open>Creating directories\<close>

text \<open>
  \<open>Helper_CreateDirs\<close>: the queue-driven loop (the code that starts it is commented out). The
  timed wait of the condition variable changes no state. \<open>create_directories(p, err)\<close> reports
  failure in \<open>err\<close> and does not throw, so the handler that records an error is never entered.
\<close>

definition CreateDirs_guard :: "world \<Rightarrow> bool outcome" where
  "CreateDirs_guard w =
     (case w of (s, fs) \<Rightarrow>
        if \<not> doneCreatingDirs s then Ret True
        else obind (fst (dq_size (createDirsQueue s))) (\<lambda>n. Ret (0 < n)))"

definition CreateDirs_body :: "world \<Rightarrow> world outcome" where
  "CreateDirs_body w =
     (case w of (s, fs) \<Rightarrow>
        (case dq_get_pop_front (createDirsQueue s) of
           (Ret dir, q) \<Rightarrow>
             Ret (s\<lparr>createDirsQueue := q\<rparr>, snd (create_directories_ec fs (outputPrefix s @ dir)))
         | (Throw e, q) \<Rightarrow> Ret (s\<lparr>createDirsQueue := q\<rparr>, fs)
         | (Undef, q) \<Rightarrow> Undef
         | (Diverge, q) \<Rightarrow> Diverge))"

definition Helper_CreateDirs :: "world \<Rightarrow> world outcome" where
  "Helper_CreateDirs = cwhile CreateDirs_guard CreateDirs_body"

section \<open>The worker: copying and deleting\<close>

definition record_error :: "string \<Rightarrow> errc \<Rightarrow> sync_state \<Rightarrow> sync_state outcome" where
  "record_error msg c s =
     (case dq_push_back (msg, c) (errors s) of (r, q) \<Rightarrow> obind r (\<lambda>_. Ret (s\<lparr>errors := q\<rparr>)))"

definition do_copy :: "string \<Rightarrow> world \<Rightarrow> world outcome" where
  "do_copy copy w =
     (case w of (s, fs) \<Rightarrow>
        (case (if move_flag s then rename_file fs (inputPrefix s @ copy) (outputPrefix s @ copy)
               else copy_file fs (inputPrefix s @ copy) (outputPrefix s @ copy)) of
           Ret fs' \<Rightarrow>
             Ret (s\<lparr>filesCopied := filesCopied s + 1,
                    bytesCopied := bytesCopied s + file_size_ec fs' (outputPrefix s @ copy)\<rparr>, fs')
         | Throw (Filesystem_error c) \<Rightarrow>
             obind (record_error ''[ERROR] [Copy File] '' c s) (\<lambda>s'. Ret (s', fs))
         | Throw e \<Rightarrow> Throw e
         | Undef \<Rightarrow> Undef
         | Diverge \<Rightarrow> Diverge))"

definition do_delete :: "string \<Rightarrow> world \<Rightarrow> world outcome" where
  "do_delete del w =
     (case w of (s, fs) \<Rightarrow>
        (case remove_path fs (outputPrefix s @ del) of
           Ret (removed, fs') \<Rightarrow> Ret (s\<lparr>cdeleted := cdeleted s + 1\<rparr>, fs')
         | Throw (Filesystem_error c) \<Rightarrow>
             obind (record_error ''[ERROR] [Delete File] '' c s) (\<lambda>s'. Ret (s', fs))
         | Throw e \<Rightarrow> Throw e
         | Undef \<Rightarrow> Undef
         | Diverge \<Rightarrow> Diverge))"

definition DoStuff_guard :: "world \<Rightarrow> bool outcome" where
  "DoStuff_guard w =
     (case w of (s, fs) \<Rightarrow>
        if \<not> doneStuff s then Ret True
        else obind (fst (dq_empty (copyQueue s))) (\<lambda>ce.
             if \<not> ce then Ret True
             else obind (fst (dq_empty (deleteQueue s))) (\<lambda>de. Ret (\<not> de))))"

definition DoStuff_copy :: "world \<Rightarrow> world outcome" where
  "DoStuff_copy w =
     (case w of (s, fs) \<Rightarrow>
        (case dq_get_pop_front (copyQueue s) of
           (Ret copy, q) \<Rightarrow> let w1 = (s\<lparr>copyQueue := q\<rparr>, fs) in catch_all (do_copy copy w1) w1
         | (Throw e, q) \<Rightarrow> Ret (s\<lparr>copyQueue := q\<rparr>, fs)
         | (Undef, q) \<Rightarrow> Undef
         | (Diverge, q) \<Rightarrow> Diverge))"

definition DoStuff_delete :: "world \<Rightarrow> world outcome" where
  "DoStuff_delete w =
     (case w of (s, fs) \<Rightarrow>
        (case dq_get_pop_front (deleteQueue s) of
           (Ret del, q) \<Rightarrow> let w1 = (s\<lparr>deleteQueue := q\<rparr>, fs) in catch_all (do_delete del w1) w1
         | (Throw e, q) \<Rightarrow> Ret (s\<lparr>deleteQueue := q\<rparr>, fs)
         | (Undef, q) \<Rightarrow> Undef
         | (Diverge, q) \<Rightarrow> Diverge))"

definition DoStuff_body :: "world \<Rightarrow> world outcome" where
  "DoStuff_body w = obind (DoStuff_copy w) DoStuff_delete"

definition DoStuff :: "world \<Rightarrow> world outcome" where
  "DoStuff = cwhile DoStuff_guard DoStuff_body"

section \<open>The sorter: which files are copied\<close>

definition queue_copy :: "string \<Rightarrow> world \<Rightarrow> world outcome" where
  "queue_copy file w =
     (case w of (s, fs) \<Rightarrow>
        (case dq_push_back file (copyQueue s) of
           (r, q) \<Rightarrow> obind r (\<lambda>_.
             Ret (s\<lparr>copyQueue := q,
                    bytesToCopy := bytesToCopy s + file_size_ec fs (inputPrefix s @ file),
                    filesToCopy := filesToCopy s + 1\<rparr>, fs))))"

definition sort_file :: "string \<Rightarrow> world \<Rightarrow> world outcome" where
  "sort_file file w =
     (case w of (s, fs) \<Rightarrow>
        if file \<noteq> [] \<and> file \<in> OFilesSet s then
          (let ITime = last_write_time_ec fs (inputPrefix s @ file);
               OTime = last_write_time_ec fs (outputPrefix s @ file)
           in obind
                (if ITime > OTime then queue_copy file (s, fs)
                 else if ITime < OTime then
                   (if force_flag s then queue_copy file (s, fs) else Ret (s, fs))
                 else
                   obind
                     (if overwrite_flag s then Ret True
                      else obind (file_size fs (inputPrefix s @ file)) (\<lambda>isz.
                           obind (file_size fs (outputPrefix s @ file)) (\<lambda>osz. Ret (isz \<noteq> osz))))
                     (\<lambda>go. if go then queue_copy file (s, fs) else Ret (s, fs)))
                (\<lambda>(s, fs). Ret (s\<lparr>OFilesSet := OFilesSet s - {file}\<rparr>, fs)))
        else queue_copy file (s, fs))"

definition SortFiles_guard :: "world \<Rightarrow> bool outcome" where
  "SortFiles_guard w = (case w of (s, fs) \<Rightarrow> obind (fst (dq_size (IFilesSet s))) (\<lambda>n. Ret (0 < n)))"

definition SortFiles_body :: "world \<Rightarrow> world outcome" where
  "SortFiles_body w =
     (case w of (s, fs) \<Rightarrow>
        (case dq_get_pop_front (IFilesSet s) of
           (Ret file, q) \<Rightarrow> let w1 = (s\<lparr>IFilesSet := q\<rparr>, fs) in catch_all (sort_file file w1) w1
         | (Throw e, q) \<Rightarrow> Ret (s\<lparr>IFilesSet := q\<rparr>, fs)
         | (Undef, q) \<Rightarrow> Undef
         | (Diverge, q) \<Rightarrow> Diverge))"

definition Helper_SortFiles :: "world \<Rightarrow> world outcome" where
  "Helper_SortFiles = cwhile SortFiles_guard SortFiles_body"

section \<open>Finding files\<close>

text \<open>
  \<open>GetFiles\<close> appends the strings of the entries below \<open>inputPath\<close> to its two arguments; a missing
  root leaves them alone, a root that is no directory throws from the iterator's constructor, and
  an error during the iteration ends it (the message goes to the console).
\<close>

definition entry_of :: "fs \<Rightarrow> string \<Rightarrow> path \<Rightarrow> string" where
  "entry_of fs root p = entry_string (windows fs) root (drop (length (resolve fs root)) p)"

definition GetFiles :: "fs \<Rightarrow> string \<Rightarrow> string list \<Rightarrow> string list \<Rightarrow> (string list \<times> string list) outcome" where
  "GetFiles fs inputPath outfiles outdirs =
     (if \<not> exists_path fs inputPath then Ret (outfiles, outdirs)
      else obind (recursive_entries fs inputPath) (\<lambda>(es, err).
        Ret (outfiles @ map (\<lambda>(p, n). entry_of fs inputPath p) (filter (\<lambda>(p, n). n \<noteq> Dir) es),
             outdirs @ map (\<lambda>(p, n). entry_of fs inputPath p) (filter (\<lambda>(p, n). n = Dir) es))))"

definition GetFilesRelative_files :: "fs \<Rightarrow> string \<Rightarrow> string set outcome" where
  "GetFilesRelative_files fs inputPath =
     (if \<not> exists_path fs inputPath then Ret {}
      else
        let pre = inputPath @ [preferred_separator (windows fs)];
            inputprefixlength = word_of_nat (length pre)
        in obind (recursive_entries fs inputPath) (\<lambda>(es, err).
             ofold (\<lambda>file files. obind (strip_prefix inputprefixlength file) (\<lambda>rel. Ret (insert rel files)))
               (map (\<lambda>(p, n). entry_of fs inputPath p) (filter (\<lambda>(p, n). n \<noteq> Dir) es)) {}))"

definition GetFilesRelative :: "fs \<Rightarrow> string \<Rightarrow> string set \<Rightarrow> string set \<Rightarrow> (string set \<times> string set) outcome" where
  "GetFilesRelative fs inputPath files dirs =
     (if \<not> exists_path fs inputPath then Ret (files, dirs)
      else
        let pre = inputPath @ [preferred_separator (windows fs)];
            inputprefixlength = word_of_nat (length pre)
        in obind (recursive_entries fs inputPath) (\<lambda>(es, err).
             ofold (\<lambda>(p, n) (files, dirs).
                 obind (strip_prefix inputprefixlength (entry_of fs inputPath p)) (\<lambda>rel.
                   if n = Dir then Ret (files, insert rel dirs) else Ret (insert rel files, dirs)))
               es (files, dirs)))"

section \<open>Copy\<close>

text \<open>
  The phases of \<open>Copy\<close>. \<open>iter\<close> is the iteration order of \<open>boost::unordered_set\<close>: any list of the
  elements without repetition.
\<close>

definition iterates :: "(string set \<Rightarrow> string list) \<Rightarrow> bool" where
  "iterates iter \<longleftrightarrow> (\<forall>A. finite A \<longrightarrow> set (iter A) = A \<and> distinct (iter A))"

definition Copy_find :: "string \<Rightarrow> string \<Rightarrow> world \<Rightarrow> world outcome" where
  "Copy_find inputPath outputPath w =
     (case w of (s, fs) \<Rightarrow>
        obind (GetFiles fs inputPath (filesinput s) (dirsinput s)) (\<lambda>(fi, di).
        obind (GetFiles fs outputPath (filesoutput s) (dirsoutput s)) (\<lambda>(fo, do).
          Ret (s\<lparr>filesinput := fi, dirsinput := di, filesoutput := fo, dirsoutput := do\<rparr>, fs))))"

definition Copy_prefixes :: "string \<Rightarrow> string \<Rightarrow> world \<Rightarrow> world" where
  "Copy_prefixes inputPath outputPath w =
     (case w of (s, fs) \<Rightarrow>
        let ip = inputPath @ [preferred_separator (windows fs)];
            op = outputPath @ [preferred_separator (windows fs)]
        in (s\<lparr>inputPrefix := ip, outputPrefix := op,
              inputprefixlength := word_of_nat (length ip),
              outputprefixlength := word_of_nat (length op)\<rparr>, fs))"

definition Copy_relative :: "world \<Rightarrow> world outcome" where
  "Copy_relative w =
     (case w of (s, fs) \<Rightarrow>
        obind (Helper_IFiles s) (\<lambda>s1.
        obind (Helper_OFiles s1) (\<lambda>s2.
        obind (Helper_IDirSet s2) (\<lambda>s3.
        obind (Helper_ODirSet s3) (\<lambda>s4. Ret (s4, fs))))))"

definition handle_dir :: "string \<Rightarrow> world \<Rightarrow> world" where
  "handle_dir dir w =
     (case w of (s, fs) \<Rightarrow>
        if dir \<in> ODirSet s then (s\<lparr>ODirSet := ODirSet s - {dir}\<rparr>, fs)
        else (s, snd (create_directories_ec fs (outputPrefix s @ dir))))"

definition Copy_dirs :: "(string set \<Rightarrow> string list) \<Rightarrow> world \<Rightarrow> world" where
  "Copy_dirs iter w =
     (case fold handle_dir (iter (IDirSet (fst w))) w of (s, fs) \<Rightarrow> (s\<lparr>IDirSet := {}\<rparr>, fs))"

definition Copy_queue_deletes :: "(string set \<Rightarrow> string list) \<Rightarrow> sync_state \<Rightarrow> sync_state outcome" where
  "Copy_queue_deletes iter s =
     ofold (\<lambda>file s.
         case dq_push_back (outputPrefix s @ file) (deleteQueue s) of
           (r, q) \<Rightarrow> obind r (\<lambda>_. Ret (s\<lparr>deleteQueue := q, cdeleted := cdeleted s + 1\<rparr>)))
       (iter (OFilesSet s)) s"

definition Copy_remove_dirs :: "(string set \<Rightarrow> string list) \<Rightarrow> world \<Rightarrow> world outcome" where
  "Copy_remove_dirs iter w =
     (case w of (s, fs) \<Rightarrow>
        obind
          (ofold (\<lambda>dir fs.
              case remove_all fs (outputPrefix s @ dir) of
                Throw (Filesystem_error c) \<Rightarrow> Ret fs
              | r \<Rightarrow> r)
            (iter (ODirSet s)) fs)
          (\<lambda>fs'. Ret (s\<lparr>ODirSet := {}\<rparr>, fs')))"

definition Copy_workers :: "nat \<Rightarrow> world \<Rightarrow> world outcome" where
  "Copy_workers n w = ofold (\<lambda>_. DoStuff) [0..<n] w"

definition Copy_sorters :: "world \<Rightarrow> world outcome" where
  "Copy_sorters w = ofold (\<lambda>_. Helper_SortFiles) [0..<4::nat] w"

text \<open>\<open>Copy\<close> up to the start of the worker threads.\<close>

definition Copy_prepare ::
  "(string set \<Rightarrow> string list) \<Rightarrow> string \<Rightarrow> string \<Rightarrow> bool \<Rightarrow> bool \<Rightarrow> bool \<Rightarrow> int \<Rightarrow> world \<Rightarrow> world outcome" where
  "Copy_prepare iter inputPath outputPath overwriteexisting force move processors w =
     (case w of (s, fs) \<Rightarrow>
        let s0 = s\<lparr>finished := False, move_flag := move, overwrite_flag := overwriteexisting, force_flag := force\<rparr> in
        obind (if exists_path fs outputPath then Ret fs else create_directories fs outputPath) (\<lambda>fs0.
        obind (Copy_find inputPath outputPath (s0, fs0)) (\<lambda>w1.
        obind (Copy_relative (Copy_prefixes inputPath outputPath w1)) (\<lambda>w2.
        let (s3, fs3) = Copy_dirs iter w2
        in Ret (s3\<lparr>activeCopy := True, threads := nat processors\<rparr>, fs3)))))"

definition Copy ::
  "(string set \<Rightarrow> string list) \<Rightarrow> string \<Rightarrow> string \<Rightarrow> bool \<Rightarrow> bool \<Rightarrow> bool \<Rightarrow> bool \<Rightarrow> int \<Rightarrow> world \<Rightarrow> world outcome" where
  "Copy iter inputPath outputPath deletewithoutmatch overwriteexisting force move processors w =
     obind (Copy_prepare iter inputPath outputPath overwriteexisting force move processors w) (\<lambda>w3.
     obind (Copy_sorters w3) (\<lambda>(s4, fs4).
     obind (if deletewithoutmatch then Copy_queue_deletes iter s4 else Ret s4) (\<lambda>s5.
     obind (Copy_workers (nat processors) (s5\<lparr>doneStuff := True\<rparr>, fs4)) (\<lambda>(s6, fs6).
     obind
       (let w7 = (s6\<lparr>threads := 0, activeCopy := False\<rparr>, fs6)
        in if deletewithoutmatch then Copy_remove_dirs iter w7 else Ret w7) (\<lambda>(s8, fs8).
     Ret (s8\<lparr>finished := True\<rparr>, fs8))))))"

definition IsFinished :: "sync_state \<Rightarrow> bool" where
  "IsFinished s = finished s"

text \<open>\<open>Wait\<close> joins every worker thread; the handles stay in the vector, no longer joinable.\<close>

definition Wait :: "world \<Rightarrow> world outcome" where
  "Wait w = Copy_workers (threads (fst w)) w"

end
