(* ===== verification/SyncLoops.thy ===== *)
theory SyncLoops
  imports SyncEngine
begin

text \<open>
  The loops of the copy engine, run alone. The sorter, the worker and the directory loop are each
  an instance of \<open>work_loop\<close>: they are left, and they process every item of their queue once, in
  order. \<open>sort_step\<close>, \<open>work_step\<close> and \<open>mkdir_step\<close> say what processing one item does.
\<close>

section \<open>Stripping a prefix\<close>

lemma scast_small:
  assumes "n < 2 ^ 31"
  shows "scast (word_of_nat n :: 32 word) = (word_of_nat n :: 64 word)"
proof -
  have "sint (word_of_nat n :: 32 word) = int n"
    using assms by (simp add: sint_uint unsigned_of_nat signed_take_bit_int_eq_self take_bit_nat_eq_self)
  then show ?thesis by (metis of_int_of_nat_eq of_int_sint)
qed

lemma strip_prefix_ok:
  assumes "length p < 2 ^ 31" and "length (p @ r) < 2 ^ 64"
  shows "strip_prefix (word_of_nat (length p)) (p @ r) = Ret r"
proof -
  have "unat (word_of_nat (length (p @ r)) - word_of_nat (length p) :: 64 word) = length r"
    using assms(2) by (simp add: unsigned_of_nat take_bit_nat_eq_self)
  moreover have "unat (word_of_nat (length p) :: 64 word) = length p"
    using assms(2) by (simp add: unsigned_of_nat take_bit_nat_eq_self)
  ultimately show ?thesis using assms(1) by (simp add: strip_prefix_def substr_def scast_small)
qed

section \<open>Unlocked states\<close>

text \<open>Between two calls every queue of the state is unlocked.\<close>

definition unlocked :: "sync_state \<Rightarrow> bool" where
  "unlocked s \<longleftrightarrow> \<not> flag (copyQueue s) \<and> \<not> flag (deleteQueue s) \<and> \<not> flag (createDirsQueue s) \<and>
     \<not> flag (IFilesSet s) \<and> \<not> flag (errors s)"

lemma new_functions_unlocked [simp]: "unlocked new_functions"
  by (simp add: unlocked_def new_functions_def dq_ctor_def fresh_deque_def guarded_free)

section \<open>The sorter\<close>

definition queued :: "string \<Rightarrow> world \<Rightarrow> world" where
  "queued file w =
     (case w of (s, fs) \<Rightarrow>
        (s\<lparr>copyQueue := (copyQueue s)\<lparr>payload := payload (copyQueue s) @ [file]\<rparr>,
           bytesToCopy := bytesToCopy s + file_size_ec fs (inputPrefix s @ file),
           filesToCopy := filesToCopy s + 1\<rparr>, fs))"

lemma queue_copy_unlocked: "unlocked s \<Longrightarrow> queue_copy file (s, fs) = Ret (queued file (s, fs))"
  by (simp add: queue_copy_def queued_def dq_push_back_def guarded_free unlocked_def)

text \<open>
  Whether a file is copied, given the state: it is new in the input, or the input is newer, or it
  is older and \<open>-f\<close> is set, or the times agree and \<open>-o\<close> is set or the sizes differ. \<open>None\<close>: the
  sizes are needed and one of them cannot be read, and the file is dropped.
\<close>

definition copy_wanted :: "sync_state \<Rightarrow> fs \<Rightarrow> string \<Rightarrow> bool option" where
  "copy_wanted s fs file =
     (if file \<noteq> [] \<and> file \<in> OFilesSet s then
        (let ITime = last_write_time_ec fs (inputPrefix s @ file);
             OTime = last_write_time_ec fs (outputPrefix s @ file)
         in if ITime > OTime then Some True
            else if ITime < OTime then Some (force_flag s)
            else if overwrite_flag s then Some True
            else (case (file_size fs (inputPrefix s @ file), file_size fs (outputPrefix s @ file)) of
                    (Ret a, Ret b) \<Rightarrow> Some (a \<noteq> b)
                  | _ \<Rightarrow> None))
      else Some True)"

definition matched :: "string \<Rightarrow> sync_state \<Rightarrow> sync_state" where
  "matched file s = (if file = [] then s else s\<lparr>OFilesSet := OFilesSet s - {file}\<rparr>)"

lemma file_size_cases: "(\<exists>n. file_size fs p = Ret n) \<or> (\<exists>e. file_size fs p = Throw e)"
  by (auto simp: file_size_def split: sum.split)

lemma sort_file_unlocked:
  assumes "unlocked s"
  shows "sort_file file (s, fs) =
    (case copy_wanted s fs file of
       None \<Rightarrow> Throw (case file_size fs (inputPrefix s @ file) of
                 Throw e \<Rightarrow> e
               | _ \<Rightarrow> (case file_size fs (outputPrefix s @ file) of Throw e \<Rightarrow> e | _ \<Rightarrow> Out_of_range))
     | Some go \<Rightarrow> Ret (apfst (matched file) (if go then queued file (s, fs) else (s, fs))))"
  using assms file_size_cases [of fs "inputPrefix s @ file"] file_size_cases [of fs "outputPrefix s @ file"]
  by (auto simp: sort_file_def copy_wanted_def queue_copy_unlocked matched_def queued_def Let_def)

definition drop_ifile :: "sync_state \<Rightarrow> sync_state" where
  "drop_ifile s = s\<lparr>IFilesSet := (IFilesSet s)\<lparr>payload := tl (payload (IFilesSet s))\<rparr>\<rparr>"

definition sort_step :: "string \<Rightarrow> world \<Rightarrow> world" where
  "sort_step file w =
     (case w of (s, fs) \<Rightarrow>
        let s1 = drop_ifile s
        in (case copy_wanted s1 fs file of
              None \<Rightarrow> (s1, fs)
            | Some go \<Rightarrow> apfst (matched file) (if go then queued file (s1, fs) else (s1, fs))))"

lemma unlocked_updates [simp]:
  "unlocked (drop_ifile s) = unlocked s" "unlocked (matched file s) = unlocked s"
  "unlocked (fst (queued file (s, fs))) = unlocked s"
  by (auto simp: unlocked_def drop_ifile_def matched_def queued_def)

lemma unlocked_sort_step [simp]: "unlocked (fst (sort_step file w)) = unlocked (fst w)"
  by (cases w) (auto simp: sort_step_def Let_def split: option.split)

lemma IFilesSet_sort_step [simp]:
  "payload (IFilesSet (fst (sort_step file w))) = tl (payload (IFilesSet (fst w)))"
  by (cases w) (auto simp: sort_step_def Let_def drop_ifile_def matched_def queued_def split: option.split)

lemma SortFiles_body_step:
  assumes "unlocked (fst w)" and "payload (IFilesSet (fst w)) = file # rest"
  shows "SortFiles_body w = Ret (sort_step file w)"
proof -
  obtain s fs where w: "w = (s, fs)" by (cases w)
  have "s\<lparr>IFilesSet := IFilesSet s\<lparr>payload := rest\<rparr>\<rparr> = drop_ifile s"
    using assms w by (simp add: drop_ifile_def)
  then show ?thesis using assms w
    by (auto simp: SortFiles_body_def dq_get_pop_front_def guarded_free sort_file_unlocked
        catch_all_def sort_step_def unlocked_def [of s] Let_def split: option.splits)
qed

interpretation sorter: work_loop
  "\<lambda>w. payload (IFilesSet (fst w))" "\<lambda>w. unlocked (fst w)" SortFiles_guard SortFiles_body sort_step
proof unfold_locales
  fix w :: world
  assume "unlocked (fst w)"
  then show "SortFiles_guard w = Ret (payload (IFilesSet (fst w)) \<noteq> [])"
    by (cases w) (simp add: SortFiles_guard_def dq_size_def guarded_free unlocked_def)
qed (simp_all add: SortFiles_body_step)

section \<open>The worker\<close>

definition pushed_error :: "string \<Rightarrow> errc \<Rightarrow> sync_state \<Rightarrow> sync_state" where
  "pushed_error msg c s = s\<lparr>errors := (errors s)\<lparr>payload := payload (errors s) @ [(msg, c)]\<rparr>\<rparr>"

lemma record_error_unlocked: "unlocked s \<Longrightarrow> record_error msg c s = Ret (pushed_error msg c s)"
  by (simp add: record_error_def pushed_error_def dq_push_back_def guarded_free unlocked_def)

text \<open>Moving or copying one file: the new file system, or the error code.\<close>

definition transfer :: "sync_state \<Rightarrow> fs \<Rightarrow> string \<Rightarrow> errc + fs" where
  "transfer s fs file =
     (let a = resolve fs (inputPrefix s @ file); b = resolve fs (outputPrefix s @ file)
      in if move_flag s then rename_at fs a b else copy_file_at fs a b)"

definition copied :: "string \<Rightarrow> world \<Rightarrow> world" where
  "copied file w =
     (case w of (s, fs) \<Rightarrow>
        (case transfer s fs file of
           Inl c \<Rightarrow> (pushed_error ''[ERROR] [Copy File] '' c s, fs)
         | Inr fs' \<Rightarrow>
             (s\<lparr>filesCopied := filesCopied s + 1,
                bytesCopied := bytesCopied s + file_size_ec fs' (outputPrefix s @ file)\<rparr>, fs')))"

definition deleted :: "string \<Rightarrow> world \<Rightarrow> world" where
  "deleted file w =
     (case w of (s, fs) \<Rightarrow>
        (case remove_at fs (resolve fs (outputPrefix s @ file)) of
           Inl c \<Rightarrow> (pushed_error ''[ERROR] [Delete File] '' c s, fs)
         | Inr (removed, fs') \<Rightarrow> (s\<lparr>cdeleted := cdeleted s + 1\<rparr>, fs')))"

lemma do_copy_unlocked: "unlocked s \<Longrightarrow> do_copy file (s, fs) = Ret (copied file (s, fs))"
  by (auto simp: do_copy_def copied_def transfer_def rename_file_def copy_file_def
      record_error_unlocked Let_def split: sum.split)

lemma do_delete_unlocked: "unlocked s \<Longrightarrow> do_delete file (s, fs) = Ret (deleted file (s, fs))"
  by (auto simp: do_delete_def deleted_def remove_path_def record_error_unlocked split: sum.split prod.split)

definition drop_copy :: "sync_state \<Rightarrow> sync_state" where
  "drop_copy s = s\<lparr>copyQueue := (copyQueue s)\<lparr>payload := tl (payload (copyQueue s))\<rparr>\<rparr>"

definition drop_delete :: "sync_state \<Rightarrow> sync_state" where
  "drop_delete s = s\<lparr>deleteQueue := (deleteQueue s)\<lparr>payload := tl (payload (deleteQueue s))\<rparr>\<rparr>"

lemma unlocked_worker [simp]:
  "unlocked (drop_copy s) = unlocked s" "unlocked (drop_delete s) = unlocked s"
  "unlocked (pushed_error msg c s) = unlocked s"
  "unlocked (fst (copied file (s, fs))) = unlocked s"
  "unlocked (fst (deleted file (s, fs))) = unlocked s"
  by (auto simp: unlocked_def drop_copy_def drop_delete_def pushed_error_def copied_def deleted_def
      split: sum.split prod.split)

text \<open>
  The two queues side by side: each iteration takes the head of each queue that has one, the copy
  before the deletion.
\<close>

fun side_by_side :: "'a list \<Rightarrow> 'b list \<Rightarrow> ('a option \<times> 'b option) list" where
  "side_by_side [] [] = []"
| "side_by_side (c # cs) [] = (Some c, None) # side_by_side cs []"
| "side_by_side [] (d # ds) = (None, Some d) # side_by_side [] ds"
| "side_by_side (c # cs) (d # ds) = (Some c, Some d) # side_by_side cs ds"

definition work_copy :: "string option \<Rightarrow> world \<Rightarrow> world" where
  "work_copy co w = (case co of None \<Rightarrow> w | Some file \<Rightarrow> copied file (apfst drop_copy w))"

definition work_delete :: "string option \<Rightarrow> world \<Rightarrow> world" where
  "work_delete d w = (case d of None \<Rightarrow> w | Some file \<Rightarrow> deleted file (apfst drop_delete w))"

definition work_step :: "string option \<times> string option \<Rightarrow> world \<Rightarrow> world" where
  "work_step item w = work_delete (snd item) (work_copy (fst item) w)"

definition pending_work :: "world \<Rightarrow> (string option \<times> string option) list" where
  "pending_work w = side_by_side (payload (copyQueue (fst w))) (payload (deleteQueue (fst w)))"

lemma work_fields [simp]:
  "payload (copyQueue (fst (copied file w))) = payload (copyQueue (fst w))"
  "payload (deleteQueue (fst (copied file w))) = payload (deleteQueue (fst w))"
  "payload (copyQueue (fst (deleted file w))) = payload (copyQueue (fst w))"
  "payload (deleteQueue (fst (deleted file w))) = payload (deleteQueue (fst w))"
  "doneStuff (fst (copied file w)) = doneStuff (fst w)"
  "doneStuff (fst (deleted file w)) = doneStuff (fst w)"
  by (cases w; auto simp: copied_def deleted_def pushed_error_def split: sum.split prod.split)+

lemma drop_fields [simp]:
  "payload (copyQueue (drop_copy s)) = tl (payload (copyQueue s))" "deleteQueue (drop_copy s) = deleteQueue s"
  "payload (deleteQueue (drop_delete s)) = tl (payload (deleteQueue s))" "copyQueue (drop_delete s) = copyQueue s"
  "doneStuff (drop_copy s) = doneStuff s" "doneStuff (drop_delete s) = doneStuff s"
  by (simp_all add: drop_copy_def drop_delete_def)

definition head_of :: "'a list \<Rightarrow> 'a option" where
  "head_of q = (case q of [] \<Rightarrow> None | x # _ \<Rightarrow> Some x)"

lemma side_by_side_empty: "side_by_side p q = [] \<longleftrightarrow> p = [] \<and> q = []"
  by (cases p; cases q) auto

lemma side_by_side_Cons:
  "side_by_side p q = x # xs \<longleftrightarrow>
     (p \<noteq> [] \<or> q \<noteq> []) \<and> x = (head_of p, head_of q) \<and> xs = side_by_side (tl p) (tl q)"
  by (cases p; cases q) (auto simp: head_of_def)

lemma DoStuff_copy_step:
  "unlocked (fst w) \<Longrightarrow> DoStuff_copy w = Ret (work_copy (head_of (payload (copyQueue (fst w)))) w)"
proof (cases w)
  case (Pair s fs)
  assume u: "unlocked (fst w)"
  show ?thesis
  proof (cases "payload (copyQueue s)")
    case Nil
    with u Pair show ?thesis
      by (simp add: DoStuff_copy_def dq_get_pop_front_def guarded_free unlocked_def work_copy_def head_of_def)
  next
    case (Cons c cs)
    then have "s\<lparr>copyQueue := copyQueue s\<lparr>payload := cs\<rparr>\<rparr> = drop_copy s" by (simp add: drop_copy_def)
    with Cons u Pair show ?thesis
      by (simp add: DoStuff_copy_def dq_get_pop_front_def guarded_free unlocked_def [of s] work_copy_def
          head_of_def do_copy_unlocked catch_all_def)
  qed
qed

lemma DoStuff_delete_step:
  "unlocked (fst w) \<Longrightarrow> DoStuff_delete w = Ret (work_delete (head_of (payload (deleteQueue (fst w)))) w)"
proof (cases w)
  case (Pair s fs)
  assume u: "unlocked (fst w)"
  show ?thesis
  proof (cases "payload (deleteQueue s)")
    case Nil
    with u Pair show ?thesis
      by (simp add: DoStuff_delete_def dq_get_pop_front_def guarded_free unlocked_def work_delete_def head_of_def)
  next
    case (Cons d ds)
    then have "s\<lparr>deleteQueue := deleteQueue s\<lparr>payload := ds\<rparr>\<rparr> = drop_delete s" by (simp add: drop_delete_def)
    with Cons u Pair show ?thesis
      by (simp add: DoStuff_delete_def dq_get_pop_front_def guarded_free unlocked_def [of s] work_delete_def
          head_of_def do_delete_unlocked catch_all_def)
  qed
qed

lemma unlocked_work [simp]:
  "unlocked (fst (work_copy co w)) = unlocked (fst w)"
  "unlocked (fst (work_delete co w)) = unlocked (fst w)"
  by (cases w; simp add: work_copy_def work_delete_def split: option.split)+

lemma work_queues [simp]:
  "payload (copyQueue (fst (work_copy co w))) = (if co = None then payload (copyQueue (fst w)) else tl (payload (copyQueue (fst w))))"
  "payload (deleteQueue (fst (work_copy co w))) = payload (deleteQueue (fst w))"
  "payload (copyQueue (fst (work_delete co w))) = payload (copyQueue (fst w))"
  "payload (deleteQueue (fst (work_delete co w))) = (if co = None then payload (deleteQueue (fst w)) else tl (payload (deleteQueue (fst w))))"
  "doneStuff (fst (work_copy co w)) = doneStuff (fst w)"
  "doneStuff (fst (work_delete co w)) = doneStuff (fst w)"
  by (cases w; simp add: work_copy_def work_delete_def split: option.split)+

lemma DoStuff_body_step:
  assumes "unlocked (fst w)" and "pending_work w = x # xs"
  shows "DoStuff_body w = Ret (work_step x w)" and "pending_work (work_step x w) = xs"
proof -
  have x: "x = (head_of (payload (copyQueue (fst w))), head_of (payload (deleteQueue (fst w))))"
    and xs: "xs = side_by_side (tl (payload (copyQueue (fst w)))) (tl (payload (deleteQueue (fst w))))"
    using assms(2) by (auto simp: pending_work_def side_by_side_Cons)
  show "DoStuff_body w = Ret (work_step x w)"
    using assms(1) x by (simp add: DoStuff_body_def DoStuff_copy_step DoStuff_delete_step work_step_def)
  show "pending_work (work_step x w) = xs"
    unfolding xs x pending_work_def work_step_def by (auto simp: head_of_def split: list.split)
qed

interpretation worker: work_loop
  pending_work "\<lambda>w. unlocked (fst w) \<and> doneStuff (fst w)" DoStuff_guard DoStuff_body work_step
proof unfold_locales
  fix w :: world
  assume "unlocked (fst w) \<and> doneStuff (fst w)"
  then show "DoStuff_guard w = Ret (pending_work w \<noteq> [])"
    by (cases w) (simp add: DoStuff_guard_def dq_empty_def guarded_free unlocked_def pending_work_def
        side_by_side_empty)
qed (simp_all add: DoStuff_body_step, simp add: work_step_def)

section \<open>The directory loop\<close>

definition mkdir_step :: "string \<Rightarrow> world \<Rightarrow> world" where
  "mkdir_step dir w =
     (case w of (s, fs) \<Rightarrow>
        (s\<lparr>createDirsQueue := (createDirsQueue s)\<lparr>payload := tl (payload (createDirsQueue s))\<rparr>\<rparr>,
         snd (create_directories_ec fs (outputPrefix s @ dir))))"

interpretation dir_loop: work_loop
  "\<lambda>w. payload (createDirsQueue (fst w))" "\<lambda>w. unlocked (fst w) \<and> doneCreatingDirs (fst w)"
  CreateDirs_guard CreateDirs_body mkdir_step
proof unfold_locales
  fix w :: world
  assume "unlocked (fst w) \<and> doneCreatingDirs (fst w)"
  then show "CreateDirs_guard w = Ret (payload (createDirsQueue (fst w)) \<noteq> [])"
    by (cases w) (simp add: CreateDirs_guard_def dq_size_def guarded_free unlocked_def)
qed (auto simp: CreateDirs_body_def mkdir_step_def dq_get_pop_front_def guarded_free unlocked_def)

section \<open>What the sorter selects\<close>

lemma sort_step_frame [simp]:
  "snd (sort_step file (s, fs)) = fs"
  "inputPrefix (fst (sort_step file (s, fs))) = inputPrefix s"
  "outputPrefix (fst (sort_step file (s, fs))) = outputPrefix s"
  "force_flag (fst (sort_step file (s, fs))) = force_flag s"
  "overwrite_flag (fst (sort_step file (s, fs))) = overwrite_flag s"
  by (auto simp: sort_step_def Let_def drop_ifile_def matched_def queued_def split: option.split)

lemma copy_wanted_cong:
  assumes "inputPrefix s = inputPrefix t" "outputPrefix s = outputPrefix t"
    "force_flag s = force_flag t" "overwrite_flag s = overwrite_flag t"
    "file \<in> OFilesSet s \<longleftrightarrow> file \<in> OFilesSet t"
  shows "copy_wanted s fs file = copy_wanted t fs file"
  unfolding copy_wanted_def assms ..

lemma copy_wanted_drop [simp]: "copy_wanted (s\<lparr>IFilesSet := q\<rparr>) fs file = copy_wanted s fs file"
  by (rule copy_wanted_cong) simp_all

lemma sort_step_effect:
  "payload (copyQueue (fst (sort_step file (s, fs)))) =
     payload (copyQueue s) @ (if copy_wanted s fs file = Some True then [file] else [])"
  "OFilesSet (fst (sort_step file (s, fs))) =
     OFilesSet s - (if file \<noteq> [] \<and> copy_wanted s fs file \<noteq> None then {file} else {})"
  by (auto simp: sort_step_def Let_def matched_def queued_def drop_ifile_def split: option.split)

lemma copy_wanted_other:
  "f \<noteq> file \<Longrightarrow> copy_wanted (fst (sort_step file (s, fs))) fs f = copy_wanted s fs f"
  by (rule copy_wanted_cong) (simp_all add: sort_step_effect)

lemma fold_sort_steps:
  assumes "distinct files"
  shows "snd (fold sort_step files (s, fs)) = fs \<and>
    payload (copyQueue (fst (fold sort_step files (s, fs)))) =
      payload (copyQueue s) @ filter (\<lambda>f. copy_wanted s fs f = Some True) files \<and>
    OFilesSet (fst (fold sort_step files (s, fs))) =
      OFilesSet s - {f \<in> set files. f \<noteq> [] \<and> copy_wanted s fs f \<noteq> None}"
  using assms
proof (induction files arbitrary: s)
  case (Cons f files)
  obtain s' where s': "sort_step f (s, fs) = (s', fs)"
    using sort_step_frame(1) [of f s fs] by (cases "sort_step f (s, fs)") auto
  have eff: "payload (copyQueue s') = payload (copyQueue s) @ (if copy_wanted s fs f = Some True then [f] else [])"
    "OFilesSet s' = OFilesSet s - (if f \<noteq> [] \<and> copy_wanted s fs f \<noteq> None then {f} else {})"
    using sort_step_effect [of f s fs] s' by auto
  have other: "copy_wanted s' fs g = copy_wanted s fs g" if "g \<in> set files" for g
    using copy_wanted_other [of g f s fs] s' that Cons.prems by auto
  then have "filter (\<lambda>g. copy_wanted s' fs g = Some True) files = filter (\<lambda>g. copy_wanted s fs g = Some True) files"
    and "{g \<in> set files. g \<noteq> [] \<and> copy_wanted s' fs g \<noteq> None} = {g \<in> set files. g \<noteq> [] \<and> copy_wanted s fs g \<noteq> None}"
    by (auto cong: filter_cong)
  with Cons.IH [of s'] Cons.prems eff s' show ?case by auto
qed simp

section \<open>Accounting of the worker\<close>

definition accounted :: "sync_state \<Rightarrow> sync_state \<Rightarrow> nat \<Rightarrow> bool" where
  "accounted s t n \<longleftrightarrow>
     (\<exists>k m j. filesCopied t = filesCopied s + word_of_nat k \<and> cdeleted t = cdeleted s + word_of_nat m \<and>
        length (payload (errors t)) = length (payload (errors s)) + j \<and> k + m + j = n)"

lemma accounted_trans: "accounted s t m \<Longrightarrow> accounted t u n \<Longrightarrow> accounted s u (m + n)"
  unfolding accounted_def
proof (elim exE conjE)
  fix k1 m1 j1 k2 m2 j2 :: nat
  assume "filesCopied t = filesCopied s + word_of_nat k1" "cdeleted t = cdeleted s + word_of_nat m1"
    "length (payload (errors t)) = length (payload (errors s)) + j1" "k1 + m1 + j1 = m"
    "filesCopied u = filesCopied t + word_of_nat k2" "cdeleted u = cdeleted t + word_of_nat m2"
    "length (payload (errors u)) = length (payload (errors t)) + j2" "k2 + m2 + j2 = n"
  then show "\<exists>k m' j. filesCopied u = filesCopied s + word_of_nat k \<and>
      cdeleted u = cdeleted s + word_of_nat m' \<and>
      length (payload (errors u)) = length (payload (errors s)) + j \<and> k + m' + j = m + n"
    by (intro exI [of _ "k1 + k2"] exI [of _ "m1 + m2"] exI [of _ "j1 + j2"]) simp
qed

lemma accounted_copied: "accounted s (fst (copied file (s, fs))) 1"
proof (cases "transfer s fs file")
  case (Inl c)
  then show ?thesis unfolding accounted_def
    by (intro exI [of _ 0] exI [of _ 0] exI [of _ 1]) (simp add: copied_def pushed_error_def)
next
  case (Inr fs')
  then show ?thesis unfolding accounted_def
    by (intro exI [of _ 1] exI [of _ 0] exI [of _ 0]) (simp add: copied_def)
qed

lemma accounted_deleted: "accounted s (fst (deleted file (s, fs))) 1"
proof (cases "remove_at fs (resolve fs (outputPrefix s @ file))")
  case (Inl c)
  then show ?thesis unfolding accounted_def
    by (intro exI [of _ 0] exI [of _ 0] exI [of _ 1]) (simp add: deleted_def pushed_error_def)
next
  case (Inr r)
  then show ?thesis unfolding accounted_def
    by (intro exI [of _ 0] exI [of _ 1] exI [of _ 0]) (simp add: deleted_def split: prod.split)
qed

lemma accounted_drop:
  "accounted (drop_copy s) t n = accounted s t n" "accounted (drop_delete s) t n = accounted s t n"
  by (simp_all add: accounted_def drop_copy_def drop_delete_def)

lemma accounted_refl: "accounted s s 0"
  unfolding accounted_def by (intro exI [of _ 0]) simp

definition item_count :: "string option \<times> string option \<Rightarrow> nat" where
  "item_count item = (if fst item = None then 0 else 1) + (if snd item = None then 0 else 1)"

lemma accounted_work_step: "accounted (fst w) (fst (work_step item w)) (item_count item)"
proof -
  have "accounted (fst w) (fst (work_copy co w)) (if co = None then 0 else 1)" for co and w :: world
    using accounted_copied [of "drop_copy (fst w)" "the co" "snd w"]
    by (cases w) (auto simp: work_copy_def accounted_drop accounted_refl split: option.split)
  moreover have "accounted (fst w) (fst (work_delete d w)) (if d = None then 0 else 1)" for d and w :: world
    using accounted_deleted [of "drop_delete (fst w)" "the d" "snd w"]
    by (cases w) (auto simp: work_delete_def accounted_drop accounted_refl split: option.split)
  ultimately show ?thesis unfolding work_step_def item_count_def by (blast intro: accounted_trans)
qed

lemma sum_side_by_side: "sum_list (map item_count (side_by_side p q)) = length p + length q"
  by (induction p q rule: side_by_side.induct) (auto simp: item_count_def)

lemma accounted_fold: "accounted (fst w) (fst (fold work_step items w)) (sum_list (map item_count items))"
proof (induction items arbitrary: w)
  case (Cons i items)
  show ?case using accounted_trans [OF accounted_work_step [of w i] Cons.IH [of "work_step i w"]] by simp
qed (simp add: accounted_refl)

section \<open>Properties\<close>

text \<open>C17: a sorter run alone ends, empties the list of input files, leaves the file system
  alone, appends to the copy queue, in order, exactly the files that are wanted (new, newer, older
  under \<open>-f\<close>, or equally old under \<open>-o\<close> or with another size), and takes every file it could
  judge out of the set of unmatched output files.\<close>

theorem Helper_SortFiles_selects:
  assumes "unlocked s" and "distinct (payload (IFilesSet s))"
  shows "\<exists>t. Helper_SortFiles (s, fs) = Ret (t, fs) \<and> unlocked t \<and> payload (IFilesSet t) = [] \<and>
     payload (copyQueue t) =
       payload (copyQueue s) @ filter (\<lambda>f. copy_wanted s fs f = Some True) (payload (IFilesSet s)) \<and>
     OFilesSet t = OFilesSet s - {f \<in> set (payload (IFilesSet s)). f \<noteq> [] \<and> copy_wanted s fs f \<noteq> None}"
proof -
  let ?files = "payload (IFilesSet s)"
  let ?w = "fold sort_step ?files (s, fs)"
  have r: "Helper_SortFiles (s, fs) = Ret ?w"
    using sorter.loop_result [of "(s, fs)"] assms(1) by (simp add: Helper_SortFiles_def)
  have d: "unlocked (fst ?w)" "payload (IFilesSet (fst ?w)) = []"
    using sorter.loop_done [of "(s, fs)"] assms(1) by simp_all
  show ?thesis
    using r d fold_sort_steps [OF assms(2), of s fs] by (intro exI [of _ "fst ?w"]) (metis prod.collapse)
qed

text \<open>C18: a worker run alone after the done flag is set ends with both queues empty, and every
  queued item is accounted for once: as a copied file, as a deletion, or as a recorded error.\<close>

theorem DoStuff_drains:
  assumes "unlocked s" and "doneStuff s"
  shows "\<exists>t fs'. DoStuff (s, fs) = Ret (t, fs') \<and> unlocked t \<and>
     payload (copyQueue t) = [] \<and> payload (deleteQueue t) = [] \<and>
     accounted s t (length (payload (copyQueue s)) + length (payload (deleteQueue s)))"
proof -
  let ?w = "fold work_step (pending_work (s, fs)) (s, fs)"
  have r: "DoStuff (s, fs) = Ret ?w"
    using worker.loop_result [of "(s, fs)"] assms by (simp add: DoStuff_def)
  have d: "unlocked (fst ?w)" "pending_work ?w = []"
    using worker.loop_done [of "(s, fs)"] assms by simp_all
  have "accounted s (fst ?w) (length (payload (copyQueue s)) + length (payload (deleteQueue s)))"
    using accounted_fold [of "(s, fs)" "pending_work (s, fs)"] by (simp add: pending_work_def sum_side_by_side)
  with r d show ?thesis
    by (intro exI [of _ "fst ?w"] exI [of _ "snd ?w"]) (simp add: pending_work_def side_by_side_empty)
qed

text \<open>A worker does not end on its own: as long as nobody sets the done flag it keeps
  running, with its queues empty or not.\<close>

theorem DoStuff_waits:
  assumes "unlocked s" and "\<not> doneStuff s"
  shows "DoStuff (s, fs) = Diverge"
  unfolding DoStuff_def
proof (rule cwhile_forever [where P = "\<lambda>w. unlocked (fst w) \<and> \<not> doneStuff (fst w)"])
  fix w :: world
  assume w: "unlocked (fst w) \<and> \<not> doneStuff (fst w)"
  then show "DoStuff_guard w = Ret True" by (cases w) (simp add: DoStuff_guard_def)
  show "\<exists>t. DoStuff_body w = Ret t \<and> (unlocked (fst t) \<and> \<not> doneStuff (fst t))"
    using w by (simp add: DoStuff_body_def DoStuff_copy_step DoStuff_delete_step)
qed (use assms in simp)

text \<open>The directory loop, once its done flag is set, ends after one
  \<open>create_directories\<close> per queued directory, in order; no failure of these calls is recorded.\<close>

theorem Helper_CreateDirs_runs:
  assumes "unlocked s" and "doneCreatingDirs s"
  shows "\<exists>t. Helper_CreateDirs (s, fs) =
       Ret (t, fold (\<lambda>dir fs. snd (create_directories_ec fs (outputPrefix s @ dir))) (payload (createDirsQueue s)) fs) \<and>
     payload (createDirsQueue t) = [] \<and> errors t = errors s"
proof -
  let ?q = "payload (createDirsQueue s)"
  have step: "fold mkdir_step dirs (u, fs) = (fst (fold mkdir_step dirs (u, fs)),
        fold (\<lambda>dir fs. snd (create_directories_ec fs (outputPrefix u @ dir))) dirs fs) \<and>
      errors (fst (fold mkdir_step dirs (u, fs))) = errors u" for dirs u fs
  proof (induction dirs arbitrary: u fs)
    case (Cons d dirs)
    let ?u = "fst (mkdir_step d (u, fs))"
    have "outputPrefix ?u = outputPrefix u" "errors ?u = errors u" by (simp_all add: mkdir_step_def)
    then show ?case using Cons.IH [of ?u "snd (mkdir_step d (u, fs))"] by (simp add: mkdir_step_def)
  qed simp
  have "Helper_CreateDirs (s, fs) = Ret (fold mkdir_step ?q (s, fs))"
    using dir_loop.loop_result [of "(s, fs)"] assms by (simp add: Helper_CreateDirs_def)
  moreover have "payload (createDirsQueue (fst (fold mkdir_step ?q (s, fs)))) = []"
    using dir_loop.loop_done [of "(s, fs)"] assms by simp
  ultimately show ?thesis using step [of ?q s fs] by (intro exI [of _ "fst (fold mkdir_step ?q (s, fs))"]) metis
qed

text \<open>
  A small tree for the witnesses: \<open>a\<close> is new, \<open>b\<close> is older in the input than in the output, \<open>c\<close>
  is in the output only.
\<close>

definition example_fs :: fs where
  "example_fs =
     \<lparr>windows = False, cwd = [], clock = FileTime 100,
      nodes =
        [([''in''], Dir), ([''in'', ''a''], File (FileTime 5) ''xx''), ([''in'', ''b''], File (FileTime 1) ''y''),
         ([''out''], Dir), ([''out'', ''b''], File (FileTime 3) ''zz''), ([''out'', ''c''], File (FileTime 2) ''q'')],
      denied = []\<rparr>"

definition example_sorting :: sync_state where
  "example_sorting =
     new_functions\<lparr>inputPrefix := ''/in/'', outputPrefix := ''/out/'',
       IFilesSet := \<lparr>flag = False, payload = [''a'', ''b'']\<rparr>, OFilesSet := {''b'', ''c''}\<rparr>"

definition example_working :: sync_state where
  "example_working =
     new_functions\<lparr>inputPrefix := ''/in/'', outputPrefix := ''/out/'', doneStuff := True, doneCreatingDirs := True,
       copyQueue := \<lparr>flag = False, payload = [''a'', ''missing'']\<rparr>,
       deleteQueue := \<lparr>flag = False, payload = [''c'']\<rparr>\<rparr>"

lemma example_unlocked: "unlocked example_sorting" "unlocked example_working"
  using new_functions_unlocked by (simp_all add: unlocked_def example_sorting_def example_working_def)

theorem Helper_SortFiles_selects_witness:
  "\<exists>t. Helper_SortFiles (example_sorting, example_fs) = Ret (t, example_fs) \<and>
     payload (copyQueue t) = [''a''] \<and> OFilesSet t = {''c''}"
proof -
  have "copy_wanted example_sorting example_fs ''a'' = Some True"
    "copy_wanted example_sorting example_fs ''b'' = Some False"
    by (simp_all add: copy_wanted_def example_sorting_def new_functions_def example_fs_def last_write_time_ec_def
        resolve_def comps_def is_sep_def is_absolute_def walk_def node_at_def less_file_time_def)
  note wanted = this
  have f: "payload (IFilesSet example_sorting) = [''a'', ''b'']" "OFilesSet example_sorting = {''b'', ''c''}"
    "payload (copyQueue example_sorting) = []"
    by (simp_all add: example_sorting_def new_functions_def dq_ctor_def fresh_deque_def guarded_free)
  then have "{''b'', ''c''} - {f \<in> set (payload (IFilesSet example_sorting)).
      f \<noteq> [] \<and> copy_wanted example_sorting example_fs f \<noteq> None} = {''c''}"
    using wanted by auto
  moreover have "distinct (payload (IFilesSet example_sorting))" by (simp add: f)
  moreover have "filter (\<lambda>f. copy_wanted example_sorting example_fs f = Some True) [''a'', ''b''] = [''a'']"
    using wanted by simp
  ultimately show ?thesis
    using Helper_SortFiles_selects [OF example_unlocked(1), of example_fs] unfolding f by auto
qed

theorem DoStuff_drains_witness:
  "\<exists>t fs'. DoStuff (example_working, example_fs) = Ret (t, fs') \<and> payload (copyQueue t) = [] \<and>
     accounted example_working t 3"
proof -
  have "doneStuff example_working" "length (payload (copyQueue example_working)) + length (payload (deleteQueue example_working)) = 3"
    by (simp_all add: example_working_def)
  then show ?thesis using DoStuff_drains [OF example_unlocked(2), of example_fs] by metis
qed

theorem DoStuff_waits_witness: "DoStuff (example_sorting, example_fs) = Diverge"
  by (rule DoStuff_waits [OF example_unlocked(1)]) (simp add: example_sorting_def new_functions_def)

theorem Helper_CreateDirs_runs_witness:
  "\<exists>t. Helper_CreateDirs (example_working, example_fs) = Ret (t, example_fs)"
  using Helper_CreateDirs_runs [OF example_unlocked(2), of example_fs]
  by (auto simp: example_working_def new_functions_def dq_ctor_def fresh_deque_def guarded_free)

end
