(* ===== verification/SyncCopy.thy ===== *)
theory SyncCopy
  imports SyncLoops
begin

text \<open>
  The result of \<open>Copy\<close>. \<open>synced\<close> says, for every path, what the file system holds after a run:
  it is the abstract specification of the program. The lemmas follow the phases: what the scan
  finds, the relative names, the directories, the selection, the transfers.
\<close>

section \<open>Names below a root\<close>

definition keyed :: "fs \<Rightarrow> bool" where
  "keyed fs \<longleftrightarrow> distinct (map fst (nodes fs)) \<and> [] \<notin> fst ` set (nodes fs)"

definition same_env :: "fs \<Rightarrow> fs \<Rightarrow> bool" where
  "same_env a b \<longleftrightarrow> windows a = windows b \<and> cwd a = cwd b \<and> clock a = clock b \<and> denied a = denied b \<and>
     (keyed a \<longrightarrow> keyed b)"

lemma same_env_refl [simp]: "same_env a a"
  by (simp add: same_env_def)

lemma same_env_trans: "same_env a b \<Longrightarrow> same_env b c \<Longrightarrow> same_env a c"
  by (simp add: same_env_def)

lemma same_env_resolve: "same_env a b \<Longrightarrow> resolve b = resolve a"
  by (simp add: same_env_def resolve_def fun_eq_iff)

lemma same_env_set [simp]: "p \<noteq> [] \<Longrightarrow> same_env fs (set_node fs p n)" "same_env fs (del_node fs p)"
proof -
  show "same_env fs (set_node fs p n)" if "p \<noteq> []"
    using that by (auto simp: same_env_def keyed_def set_node_def distinct_update dom_update)
  show "same_env fs (del_node fs p)"
    using dom_delete_subset [of p "nodes fs"] by (auto simp: same_env_def keyed_def del_node_def distinct_delete)
qed

lemma wf_parent:
  assumes "wf_fs fs" and "node_at fs p \<noteq> None" and "strict_prefix q p"
  shows "node_at fs q = Some Dir"
  using assms(2,3)
proof (induction p rule: rev_induct)
  case (snoc x p)
  then have "p @ [x] \<in> set (map fst (nodes fs))"
    by (auto simp: node_at_def map_of_eq_None_iff)
  then have p: "node_at fs p = Some Dir" using assms(1) by (fastforce simp: wf_fs_def)
  from snoc.prems(2) have "q = p \<or> strict_prefix q p" by (auto simp: strict_prefix_def)
  with p snoc.IH show ?case by auto
qed simp

lemma wf_names: "wf_fs fs \<Longrightarrow> node_at fs p \<noteq> None \<Longrightarrow> n \<in> set p \<Longrightarrow> valid_name (windows fs) n"
  by (cases "p = []") (auto simp: wf_fs_def node_at_def map_of_eq_None_iff)

definition names_below :: "fs \<Rightarrow> path \<Rightarrow> bool \<Rightarrow> path list" where
  "names_below fs r dirs =
     map (\<lambda>(p, n). drop (length r) p) (filter (\<lambda>(p, n). strict_prefix r p \<and> (n = Dir) = dirs) (nodes fs))"

lemma node_at_map_of: "wf_fs fs \<Longrightarrow> (p, n) \<in> set (nodes fs) \<longleftrightarrow> p \<noteq> [] \<and> node_at fs p = Some n"
  by (force simp: wf_fs_def node_at_def)

lemma set_names_below:
  assumes "wf_fs fs"
  shows "ns \<in> set (names_below fs r dirs) \<longleftrightarrow>
    ns \<noteq> [] \<and> (\<exists>n. node_at fs (r @ ns) = Some n \<and> (n = Dir) = dirs)"
proof
  assume "ns \<in> set (names_below fs r dirs)"
  then obtain p n where "(p, n) \<in> set (nodes fs)" "strict_prefix r p" "(n = Dir) = dirs" "ns = drop (length r) p"
    by (auto simp: names_below_def)
  then show "ns \<noteq> [] \<and> (\<exists>n. node_at fs (r @ ns) = Some n \<and> (n = Dir) = dirs)"
    using assms by (auto simp: node_at_map_of strict_prefix_def elim!: prefixE)
next
  assume r: "ns \<noteq> [] \<and> (\<exists>n. node_at fs (r @ ns) = Some n \<and> (n = Dir) = dirs)"
  then obtain n where "node_at fs (r @ ns) = Some n" "(n = Dir) = dirs" by blast
  with r assms have "(r @ ns, n) \<in> set (nodes fs)" "strict_prefix r (r @ ns)"
    by (auto simp: node_at_map_of strict_prefix_def)
  then show "ns \<in> set (names_below fs r dirs)"
    using \<open>(n = Dir) = dirs\<close> by (force simp: names_below_def)
qed

lemma names_below_valid:
  assumes "wf_fs fs" and "ns \<in> set (names_below fs r dirs)"
  shows "\<forall>n \<in> set ns. valid_name (windows fs) n" and "ns \<noteq> []"
proof -
  obtain n where "ns \<noteq> []" and n: "node_at fs (r @ ns) = Some n"
    using assms by (auto simp: set_names_below)
  then show "ns \<noteq> []" by simp
  show "\<forall>n \<in> set ns. valid_name (windows fs) n"
    using wf_names [OF assms(1), of "r @ ns"] n by auto
qed

lemma distinct_names_below: "wf_fs fs \<Longrightarrow> distinct (names_below fs r dirs)"
proof -
  assume "wf_fs fs"
  then have d: "distinct (map fst (nodes fs))" by (simp add: wf_fs_def)
  have "distinct (map (drop (length r)) (map fst (filter (\<lambda>(p, n). strict_prefix r p \<and> (n = Dir) = dirs) (nodes fs))))"
  proof (subst distinct_map, intro conjI)
    show "distinct (map fst (filter (\<lambda>(p, n). strict_prefix r p \<and> (n = Dir) = dirs) (nodes fs)))"
      using d by (rule distinct_map_filter)
    show "inj_on (drop (length r)) (set (map fst (filter (\<lambda>(p, n). strict_prefix r p \<and> (n = Dir) = dirs) (nodes fs))))"
      by (auto simp: inj_on_def strict_prefix_def elim!: prefixE)
  qed
  then show ?thesis by (simp add: names_below_def split_def o_def)
qed

section \<open>The scan\<close>

text \<open>Every name below \<open>src\<close> fits into a string behind \<open>root\<close>.\<close>

definition short_names :: "fs \<Rightarrow> string \<Rightarrow> string \<Rightarrow> bool" where
  "short_names fs root src \<longleftrightarrow>
     list_all (\<lambda>(p, n). strict_prefix (resolve fs src) p \<longrightarrow>
        length root + length (join_names (windows fs) (drop (length (resolve fs src)) p)) < 2 ^ 63) (nodes fs)"

lemma short_names_iff:
  assumes "wf_fs fs"
  shows "short_names fs root src \<longleftrightarrow> (\<forall>ns. ns \<noteq> [] \<longrightarrow> node_at fs (resolve fs src @ ns) \<noteq> None \<longrightarrow>
    length root + length (join_names (windows fs) ns) < 2 ^ 63)"
proof -
  have below: "(p, n) \<in> set (nodes fs) \<and> strict_prefix r p \<longleftrightarrow>
      (\<exists>ns. ns \<noteq> [] \<and> p = r @ ns \<and> node_at fs p = Some n)" for p n r
    by (auto simp: node_at_map_of [OF assms] strict_prefix_def elim!: prefixE)
  have "short_names fs root src \<longleftrightarrow> (\<forall>p n. (p, n) \<in> set (nodes fs) \<and> strict_prefix (resolve fs src) p \<longrightarrow>
      length root + length (join_names (windows fs) (drop (length (resolve fs src)) p)) < 2 ^ 63)"
    by (auto simp: short_names_def list_all_iff)
  then show ?thesis unfolding below by (metis append_eq_conv_conj not_None_eq)
qed

definition good_root :: "fs \<Rightarrow> string \<Rightarrow> bool" where
  "good_root fs root \<longleftrightarrow>
     root \<noteq> [] \<and> \<not> is_sep (windows fs) (last root) \<and> length root < 2 ^ 31 - 1 \<and>
     node_at fs (resolve fs root) = Some Dir \<and>
     short_names fs root root"

definition prefix_of :: "fs \<Rightarrow> string \<Rightarrow> string" where
  "prefix_of fs root = root @ [preferred_separator (windows fs)]"

definition rel_name :: "fs \<Rightarrow> path \<Rightarrow> string" where
  "rel_name fs ns = join_names (windows fs) ns"

lemma scan_all: "denied fs = [] \<Longrightarrow> scan_entries fs r es = (es, None)"
  by (induction es) auto

lemma resolve_prefix_of:
  assumes "good_root fs root" "\<forall>n \<in> set ns. valid_name (windows fs) n"
  shows "resolve fs (prefix_of fs root @ rel_name fs ns) = resolve fs root @ ns"
  using assms resolve_below [of root ns fs] by (simp add: good_root_def prefix_of_def rel_name_def)

lemma entry_of_below:
  assumes "wf_fs fs" "good_root fs root" "(p, n) \<in> set (nodes fs)" "strict_prefix (resolve fs root) p"
  shows "entry_of fs root p = prefix_of fs root @ rel_name fs (drop (length (resolve fs root)) p)"
proof -
  let ?ns = "drop (length (resolve fs root)) p"
  have "?ns \<in> set (names_below fs (resolve fs root) (n = Dir))"
    using assms(3,4) by (force simp: names_below_def)
  then have "?ns \<noteq> []" "\<forall>n \<in> set ?ns. valid_name (windows fs) n"
    using names_below_valid [OF assms(1)] by blast+
  then show ?thesis using assms(2)
    by (simp add: entry_of_def entry_string_append good_root_def prefix_of_def rel_name_def)
qed

lemma GetFiles_finds:
  assumes "wf_fs fs" "good_root fs root" "denied fs = []"
  shows "GetFiles fs root fi di =
    Ret (fi @ map (\<lambda>ns. prefix_of fs root @ rel_name fs ns) (names_below fs (resolve fs root) False),
         di @ map (\<lambda>ns. prefix_of fs root @ rel_name fs ns) (names_below fs (resolve fs root) True))"
proof -
  let ?r = "resolve fs root"
  have e: "map (\<lambda>(p, n). entry_of fs root p) (filter (\<lambda>(p, n). (n = Dir) = dirs) (filter (\<lambda>(p, n). strict_prefix ?r p) (nodes fs)))
      = map (\<lambda>ns. prefix_of fs root @ rel_name fs ns) (names_below fs ?r dirs)" for dirs
    using entry_of_below [OF assms(1,2)]
    by (auto simp: names_below_def filter_filter split_def intro!: map_cong filter_cong)
  have d: "node_at fs ?r = Some Dir" using assms(2) by (simp add: good_root_def)
  show ?thesis
    using d assms(3) e [of True] e [of False]
    by (simp add: GetFiles_def exists_path_def recursive_entries_def scan_all)
qed

section \<open>The relative names\<close>

lemma strip_below:
  assumes "wf_fs fs" "good_root fs root" "ns \<in> set (names_below fs (resolve fs root) dirs)"
  shows "strip_prefix (word_of_nat (length (prefix_of fs root))) (prefix_of fs root @ rel_name fs ns) = Ret (rel_name fs ns)"
proof (rule strip_prefix_ok)
  show "length (prefix_of fs root) < 2 ^ 31" using assms(2) by (simp add: good_root_def prefix_of_def)
  have "ns \<noteq> []" "node_at fs (resolve fs root @ ns) \<noteq> None"
    using assms(3) by (auto simp: set_names_below [OF assms(1)])
  then have "length root + length (rel_name fs ns) < 2 ^ 63"
    using assms(2) by (auto simp: good_root_def short_names_iff [OF assms(1)] rel_name_def)
  then show "length (prefix_of fs root @ rel_name fs ns) < 2 ^ 64" by (simp add: prefix_of_def)
qed

text \<open>A loop that only changes one field is a fold on that field.\<close>

lemma ofold_field:
  assumes "\<And>x A. x \<in> set xs \<Longrightarrow> f (h x) (mk A) = Ret (mk (ins x A))"
  shows "ofold f (map h xs) (mk A) = Ret (mk (fold ins xs A))"
  using assms by (induction xs arbitrary: A) auto

lemma fold_insert_set: "fold insert xs A = set xs \<union> A"
  by (induction xs arbitrary: A) auto

lemma fold_insert_map: "fold (\<lambda>x. insert (g x)) xs A = g ` set xs \<union> A"
  by (induction xs arbitrary: A) auto

lemma fold_append_map: "fold (\<lambda>x ys. ys @ [g x]) xs A = A @ map g xs"
  by (induction xs arbitrary: A) auto

definition file_names :: "fs \<Rightarrow> string \<Rightarrow> path list" where
  "file_names fs root = names_below fs (resolve fs root) False"

definition dir_names :: "fs \<Rightarrow> string \<Rightarrow> path list" where
  "dir_names fs root = names_below fs (resolve fs root) True"

definition found :: "fs \<Rightarrow> string \<Rightarrow> path list \<Rightarrow> string list" where
  "found fs root names = map (\<lambda>ns. prefix_of fs root @ rel_name fs ns) names"

lemma Helper_IFiles_names:
  assumes "wf_fs fs" "good_root fs inp" "unlocked s"
    and "filesinput s = found fs inp (file_names fs inp)"
    and "inputprefixlength s = word_of_nat (length (prefix_of fs inp))"
  shows "Helper_IFiles s =
    Ret (s\<lparr>IFilesSet := \<lparr>flag = False, payload = payload (IFilesSet s) @ map (rel_name fs) (file_names fs inp)\<rparr>\<rparr>)"
proof -
  have l: "\<not> flag (IFilesSet s)" using assms(3) by (simp add: unlocked_def)
  then have "s = s\<lparr>IFilesSet := \<lparr>flag = False, payload = payload (IFilesSet s)\<rparr>\<rparr>"
    by (cases "IFilesSet s") simp
  then show ?thesis unfolding Helper_IFiles_def assms(4) found_def
    using ofold_field [where mk = "\<lambda>q. s\<lparr>IFilesSet := \<lparr>flag = False, payload = q\<rparr>\<rparr>"
        and ins = "\<lambda>ns q. q @ [rel_name fs ns]" and xs = "file_names fs inp" and A = "payload (IFilesSet s)"
        and h = "\<lambda>ns. prefix_of fs inp @ rel_name fs ns"]
    by (simp add: fold_append_map assms(5) strip_below [OF assms(1,2)] file_names_def dq_push_back_def lock_simps)
qed

lemma Helper_sets_names:
  assumes "wf_fs fs" "good_root fs root"
  shows
    "filesoutput s = found fs root (file_names fs root) \<Longrightarrow>
     outputprefixlength s = word_of_nat (length (prefix_of fs root)) \<Longrightarrow>
       Helper_OFiles s = Ret (s\<lparr>OFilesSet := rel_name fs ` set (file_names fs root) \<union> OFilesSet s\<rparr>)"
    "dirsinput s = found fs root (dir_names fs root) \<Longrightarrow>
     inputprefixlength s = word_of_nat (length (prefix_of fs root)) \<Longrightarrow>
       Helper_IDirSet s = Ret (s\<lparr>IDirSet := rel_name fs ` set (dir_names fs root) \<union> IDirSet s\<rparr>)"
    "dirsoutput s = found fs root (dir_names fs root) \<Longrightarrow>
     outputprefixlength s = word_of_nat (length (prefix_of fs root)) \<Longrightarrow>
       Helper_ODirSet s = Ret (s\<lparr>ODirSet := rel_name fs ` set (dir_names fs root) \<union> ODirSet s\<rparr>)"
proof -
  let ?h = "\<lambda>ns. prefix_of fs root @ rel_name fs ns"
  note simps = fold_insert_map strip_below [OF assms] file_names_def dir_names_def found_def
  show "Helper_OFiles s = Ret (s\<lparr>OFilesSet := rel_name fs ` set (file_names fs root) \<union> OFilesSet s\<rparr>)"
    if "filesoutput s = found fs root (file_names fs root)"
      "outputprefixlength s = word_of_nat (length (prefix_of fs root))"
    unfolding Helper_OFiles_def that(1)
    using ofold_field [where mk = "\<lambda>A. s\<lparr>OFilesSet := A\<rparr>" and ins = "\<lambda>ns. insert (rel_name fs ns)"
        and xs = "file_names fs root" and A = "OFilesSet s" and h = ?h]
    by (simp add: simps that(2))
  show "Helper_IDirSet s = Ret (s\<lparr>IDirSet := rel_name fs ` set (dir_names fs root) \<union> IDirSet s\<rparr>)"
    if "dirsinput s = found fs root (dir_names fs root)"
      "inputprefixlength s = word_of_nat (length (prefix_of fs root))"
    unfolding Helper_IDirSet_def that(1)
    using ofold_field [where mk = "\<lambda>A. s\<lparr>IDirSet := A\<rparr>" and ins = "\<lambda>ns. insert (rel_name fs ns)"
        and xs = "dir_names fs root" and A = "IDirSet s" and h = ?h]
    by (simp add: simps that(2))
  show "Helper_ODirSet s = Ret (s\<lparr>ODirSet := rel_name fs ` set (dir_names fs root) \<union> ODirSet s\<rparr>)"
    if "dirsoutput s = found fs root (dir_names fs root)"
      "outputprefixlength s = word_of_nat (length (prefix_of fs root))"
    unfolding Helper_ODirSet_def that(1)
    using ofold_field [where mk = "\<lambda>A. s\<lparr>ODirSet := A\<rparr>" and ins = "\<lambda>ns. insert (rel_name fs ns)"
        and xs = "dir_names fs root" and A = "ODirSet s" and h = ?h]
    by (simp add: simps that(2))
qed

text \<open>A state before the scan, and the state the scan and the helpers leave.\<close>

definition idle :: "sync_state \<Rightarrow> bool" where
  "idle s \<longleftrightarrow> unlocked s \<and> payload (copyQueue s) = [] \<and> payload (deleteQueue s) = [] \<and>
     payload (errors s) = [] \<and> filesToCopy s = 0 \<and> filesCopied s = 0 \<and> bytesToCopy s = 0 \<and>
     bytesCopied s = 0 \<and> cdeleted s = 0"

definition fresh :: "sync_state \<Rightarrow> bool" where
  "fresh s \<longleftrightarrow> idle s \<and> payload (IFilesSet s) = [] \<and> IDirSet s = {} \<and> OFilesSet s = {} \<and> ODirSet s = {} \<and>
     filesinput s = [] \<and> dirsinput s = [] \<and> filesoutput s = [] \<and> dirsoutput s = []"

definition scanned :: "fs \<Rightarrow> string \<Rightarrow> string \<Rightarrow> sync_state \<Rightarrow> bool" where
  "scanned fs inp out t \<longleftrightarrow> idle t \<and>
     payload (IFilesSet t) = map (rel_name fs) (file_names fs inp) \<and>
     OFilesSet t = rel_name fs ` set (file_names fs out) \<and>
     IDirSet t = rel_name fs ` set (dir_names fs inp) \<and>
     ODirSet t = rel_name fs ` set (dir_names fs out) \<and>
     inputPrefix t = prefix_of fs inp \<and> outputPrefix t = prefix_of fs out"

lemma fresh_new_functions [simp]:
  "fresh (new_functions\<lparr>finished := f, move_flag := m, overwrite_flag := ow, force_flag := fo\<rparr>)"
  using new_functions_unlocked
  by (simp add: fresh_def idle_def unlocked_def new_functions_def dq_ctor_def fresh_deque_def guarded_free)

lemma scan_phase:
  assumes "wf_fs fs" "good_root fs inp" "good_root fs out" "denied fs = []" "fresh s"
  shows "\<exists>t. obind (Copy_find inp out (s, fs)) (\<lambda>w. Copy_relative (Copy_prefixes inp out w)) = Ret (t, fs) \<and>
    scanned fs inp out t \<and> move_flag t = move_flag s \<and> force_flag t = force_flag s \<and>
    overwrite_flag t = overwrite_flag s \<and> doneStuff t = doneStuff s"
proof -
  let ?s1 = "s\<lparr>filesinput := found fs inp (file_names fs inp), dirsinput := found fs inp (dir_names fs inp),
      filesoutput := found fs out (file_names fs out), dirsoutput := found fs out (dir_names fs out),
      inputPrefix := prefix_of fs inp, outputPrefix := prefix_of fs out,
      inputprefixlength := word_of_nat (length (prefix_of fs inp)),
      outputprefixlength := word_of_nat (length (prefix_of fs out))\<rparr>"
  have fr: "payload (IFilesSet s) = []" "IDirSet s = {}" "OFilesSet s = {}" "ODirSet s = {}" "filesinput s = []"
    "dirsinput s = []" "filesoutput s = []" "dirsoutput s = []" and un: "unlocked s" and id: "idle s"
    using assms(5) by (simp_all add: fresh_def idle_def)
  have find: "obind (Copy_find inp out (s, fs)) (\<lambda>w. Ret (Copy_prefixes inp out w)) = Ret (?s1, fs)"
    using GetFiles_finds [OF assms(1,2,4)] GetFiles_finds [OF assms(1,3,4)] fr
    by (simp add: Copy_find_def Copy_prefixes_def found_def file_names_def dir_names_def prefix_of_def Let_def)
  let ?s2 = "?s1\<lparr>IFilesSet := \<lparr>flag = False, payload = map (rel_name fs) (file_names fs inp)\<rparr>\<rparr>"
  let ?s3 = "?s2\<lparr>OFilesSet := rel_name fs ` set (file_names fs out)\<rparr>"
  let ?s4 = "?s3\<lparr>IDirSet := rel_name fs ` set (dir_names fs inp)\<rparr>"
  let ?s5 = "?s4\<lparr>ODirSet := rel_name fs ` set (dir_names fs out)\<rparr>"
  have h1: "Helper_IFiles ?s1 = Ret ?s2"
    using Helper_IFiles_names [OF assms(1,2), of ?s1] un fr by (simp add: unlocked_def)
  have h2: "Helper_OFiles ?s2 = Ret ?s3" using Helper_sets_names(1) [OF assms(1,3), of ?s2] fr by simp
  have h3: "Helper_IDirSet ?s3 = Ret ?s4" using Helper_sets_names(2) [OF assms(1,2), of ?s3] fr by simp
  have h4: "Helper_ODirSet ?s4 = Ret ?s5" using Helper_sets_names(3) [OF assms(1,3), of ?s4] fr by simp
  have "Copy_relative (?s1, fs) = Ret (?s5, fs)"
    by (simp only: Copy_relative_def prod.case h1 h2 h3 h4 obind.simps)
  moreover from find have "obind (Copy_find inp out (s, fs)) (\<lambda>w. Copy_relative (Copy_prefixes inp out w)) =
      Copy_relative (?s1, fs)"
    by (cases "Copy_find inp out (s, fs)") auto
  moreover have "scanned fs inp out ?s5"
    using id by (simp add: scanned_def idle_def unlocked_def)
  ultimately show ?thesis by (intro exI [of _ ?s5]) simp
qed

section \<open>The directories\<close>

lemma mkdirs_ok:
  assumes "denied fs = []"
    and "\<And>k. 0 < k \<Longrightarrow> k \<le> length cs \<Longrightarrow> node_at fs (cur @ take k cs) \<in> {None, Some Dir}"
  shows "\<exists>fs'. mkdirs fs cur cs = (None, fs') \<and> same_env fs fs' \<and>
    (\<forall>q. node_at fs' q = (if strict_prefix cur q \<and> prefix q (cur @ cs) then Some Dir else node_at fs q))"
  using assms
proof (induction cs arbitrary: fs cur)
  case Nil
  then show ?case by (auto simp: strict_prefix_def intro: prefix_order.antisym)
next
  case (Cons c cs)
  let ?q = "cur @ [c]"
  have q: "node_at fs ?q \<in> {None, Some Dir}" using Cons.prems(2) [of 1] by simp
  define fs1 where "fs1 = (if node_at fs ?q = None then set_node fs ?q Dir else fs)"
  have at1: "node_at fs1 p = (if p = ?q then Some Dir else node_at fs p)" for p
    using q by (auto simp: fs1_def)
  have env1: "same_env fs fs1" by (simp add: fs1_def)
  have "mkdirs fs cur (c # cs) = mkdirs fs1 ?q cs"
    using q Cons.prems(1) by (auto simp: fs1_def)
  moreover have "node_at fs1 (?q @ take k cs) \<in> {None, Some Dir}" if "0 < k" "k \<le> length cs" for k
    using Cons.prems(2) [of "Suc k"] that by (simp add: at1)
  then obtain fs' where "mkdirs fs1 ?q cs = (None, fs')" and env': "same_env fs1 fs'"
    and at': "\<And>p. node_at fs' p = (if strict_prefix ?q p \<and> prefix p (?q @ cs) then Some Dir else node_at fs1 p)"
    using Cons.IH [of fs1 ?q] env1 Cons.prems(1) by (auto simp: same_env_def)
  moreover have "strict_prefix cur p \<and> prefix p (cur @ c # cs) \<longleftrightarrow>
      p = ?q \<or> (strict_prefix ?q p \<and> prefix p (?q @ cs))" for p
    by (auto simp: strict_prefix_def prefix_append prefix_Cons elim!: prefixE)
  ultimately show ?case using same_env_trans [OF env1 env'] by (intro exI [of _ fs']) (auto simp: at1)
qed

text \<open>The directories that stand after the first \<open>ds\<close> of the input's directories were handled.\<close>

definition with_dirs :: "fs \<Rightarrow> path \<Rightarrow> path set \<Rightarrow> path \<Rightarrow> node option" where
  "with_dirs fs r ds q = (if \<exists>d \<in> ds. strict_prefix r q \<and> prefix q (r @ d) then Some Dir else node_at fs q)"

lemma prefixes_of_root:
  assumes "wf_fs fs" "good_root fs out" "prefix q (resolve fs out)"
  shows "node_at fs q = Some Dir"
  using wf_parent [OF assms(1), of "resolve fs out" q] assms(2,3)
  by (cases "q = resolve fs out") (auto simp: good_root_def strict_prefix_def)

lemma with_dirs_free:
  assumes wf: "wf_fs fs" and root: "good_root fs out"
    and free: "\<And>k. 0 < k \<Longrightarrow> k \<le> length d \<Longrightarrow> node_at fs (resolve fs out @ take k d) \<in> {None, Some Dir}"
    and k: "0 < k" "k \<le> length (resolve fs out @ d)"
  shows "with_dirs fs (resolve fs out) ds (take k (resolve fs out @ d)) \<in> {None, Some Dir}"
proof (cases "k \<le> length (resolve fs out)")
  case True
  then have "node_at fs (take k (resolve fs out)) = Some Dir"
    using prefixes_of_root [OF wf root] by (simp add: take_is_prefix)
  then show ?thesis using True by (auto simp: with_dirs_def)
next
  case False
  then have "node_at fs (resolve fs out @ take (k - length (resolve fs out)) d) \<in> {None, Some Dir}"
    using k by (intro free) auto
  then show ?thesis using False by (auto simp: with_dirs_def)
qed

lemma handle_dir_step:
  assumes wf: "wf_fs fs" and dn: "denied fs = []" and root: "good_root fs out"
    and env: "same_env fs fs1" and at1: "\<And>q. node_at fs1 q = with_dirs fs (resolve fs out) ds q"
    and val: "\<forall>n \<in> set d. valid_name (windows fs) n"
    and free: "\<And>k. 0 < k \<Longrightarrow> k \<le> length d \<Longrightarrow> node_at fs (resolve fs out @ take k d) \<in> {None, Some Dir}"
    and here: "rel_name fs d \<in> ODirSet s \<Longrightarrow> node_at fs (resolve fs out @ d) = Some Dir"
    and pre: "outputPrefix s = prefix_of fs out"
  shows "\<exists>fs2. handle_dir (rel_name fs d) (s, fs1) = (s\<lparr>ODirSet := ODirSet s - {rel_name fs d}\<rparr>, fs2) \<and>
    same_env fs fs2 \<and> (\<forall>q. node_at fs2 q = with_dirs fs (resolve fs out) (insert d ds) q)"
proof (cases "rel_name fs d \<in> ODirSet s")
  case True
  have "with_dirs fs (resolve fs out) (insert d ds) q = with_dirs fs (resolve fs out) ds q" for q
  proof -
    have "node_at fs q = Some Dir" if "prefix q (resolve fs out @ d)"
      using wf_parent [OF wf, of "resolve fs out @ d" q] here [OF True] that
      by (cases "q = resolve fs out @ d") (auto simp: strict_prefix_def)
    then show ?thesis by (auto simp: with_dirs_def)
  qed
  with True env at1 show ?thesis by (auto simp: handle_dir_def)
next
  case False
  let ?r = "resolve fs out"
  have res: "resolve fs1 (outputPrefix s @ rel_name fs d) = ?r @ d"
    using resolve_prefix_of [OF root val] env pre by (simp add: same_env_resolve [OF env])
  have "node_at fs1 ([] @ take k (?r @ d)) \<in> {None, Some Dir}" if "0 < k" "k \<le> length (?r @ d)" for k
    unfolding at1 using with_dirs_free [OF wf root free that] by simp
  then obtain fs2 where mk: "mkdirs fs1 [] (?r @ d) = (None, fs2)" and env2: "same_env fs1 fs2"
    and at2: "\<And>q. node_at fs2 q = (if strict_prefix [] q \<and> prefix q ([] @ ?r @ d) then Some Dir else node_at fs1 q)"
    using mkdirs_ok [of fs1 "?r @ d" "[]"] env dn by (auto simp: same_env_def)
  have "node_at fs2 q = with_dirs fs ?r (insert d ds) q" for q
  proof (cases "q \<noteq> [] \<and> prefix q (?r @ d)")
    case True
    then have "strict_prefix ?r q \<or> prefix q ?r" by (auto simp: prefix_append strict_prefix_def)
    then have "strict_prefix ?r q \<or> node_at fs q = Some Dir"
      using prefixes_of_root [OF wf root] by blast
    moreover have "strict_prefix [] q" using True by (auto simp: strict_prefix_def)
    ultimately show ?thesis using True by (auto simp: at2 at1 with_dirs_def)
  next
    case False
    show ?thesis
    proof (cases "q = []")
      case True
      then show ?thesis by (simp add: node_at_def with_dirs_def)
    qed (use False in \<open>auto simp: at2 at1 with_dirs_def\<close>)
  qed
  then show ?thesis using False mk same_env_trans [OF env env2]
    by (auto simp: handle_dir_def create_directories_ec_def res)
qed

text \<open>The pairs of trees \<open>Copy\<close> can merge: a name is a directory in both trees or in neither.\<close>

definition compatible :: "fs \<Rightarrow> string \<Rightarrow> string \<Rightarrow> bool" where
  "compatible fs inp out \<longleftrightarrow>
     list_all (\<lambda>(p, n). strict_prefix (resolve fs inp) p \<longrightarrow>
        (case node_at fs (resolve fs out @ drop (length (resolve fs inp)) p) of
           None \<Rightarrow> True | Some m \<Rightarrow> (m = Dir) = (n = Dir))) (nodes fs)"

definition sync_ready :: "fs \<Rightarrow> string \<Rightarrow> string \<Rightarrow> bool" where
  "sync_ready fs inp out \<longleftrightarrow>
     wf_fs fs \<and> denied fs = [] \<and> good_root fs inp \<and> good_root fs out \<and> compatible fs inp out \<and>
     short_names fs out inp \<and>
     \<not> prefix (resolve fs inp) (resolve fs out) \<and> \<not> prefix (resolve fs out) (resolve fs inp)"

lemma compatibleD:
  assumes "wf_fs fs" "compatible fs inp out" "node_at fs (resolve fs inp @ ns) = Some n" "ns \<noteq> []"
    "node_at fs (resolve fs out @ ns) = Some m"
  shows "(m = Dir) = (n = Dir)"
proof -
  have "(resolve fs inp @ ns, n) \<in> set (nodes fs)" using assms by (simp add: node_at_map_of)
  moreover have "strict_prefix (resolve fs inp) (resolve fs inp @ ns)" using assms(4) by (simp add: strict_prefix_def)
  ultimately show ?thesis using assms(2,5) by (force simp: compatible_def list_all_iff)
qed

lemma dir_names_iff:
  assumes "wf_fs fs" shows "d \<in> set (dir_names fs root) \<longleftrightarrow> d \<noteq> [] \<and> node_at fs (resolve fs root @ d) = Some Dir"
  using assms by (auto simp: dir_names_def set_names_below)

lemma file_names_iff:
  assumes "wf_fs fs"
  shows "d \<in> set (file_names fs root) \<longleftrightarrow> d \<noteq> [] \<and> (\<exists>t c. node_at fs (resolve fs root @ d) = Some (File t c))"
proof -
  have "(n = Dir) = False \<longleftrightarrow> (\<exists>t c. n = File t c)" for n by (cases n) auto
  with assms show ?thesis by (auto simp: file_names_def set_names_below)
qed

lemma names_valid:
  assumes "wf_fs fs" "ns \<in> set (dir_names fs root) \<union> set (file_names fs root)"
  shows "\<forall>n \<in> set ns. valid_name (windows fs) n"
  using assms names_below_valid by (auto simp: dir_names_def file_names_def)

lemma rel_name_inj:
  assumes "\<forall>n \<in> set a. valid_name (windows fs) n" "\<forall>n \<in> set b. valid_name (windows fs) n"
  shows "rel_name fs a = rel_name fs b \<longleftrightarrow> a = b"
  using assms by (simp add: rel_name_def join_inj)

lemma rel_name_mem:
  assumes "\<forall>n \<in> set a. valid_name (windows fs) n" "\<And>b. b \<in> B \<Longrightarrow> \<forall>n \<in> set b. valid_name (windows fs) n"
  shows "rel_name fs a \<in> rel_name fs ` B \<longleftrightarrow> a \<in> B"
  using assms rel_name_inj by blast

lemma dirs_free:
  assumes "sync_ready fs inp out" "d \<in> set (dir_names fs inp)" "0 < k" "k \<le> length d"
  shows "node_at fs (resolve fs out @ take k d) \<in> {None, Some Dir}"
proof -
  have wf: "wf_fs fs" and c: "compatible fs inp out" using assms(1) by (simp_all add: sync_ready_def)
  have d: "node_at fs (resolve fs inp @ d) = Some Dir" using assms(2) wf by (simp add: dir_names_iff)
  have "node_at fs (resolve fs inp @ take k d) = Some Dir"
  proof (cases "k = length d")
    case False
    then have "strict_prefix (resolve fs inp @ take k d) (resolve fs inp @ d)"
      using assms(4) by (auto simp: strict_prefix_def take_is_prefix)
    then show ?thesis using wf_parent [OF wf, of "resolve fs inp @ d"] d by simp
  qed (use d in simp)
  moreover have "take k d \<noteq> []" using assms(3,4) by auto
  ultimately show ?thesis
    using compatibleD [OF wf c, of "take k d" Dir] by (cases "node_at fs (resolve fs out @ take k d)") auto
qed

lemma list_of_images: "set l \<subseteq> f ` D \<Longrightarrow> \<exists>ds. l = map f ds \<and> set ds \<subseteq> D"
proof (induction l)
  case (Cons x l)
  then obtain ds d where "l = map f ds" "set ds \<subseteq> D" "x = f d" "d \<in> D" by auto
  then show ?case by (intro exI [of _ "d # ds"]) simp
qed simp

lemma fold_handle_dir:
  assumes ready: "sync_ready fs inp out" and "set ds \<subseteq> set (dir_names fs inp)"
    and "same_env fs fs1" "\<And>q. node_at fs1 q = with_dirs fs (resolve fs out) done q"
    and "outputPrefix s = prefix_of fs out" and "ODirSet s \<subseteq> rel_name fs ` set (dir_names fs out)"
  shows "\<exists>fs2. fold handle_dir (map (rel_name fs) ds) (s, fs1) =
      (s\<lparr>ODirSet := ODirSet s - rel_name fs ` set ds\<rparr>, fs2) \<and> same_env fs fs2 \<and>
      (\<forall>q. node_at fs2 q = with_dirs fs (resolve fs out) (set ds \<union> done) q)"
  using assms(2-)
proof (induction ds arbitrary: s fs1 "done")
  case (Cons d ds)
  have wf: "wf_fs fs" "denied fs = []" "good_root fs out" using ready by (simp_all add: sync_ready_def)
  have d: "d \<in> set (dir_names fs inp)" using Cons.prems(1) by simp
  have "\<exists>fs2. handle_dir (rel_name fs d) (s, fs1) = (s\<lparr>ODirSet := ODirSet s - {rel_name fs d}\<rparr>, fs2) \<and>
    same_env fs fs2 \<and> (\<forall>q. node_at fs2 q = with_dirs fs (resolve fs out) (insert d done) q)"
  proof (rule handle_dir_step [OF wf Cons.prems(2,3) _ dirs_free [OF ready d] _ Cons.prems(4)])
    show "\<forall>n \<in> set d. valid_name (windows fs) n" using names_valid [OF wf(1)] d by blast
    then show "rel_name fs d \<in> ODirSet s \<Longrightarrow> node_at fs (resolve fs out @ d) = Some Dir"
      using Cons.prems(5) rel_name_inj names_valid [OF wf(1)] dir_names_iff [OF wf(1)] by blast
  qed
  then obtain fs2 where h: "handle_dir (rel_name fs d) (s, fs1) = (s\<lparr>ODirSet := ODirSet s - {rel_name fs d}\<rparr>, fs2)"
    and e: "same_env fs fs2" and at: "\<And>q. node_at fs2 q = with_dirs fs (resolve fs out) (insert d done) q" by blast
  have "ODirSet s - {rel_name fs d} - rel_name fs ` set ds = ODirSet s - rel_name fs ` set (d # ds)" by auto
  with Cons.IH [of fs2 "insert d done" "s\<lparr>ODirSet := ODirSet s - {rel_name fs d}\<rparr>"] Cons.prems h e at
  show ?case by fastforce
qed simp

lemma with_all_dirs:
  assumes "wf_fs fs"
  shows "with_dirs fs r (set (dir_names fs inp)) q =
    (if \<exists>d \<in> set (dir_names fs inp). q = r @ d then Some Dir else node_at fs q)"
proof -
  have "(\<exists>d \<in> set (dir_names fs inp). strict_prefix r q \<and> prefix q (r @ d)) \<longleftrightarrow>
      (\<exists>d \<in> set (dir_names fs inp). q = r @ d)"
  proof
    assume "\<exists>d \<in> set (dir_names fs inp). strict_prefix r q \<and> prefix q (r @ d)"
    then obtain d where d: "d \<in> set (dir_names fs inp)" and q: "strict_prefix r q" "prefix q (r @ d)" by blast
    from q(1) obtain e where e: "q = r @ e" "e \<noteq> []" by (auto simp: strict_prefix_def elim!: prefixE)
    with q(2) have "prefix e d" by simp
    note e = e this
    have "e \<in> set (dir_names fs inp)"
    proof (cases "e = d")
      case False
      with e have "strict_prefix (resolve fs inp @ e) (resolve fs inp @ d)" by (simp add: strict_prefix_def)
      with d e(2) show ?thesis using wf_parent [OF assms, of "resolve fs inp @ d" "resolve fs inp @ e"]
        by (simp add: dir_names_iff [OF assms])
    qed (use d in simp)
    with e show "\<exists>d \<in> set (dir_names fs inp). q = r @ d" by blast
  next
    assume "\<exists>d \<in> set (dir_names fs inp). q = r @ d"
    then show "\<exists>d \<in> set (dir_names fs inp). strict_prefix r q \<and> prefix q (r @ d)"
      by (auto simp: dir_names_iff [OF assms] strict_prefix_def)
  qed
  then show ?thesis by (simp add: with_dirs_def)
qed

lemma dirs_phase:
  assumes ready: "sync_ready fs inp out" and it: "iterates iter" and sc: "scanned fs inp out t"
  shows "\<exists>fs3. Copy_dirs iter (t, fs) =
      (t\<lparr>ODirSet := rel_name fs ` set (dir_names fs out) - rel_name fs ` set (dir_names fs inp), IDirSet := {}\<rparr>, fs3) \<and>
    same_env fs fs3 \<and>
    (\<forall>q. node_at fs3 q = (if \<exists>d \<in> set (dir_names fs inp). q = resolve fs out @ d then Some Dir else node_at fs q))"
proof -
  have wf: "wf_fs fs" using ready by (simp add: sync_ready_def)
  let ?D = "set (dir_names fs inp)"
  have I: "IDirSet t = rel_name fs ` ?D" and O: "ODirSet t = rel_name fs ` set (dir_names fs out)"
    and pre: "outputPrefix t = prefix_of fs out" using sc by (simp_all add: scanned_def)
  have l: "set (iter (IDirSet t)) = rel_name fs ` ?D" using it I by (simp add: iterates_def)
  then obtain ds where ds: "iter (IDirSet t) = map (rel_name fs) ds" "set ds \<subseteq> ?D"
    using list_of_images [of "iter (IDirSet t)" "rel_name fs" ?D] by auto
  have "?D \<subseteq> set ds"
  proof
    fix d assume d: "d \<in> ?D"
    then obtain e where "e \<in> set ds" "rel_name fs d = rel_name fs e" using l ds(1) by auto
    then show "d \<in> set ds" using rel_name_inj names_valid [OF wf] d ds(2) by blast
  qed
  with ds(2) have D: "set ds = ?D" by simp
  obtain fs2 where f: "fold handle_dir (map (rel_name fs) ds) (t, fs) = (t\<lparr>ODirSet := ODirSet t - rel_name fs ` ?D\<rparr>, fs2)"
    and e: "same_env fs fs2" and at: "\<And>q. node_at fs2 q = with_dirs fs (resolve fs out) ?D q"
    using fold_handle_dir [OF ready ds(2) same_env_refl, of "{}" t] pre O D by (auto simp: with_dirs_def)
  then show ?thesis
    using ds(1) O by (auto simp: Copy_dirs_def with_all_dirs [OF wf])
qed

section \<open>The selection\<close>

text \<open>
  The rule for one file, on the nodes: it is copied unless the output has a file of that name that
  is newer (and \<open>-f\<close> is not set), or equally old and of the same size (and \<open>-o\<close> is not set).
\<close>

fun selected :: "bool \<Rightarrow> bool \<Rightarrow> node option \<Rightarrow> node option \<Rightarrow> bool" where
  "selected ow force (Some (File ti ci)) (Some (File to co)) \<longleftrightarrow>
     to < ti \<or> (ti < to \<and> force) \<or>
     (ti = to \<and> (ow \<or> (word_of_nat (length ci) :: 64 word) \<noteq> word_of_nat (length co)))"
| "selected ow force _ _ \<longleftrightarrow> True"

lemma ofold_settled: "m w = Ret v \<Longrightarrow> m v = Ret v \<Longrightarrow> xs \<noteq> [] \<Longrightarrow> ofold (\<lambda>_. m) xs w = Ret v"
proof (induction xs arbitrary: w)
  case (Cons x xs)
  then show ?case by (cases xs) auto
qed simp

definition after_dirs :: "fs \<Rightarrow> string \<Rightarrow> string \<Rightarrow> fs \<Rightarrow> bool" where
  "after_dirs fs inp out fs3 \<longleftrightarrow> same_env fs fs3 \<and>
    (\<forall>q. node_at fs3 q = (if \<exists>d \<in> set (dir_names fs inp). q = resolve fs out @ d then Some Dir else node_at fs q))"

lemma after_dirs_files:
  assumes ready: "sync_ready fs inp out" and ad: "after_dirs fs inp out fs3"
    and ns: "ns \<in> set (file_names fs inp)"
  shows "node_at fs3 (resolve fs inp @ ns) = node_at fs (resolve fs inp @ ns)"
    and "node_at fs3 (resolve fs out @ ns) = node_at fs (resolve fs out @ ns)"
    and "node_at fs3 (resolve fs out @ butlast ns) = Some Dir"
proof -
  let ?I = "resolve fs inp" and ?O = "resolve fs out"
  have wf: "wf_fs fs" and dis: "\<not> prefix ?I ?O" "\<not> prefix ?O ?I" using ready by (simp_all add: sync_ready_def)
  have "?I @ ns \<noteq> ?O @ d" for d
    using dis by (metis prefix_same_cases prefixI)
  then show "node_at fs3 (?I @ ns) = node_at fs (?I @ ns)" using ad by (simp add: after_dirs_def)
  have fl: "ns \<noteq> []" "\<exists>t c. node_at fs (?I @ ns) = Some (File t c)"
    using ns by (auto simp: file_names_iff [OF wf])
  then show "node_at fs3 (?O @ ns) = node_at fs (?O @ ns)"
    using ad by (auto simp: after_dirs_def dir_names_iff [OF wf])
  show "node_at fs3 (?O @ butlast ns) = Some Dir"
  proof (cases "butlast ns = []")
    case True
    have "node_at fs ?O = Some Dir" using ready by (simp add: sync_ready_def good_root_def)
    then show ?thesis using True ad by (auto simp: after_dirs_def dir_names_iff [OF wf])
  next
    case False
    have "strict_prefix (?I @ butlast ns) (?I @ butlast ns @ [last ns])" by (simp add: strict_prefix_def)
    then have "strict_prefix (?I @ butlast ns) (?I @ ns)" using fl(1) by simp
    then have "node_at fs (?I @ butlast ns) = Some Dir" using wf_parent [OF wf, of "?I @ ns"] fl(2) by auto
    then have "butlast ns \<in> set (dir_names fs inp)" using False by (simp add: dir_names_iff [OF wf])
    then show ?thesis using ad by (auto simp: after_dirs_def)
  qed
qed

lemma copy_wanted_selected:
  assumes ready: "sync_ready fs inp out" and ad: "after_dirs fs inp out fs3"
    and ns: "ns \<in> set (file_names fs inp)"
    and t: "inputPrefix t = prefix_of fs inp" "outputPrefix t = prefix_of fs out"
      "OFilesSet t = rel_name fs ` set (file_names fs out)"
  shows "copy_wanted t fs3 (rel_name fs ns) =
    Some (selected (overwrite_flag t) (force_flag t)
      (node_at fs (resolve fs inp @ ns)) (node_at fs (resolve fs out @ ns)))"
proof -
  let ?I = "resolve fs inp" and ?O = "resolve fs out"
  have wf: "wf_fs fs" and dn: "denied fs = []" and roots: "good_root fs inp" "good_root fs out"
    using ready by (simp_all add: sync_ready_def)
  have val: "\<forall>n \<in> set ns. valid_name (windows fs) n" using names_valid [OF wf] ns by blast
  have ne: "ns \<noteq> []" using ns by (simp add: file_names_iff [OF wf])
  have e: "same_env fs fs3" using ad by (simp add: after_dirs_def)
  then have env: "resolve fs3 = resolve fs" "denied fs3 = []"
    using dn by (simp_all add: same_env_resolve) (simp add: same_env_def)
  have res: "resolve fs3 (inputPrefix t @ rel_name fs ns) = ?I @ ns"
    "resolve fs3 (outputPrefix t @ rel_name fs ns) = ?O @ ns"
    using resolve_prefix_of [OF _ val] roots t(1,2) env by simp_all
  have rel: "rel_name fs ns \<noteq> []" using join_nonempty [OF val ne] by (simp add: rel_name_def)
  have mem: "rel_name fs ns \<in> OFilesSet t \<longleftrightarrow> (\<exists>to co. node_at fs (?O @ ns) = Some (File to co))"
  proof -
    have "rel_name fs ns \<in> OFilesSet t \<longleftrightarrow> ns \<in> set (file_names fs out)"
      unfolding t(3) using names_valid [OF wf] by (intro rel_name_mem [OF val]) blast
    then show ?thesis using ne by (simp add: file_names_iff [OF wf])
  qed
  obtain ti ci where I: "node_at fs (?I @ ns) = Some (File ti ci)" using ns by (auto simp: file_names_iff [OF wf])
  have I3: "node_at fs3 (?I @ ns) = Some (File ti ci)" and O3: "node_at fs3 (?O @ ns) = node_at fs (?O @ ns)"
    using after_dirs_files [OF ready ad ns] I by simp_all
  have nd: "node_at fs (?O @ ns) \<noteq> Some Dir"
    using compatibleD [OF wf _ I ne] ready by (auto simp: sync_ready_def)
  show ?thesis
  proof (cases "rel_name fs ns \<in> OFilesSet t")
    case True
    then obtain to co where Out: "node_at fs (?O @ ns) = Some (File to co)" using mem by blast
    have "last_write_time_ec fs3 (inputPrefix t @ rel_name fs ns) = ti"
      "last_write_time_ec fs3 (outputPrefix t @ rel_name fs ns) = to"
      "file_size fs3 (inputPrefix t @ rel_name fs ns) = Ret (word_of_nat (length ci))"
      "file_size fs3 (outputPrefix t @ rel_name fs ns) = Ret (word_of_nat (length co))"
      by (simp_all add: last_write_time_ec_def res Let_def file_size_def size_at_def I3 O3 Out env(2))
    then show ?thesis using True rel I Out by (auto simp: copy_wanted_def)
  next
    case False
    then have "node_at fs (?O @ ns) = None" using mem nd by (cases "node_at fs (?O @ ns)") (auto, metis node.exhaust)
    then show ?thesis using False I by (simp add: copy_wanted_def)
  qed
qed

section \<open>The sorters\<close>

text \<open>What a sorter leaves alone.\<close>

definition kept_by_sorter :: "sync_state \<Rightarrow> sync_state \<Rightarrow> bool" where
  "kept_by_sorter s t \<longleftrightarrow>
     inputPrefix t = inputPrefix s \<and> outputPrefix t = outputPrefix s \<and> move_flag t = move_flag s \<and>
     force_flag t = force_flag s \<and> overwrite_flag t = overwrite_flag s \<and> ODirSet t = ODirSet s \<and>
     deleteQueue t = deleteQueue s \<and> errors t = errors s \<and> filesCopied t = filesCopied s \<and>
     cdeleted t = cdeleted s \<and>
     filesToCopy t - word_of_nat (length (payload (copyQueue t))) =
       filesToCopy s - word_of_nat (length (payload (copyQueue s)))"

lemma kept_by_sort_step: "kept_by_sorter (fst w) (fst (sort_step file w))"
  by (cases w) (auto simp: kept_by_sorter_def sort_step_def Let_def drop_ifile_def matched_def queued_def
      split: option.split)

lemma kept_by_sorts: "kept_by_sorter (fst w) (fst (fold sort_step files w))"
proof (induction files arbitrary: w)
  case (Cons f files)
  show ?case
    using kept_by_sort_step [of w f] Cons.IH [of "sort_step f w"] unfolding fold_simps kept_by_sorter_def
    by simp
qed (simp add: kept_by_sorter_def)

lemma Copy_sorters_result:
  assumes "unlocked (fst w)"
  shows "Copy_sorters w = Ret (fold sort_step (payload (IFilesSet (fst w))) w)"
  unfolding Copy_sorters_def
proof (rule ofold_settled)
  let ?v = "fold sort_step (payload (IFilesSet (fst w))) w"
  show "Helper_SortFiles w = Ret ?v" using sorter.loop_result assms by (simp add: Helper_SortFiles_def)
  show "Helper_SortFiles ?v = Ret ?v"
    using sorter.loop_result [of ?v] sorter.loop_done [of w] assms by (simp add: Helper_SortFiles_def)
qed simp

definition to_copy :: "fs \<Rightarrow> string \<Rightarrow> string \<Rightarrow> bool \<Rightarrow> bool \<Rightarrow> path list" where
  "to_copy fs inp out ow force =
     filter (\<lambda>ns. selected ow force (node_at fs (resolve fs inp @ ns)) (node_at fs (resolve fs out @ ns)))
       (file_names fs inp)"

lemma sort_phase:
  assumes ready: "sync_ready fs inp out" and ad: "after_dirs fs inp out fs3"
    and t: "idle t" "payload (IFilesSet t) = map (rel_name fs) (file_names fs inp)"
      "inputPrefix t = prefix_of fs inp" "outputPrefix t = prefix_of fs out"
      "OFilesSet t = rel_name fs ` set (file_names fs out)"
  shows "\<exists>u. Copy_sorters (t, fs3) = Ret (u, fs3) \<and> unlocked u \<and> kept_by_sorter t u \<and>
    payload (copyQueue u) = map (rel_name fs) (to_copy fs inp out (overwrite_flag t) (force_flag t)) \<and>
    OFilesSet u = rel_name fs ` (set (file_names fs out) - set (file_names fs inp))"
proof -
  let ?names = "file_names fs inp" and ?W = "fold sort_step (payload (IFilesSet t)) (t, fs3)"
  have wf: "wf_fs fs" using ready by (simp add: sync_ready_def)
  have un: "unlocked t" and q0: "payload (copyQueue t) = []" using t(1) by (simp_all add: idle_def)
  have wanted: "copy_wanted t fs3 (rel_name fs ns) = Some (selected (overwrite_flag t) (force_flag t)
      (node_at fs (resolve fs inp @ ns)) (node_at fs (resolve fs out @ ns)))" if "ns \<in> set ?names" for ns
    using copy_wanted_selected [OF ready ad that t(3-5)] .
  have val: "\<forall>n \<in> set ns. valid_name (windows fs) n" if "ns \<in> set (file_names fs r)" for ns r
    using names_valid [OF wf] that by blast
  have "inj_on (rel_name fs) (set ?names)" using rel_name_inj val by (intro inj_onI) blast
  then have dist: "distinct (map (rel_name fs) ?names)"
    using distinct_names_below [OF wf] by (simp add: distinct_map file_names_def)
  have queue: "filter (\<lambda>f. copy_wanted t fs3 f = Some True) (map (rel_name fs) ?names) =
      map (rel_name fs) (to_copy fs inp out (overwrite_flag t) (force_flag t))"
    unfolding to_copy_def filter_map o_def using wanted by (intro arg_cong [of _ _ "map _"] filter_cong) auto
  have ne: "rel_name fs ns \<noteq> []" if "ns \<in> set ?names" for ns
    using join_nonempty [OF val [OF that]] that by (auto simp: rel_name_def file_names_iff [OF wf])
  have "{f \<in> set (map (rel_name fs) ?names). f \<noteq> [] \<and> copy_wanted t fs3 f \<noteq> None} = rel_name fs ` set ?names"
    using wanted ne by auto
  moreover have "rel_name fs ` set (file_names fs out) - rel_name fs ` set ?names =
      rel_name fs ` (set (file_names fs out) - set ?names)"
    using rel_name_inj val by blast
  ultimately have W: "snd ?W = fs3" "payload (copyQueue (fst ?W)) = map (rel_name fs) (to_copy fs inp out (overwrite_flag t) (force_flag t))"
    "OFilesSet (fst ?W) = rel_name fs ` (set (file_names fs out) - set ?names)"
    using fold_sort_steps [OF dist, of t fs3] queue q0 unfolding t(2) t(5) by simp_all
  moreover have "Copy_sorters (t, fs3) = Ret ?W" using Copy_sorters_result [of "(t, fs3)"] un by simp
  moreover have "unlocked (fst ?W)" using sorter.loop_done(1) [of "(t, fs3)"] un by simp
  ultimately show ?thesis using kept_by_sorts [of "(t, fs3)" "payload (IFilesSet t)"]
    by (intro exI [of _ "fst ?W"]) (metis fst_conv prod.collapse)
qed

section \<open>The transfers\<close>

fun placed :: "bool \<Rightarrow> file_time \<Rightarrow> node \<Rightarrow> node" where
  "placed keep now (File t c) = File (if keep then t else now) c"
| "placed keep now Dir = Dir"

text \<open>The nodes after the files \<open>ds\<close> were transferred, from a file system \<open>fs3\<close>.\<close>

definition after_copies :: "fs \<Rightarrow> path \<Rightarrow> path \<Rightarrow> bool \<Rightarrow> path set \<Rightarrow> fs \<Rightarrow> bool" where
  "after_copies fs3 ri ro move ds fs' \<longleftrightarrow> same_env fs3 fs' \<and>
    (\<forall>q. node_at fs' q =
      (if strict_prefix ro q \<and> drop (length ro) q \<in> ds
       then map_option (placed (move \<or> windows fs3) (clock fs3)) (node_at fs3 (ri @ drop (length ro) q))
       else if move \<and> strict_prefix ri q \<and> drop (length ri) q \<in> ds then None
       else node_at fs3 q))"

lemma after_copiesD:
  assumes "after_copies fs3 ri ro move ds fs'" "\<not> prefix ri ro" "\<not> prefix ro ri" "[] \<notin> ds"
  shows "node_at fs' (ro @ ns) =
      (if ns \<in> ds then map_option (placed (move \<or> windows fs3) (clock fs3)) (node_at fs3 (ri @ ns)) else node_at fs3 (ro @ ns))"
    and "ns \<notin> ds \<Longrightarrow> node_at fs' (ri @ ns) = node_at fs3 (ri @ ns)"
proof -
  have no: "\<not> prefix ro (ri @ ns)" "\<not> prefix ri (ro @ ns)"
    using assms(2,3) by (metis prefix_same_cases prefixI)+
  then have st: "\<not> strict_prefix ro (ri @ ns)" "\<not> strict_prefix ri (ro @ ns)"
    by (simp_all add: strict_prefix_def)
  have at: "node_at fs' q =
      (if strict_prefix ro q \<and> drop (length ro) q \<in> ds
       then map_option (placed (move \<or> windows fs3) (clock fs3)) (node_at fs3 (ri @ drop (length ro) q))
       else if move \<and> strict_prefix ri q \<and> drop (length ri) q \<in> ds then None
       else node_at fs3 q)" for q using assms(1) by (simp add: after_copies_def)
  have "strict_prefix ro (ro @ ns) \<longleftrightarrow> ns \<noteq> []" by (auto simp: strict_prefix_def)
  then show "node_at fs' (ro @ ns) =
      (if ns \<in> ds then map_option (placed (move \<or> windows fs3) (clock fs3)) (node_at fs3 (ri @ ns)) else node_at fs3 (ro @ ns))"
    using at [of "ro @ ns"] st assms(4) by (cases "ns = []") simp_all
  show "ns \<notin> ds \<Longrightarrow> node_at fs' (ri @ ns) = node_at fs3 (ri @ ns)"
    using at [of "ri @ ns"] st by simp
qed

lemma after_copies_insert:
  assumes ac: "after_copies fs3 ri ro move ds fs'" and dis: "\<not> prefix ri ro" "\<not> prefix ro ri"
    and ns: "ns \<notin> ds" "ns \<noteq> []" and src: "node_at fs3 (ri @ ns) = Some (File ti ci)" and env: "same_env fs3 fs''"
    and at: "\<And>q. node_at fs'' q = (if q = ro @ ns then Some (placed (move \<or> windows fs3) (clock fs3) (File ti ci))
        else if move \<and> q = ri @ ns then None else node_at fs' q)"
  shows "after_copies fs3 ri ro move (insert ns ds) fs''"
proof -
  have "node_at fs'' q =
      (if strict_prefix ro q \<and> drop (length ro) q \<in> insert ns ds
       then map_option (placed (move \<or> windows fs3) (clock fs3)) (node_at fs3 (ri @ drop (length ro) q))
       else if move \<and> strict_prefix ri q \<and> drop (length ri) q \<in> insert ns ds then None
       else node_at fs3 q)" for q
  proof -
    have eq: "strict_prefix r q \<and> drop (length r) q = ns \<longleftrightarrow> q = r @ ns" for r
      using ns(2) by (auto simp: strict_prefix_def elim!: prefixE)
    have no: "\<not> strict_prefix ro (ri @ ns)"
      using dis by (metis prefix_same_cases prefixI prefix_order.less_imp_le)
    have old: "node_at fs' q =
      (if strict_prefix ro q \<and> drop (length ro) q \<in> ds
       then map_option (placed (move \<or> windows fs3) (clock fs3)) (node_at fs3 (ri @ drop (length ro) q))
       else if move \<and> strict_prefix ri q \<and> drop (length ri) q \<in> ds then None
       else node_at fs3 q)" using ac by (simp add: after_copies_def)
    consider (out) "q = ro @ ns" | (src) "q = ri @ ns" "q \<noteq> ro @ ns" | (other) "q \<noteq> ro @ ns" "q \<noteq> ri @ ns" by blast
    then show ?thesis
    proof cases
      case out
      then show ?thesis using at src ns(2) by (simp add: strict_prefix_def)
    next
      case src
      then show ?thesis using at old no ns by (auto simp: strict_prefix_def)
    next
      case other
      then show ?thesis using at old eq [of ro] eq [of ri] by auto
    qed
  qed
  then show ?thesis using env by (auto simp: after_copies_def)
qed

lemma transfer_step:
  assumes ac: "after_copies fs3 ri ro move ds fs'" and dis: "\<not> prefix ri ro" "\<not> prefix ro ri"
    and ns: "ns \<notin> ds" "ns \<noteq> []" "[] \<notin> ds" and dn: "denied fs3 = []"
    and src: "node_at fs3 (ri @ ns) = Some (File ti ci)"
    and dst: "node_at fs3 (ro @ ns) \<noteq> Some Dir" and par: "node_at fs3 (ro @ butlast ns) = Some Dir"
    and parents: "butlast ns \<notin> ds"
    and res: "resolve fs' (inputPrefix s @ f) = ri @ ns" "resolve fs' (outputPrefix s @ f) = ro @ ns"
    and mv: "move_flag s = move"
  shows "\<exists>fs''. transfer s fs' f = Inr fs'' \<and> after_copies fs3 ri ro move (insert ns ds) fs''"
proof -
  have neq: "ri @ ns \<noteq> ro @ ns" using dis by (metis prefix_same_cases prefixI)
  have s': "node_at fs' (ri @ ns) = Some (File ti ci)" "node_at fs' (ro @ ns) \<noteq> Some Dir"
    "node_at fs' (butlast (ro @ ns)) = Some Dir"
    using after_copiesD [OF ac dis ns(3)] ns parents src dst par by (simp_all add: butlast_append)
  have env: "same_env fs3 fs'" using ac by (simp add: after_copies_def)
  then have env': "denied fs' = []" "windows fs' = windows fs3" "clock fs' = clock fs3"
    using dn by (simp_all add: same_env_def)
  define base where "base = (if move then del_node fs' (ri @ ns) else fs')"
  define fs'' where "fs'' = set_node base (ro @ ns) (placed (move \<or> windows fs3) (clock fs3) (File ti ci))"
  have "transfer s fs' f = Inr fs''"
    using s' neq env' mv by (simp add: transfer_def res Let_def rename_at_def copy_file_at_def fs''_def base_def)
  moreover have "same_env fs3 base" using env same_env_trans by (auto simp: base_def)
  then have "same_env fs3 fs''" using same_env_trans ns(2) by (auto simp: fs''_def)
  then have "after_copies fs3 ri ro move (insert ns ds) fs''"
    using ns(2) by (intro after_copies_insert [OF ac dis ns(1,2) src]) (simp_all add: fs''_def base_def)
  ultimately show ?thesis by blast
qed

text \<open>What a worker leaves alone when every operation succeeds, after \<open>n\<close> transfers.\<close>

definition kept_by_worker :: "nat \<Rightarrow> sync_state \<Rightarrow> sync_state \<Rightarrow> bool" where
  "kept_by_worker n s t \<longleftrightarrow>
     inputPrefix t = inputPrefix s \<and> outputPrefix t = outputPrefix s \<and> move_flag t = move_flag s \<and>
     ODirSet t = ODirSet s \<and> errors t = errors s \<and> filesToCopy t = filesToCopy s \<and>
     filesCopied t = filesCopied s + word_of_nat n"

lemma kept_by_worker_trans: "kept_by_worker m s t \<Longrightarrow> kept_by_worker n t u \<Longrightarrow> kept_by_worker (m + n) s u"
  by (simp add: kept_by_worker_def)

definition wanted_files :: "fs \<Rightarrow> string \<Rightarrow> string \<Rightarrow> bool \<Rightarrow> bool \<Rightarrow> path set" where
  "wanted_files fs inp out ow force = set (to_copy fs inp out ow force)"

lemma copy_item:
  assumes ready: "sync_ready fs inp out" and ad: "after_dirs fs inp out fs3"
    and ac: "after_copies fs3 (resolve fs inp) (resolve fs out) (move_flag u) ds fs1"
    and ds: "ds \<subseteq> set (file_names fs inp)" and ns: "ns \<in> set (file_names fs inp)" "ns \<notin> ds"
    and pre: "inputPrefix u = prefix_of fs inp" "outputPrefix u = prefix_of fs out"
  shows "\<exists>v fs2. work_copy (Some (rel_name fs ns)) (u, fs1) = (v, fs2) \<and> kept_by_worker 1 u v \<and>
    after_copies fs3 (resolve fs inp) (resolve fs out) (move_flag u) (insert ns ds) fs2"
proof -
  let ?ri = "resolve fs inp" and ?ro = "resolve fs out"
  have wf: "wf_fs fs" and dn: "denied fs = []" and roots: "good_root fs inp" "good_root fs out"
    and dis: "\<not> prefix ?ri ?ro" "\<not> prefix ?ro ?ri" and comp: "compatible fs inp out"
    using ready by (simp_all add: sync_ready_def)
  have val: "\<forall>n \<in> set ns. valid_name (windows fs) n" using names_valid [OF wf] ns by blast
  obtain ti ci where f: "node_at fs (?ri @ ns) = Some (File ti ci)" and ne: "ns \<noteq> []"
    using ns(1) by (auto simp: file_names_iff [OF wf])
  note ad3 = after_dirs_files [OF ready ad ns(1)]
  have env: "same_env fs fs3" "same_env fs3 fs1" using ad ac by (simp_all add: after_dirs_def after_copies_def)
  then have e1: "same_env fs fs1" by (rule same_env_trans)
  have dir: "node_at fs (?ri @ butlast ns) = Some Dir"
  proof -
    have "strict_prefix (?ri @ butlast ns) (?ri @ butlast ns @ [last ns])" by (simp add: strict_prefix_def)
    then show ?thesis using wf_parent [OF wf, of "?ri @ ns"] f ne by simp
  qed
  have "\<exists>fs2. transfer (drop_copy u) fs1 (rel_name fs ns) = Inr fs2 \<and>
      after_copies fs3 ?ri ?ro (move_flag u) (insert ns ds) fs2"
  proof (rule transfer_step [OF ac dis ns(2) ne])
    show "[] \<notin> ds" "butlast ns \<notin> ds" using ds dir by (auto simp: file_names_iff [OF wf])
    show "denied fs3 = []" using env(1) dn by (simp add: same_env_def)
    show "node_at fs3 (?ri @ ns) = Some (File ti ci)" "node_at fs3 (?ro @ butlast ns) = Some Dir"
      using ad3 f by simp_all
    show "node_at fs3 (?ro @ ns) \<noteq> Some Dir"
      using compatibleD [OF wf comp f ne] ad3 by auto
    show "resolve fs1 (inputPrefix (drop_copy u) @ rel_name fs ns) = ?ri @ ns"
      "resolve fs1 (outputPrefix (drop_copy u) @ rel_name fs ns) = ?ro @ ns"
      using resolve_prefix_of [OF _ val] roots pre same_env_resolve [OF e1] by (simp_all add: drop_copy_def)
  qed (simp add: drop_copy_def)
  then show ?thesis by (auto simp: work_copy_def copied_def kept_by_worker_def drop_copy_def)
qed

lemma delete_item:
  assumes "node_at fs1 (resolve fs1 (outputPrefix u @ g)) = None"
  shows "\<exists>v. work_delete (Some g) (u, fs1) = (v, fs1) \<and> kept_by_worker 0 u v"
  using assms by (simp add: work_delete_def deleted_def remove_at_def kept_by_worker_def drop_delete_def)

definition copies_of :: "('a option \<times> 'b option) list \<Rightarrow> 'a list" where
  "copies_of items = List.map_filter fst items"

lemma copies_side_by_side: "copies_of (side_by_side cs ds) = cs"
  by (induction cs ds rule: side_by_side.induct) (auto simp: copies_of_def map_filter_simps)

lemma deletes_side_by_side: "(co, Some d) \<in> set (side_by_side cs ds) \<Longrightarrow> d \<in> set ds"
  by (induction cs ds rule: side_by_side.induct) auto

lemma copy_items_step:
  assumes ready: "sync_ready fs inp out" and ad: "after_dirs fs inp out fs3"
    and ac: "after_copies fs3 (resolve fs inp) (resolve fs out) (move_flag u) ds fs1"
    and names: "copies_of ((co, d) # items) = map (rel_name fs) names" "distinct names" "set names \<inter> ds = {}"
      "set names \<union> ds \<subseteq> set (file_names fs inp)"
    and pre: "inputPrefix u = prefix_of fs inp" "outputPrefix u = prefix_of fs out"
  shows "\<exists>v1 fs2 k names' ds'. work_copy co (u, fs1) = (v1, fs2) \<and> kept_by_worker k u v1 \<and>
      after_copies fs3 (resolve fs inp) (resolve fs out) (move_flag u) ds' fs2 \<and>
      copies_of items = map (rel_name fs) names' \<and> distinct names' \<and> set names' \<inter> ds' = {} \<and>
      set names' \<union> ds' = set names \<union> ds \<and> length names = k + length names'"
proof (cases co)
  case None
  with ac names show ?thesis
    by (intro exI [of _ u] exI [of _ fs1] exI [of _ 0] exI [of _ names] exI [of _ ds])
      (simp add: work_copy_def kept_by_worker_def copies_of_def map_filter_simps)
next
  case (Some f)
  with names(1) obtain ns names' where n: "names = ns # names'" "f = rel_name fs ns"
    "copies_of items = map (rel_name fs) names'"
    by (auto simp: copies_of_def map_filter_simps)
  obtain v1 fs2 where "work_copy (Some (rel_name fs ns)) (u, fs1) = (v1, fs2)" "kept_by_worker 1 u v1"
    "after_copies fs3 (resolve fs inp) (resolve fs out) (move_flag u) (insert ns ds) fs2"
    using copy_item [OF ready ad ac _ _ _ pre, of ns] names n by auto
  with Some n names show ?thesis
    by (intro exI [of _ v1] exI [of _ fs2] exI [of _ 1] exI [of _ names'] exI [of _ "insert ns ds"]) auto
qed

lemma transfers:
  assumes ready: "sync_ready fs inp out" and ad: "after_dirs fs inp out fs3"
    and "after_copies fs3 (resolve fs inp) (resolve fs out) (move_flag u) ds fs1"
    and "copies_of items = map (rel_name fs) names" "distinct names" "set names \<inter> ds = {}"
    and "set names \<union> ds \<subseteq> set (file_names fs inp)"
    and "inputPrefix u = prefix_of fs inp" "outputPrefix u = prefix_of fs out"
    and gone: "\<And>co g A fs'. (co, Some g) \<in> set items \<Longrightarrow> A \<subseteq> set (file_names fs inp) \<Longrightarrow>
      after_copies fs3 (resolve fs inp) (resolve fs out) (move_flag u) A fs' \<Longrightarrow>
      node_at fs' (resolve fs' (prefix_of fs out @ g)) = None"
  shows "\<exists>v fs2. fold work_step items (u, fs1) = (v, fs2) \<and> kept_by_worker (length names) u v \<and>
    after_copies fs3 (resolve fs inp) (resolve fs out) (move_flag u) (set names \<union> ds) fs2"
  using assms(3-)
proof (induction items arbitrary: u fs1 ds names)
  case Nil
  then show ?case by (simp add: copies_of_def map_filter_simps kept_by_worker_def)
next
  case (Cons item items)
  obtain co d where item: "item = (co, d)" by (cases item)
  obtain v1 fs2 k names' ds' where c: "work_copy co (u, fs1) = (v1, fs2)" "kept_by_worker k u v1"
      "after_copies fs3 (resolve fs inp) (resolve fs out) (move_flag u) ds' fs2"
      "copies_of items = map (rel_name fs) names'" "distinct names'" "set names' \<inter> ds' = {}"
      "set names' \<union> ds' = set names \<union> ds" "length names = k + length names'"
    using copy_items_step [OF ready ad Cons.prems(1) Cons.prems(2) [unfolded item] Cons.prems(3-7)] by blast
  have "\<exists>v2. work_delete d (v1, fs2) = (v2, fs2) \<and> kept_by_worker 0 v1 v2"
  proof (cases d)
    case None
    then show ?thesis by (simp add: work_delete_def kept_by_worker_def)
  next
    case (Some g)
    have "ds' \<subseteq> set (file_names fs inp)" using c(7) Cons.prems(5) by blast
    then have "node_at fs2 (resolve fs2 (prefix_of fs out @ g)) = None"
      using Cons.prems(8) [of co g ds' fs2] c(3) item Some by simp
    then show ?thesis using Some delete_item [of fs2 v1 g] c(2) Cons.prems(7) by (simp add: kept_by_worker_def)
  qed
  then obtain v2 where d: "work_delete d (v1, fs2) = (v2, fs2)" "kept_by_worker 0 v1 v2" by blast
  have k: "kept_by_worker k u v2" using kept_by_worker_trans [OF c(2) d(2)] by simp
  then have f: "move_flag v2 = move_flag u" "inputPrefix v2 = prefix_of fs inp" "outputPrefix v2 = prefix_of fs out"
    using Cons.prems(6,7) by (simp_all add: kept_by_worker_def)
  have gone: "node_at fs' (resolve fs' (prefix_of fs out @ g)) = None"
    if "(co, Some g) \<in> set items" "A \<subseteq> set (file_names fs inp)"
      "after_copies fs3 (resolve fs inp) (resolve fs out) (move_flag v2) A fs'" for co g A fs'
    using Cons.prems(8) [of co g A fs'] that f(1) by simp
  have "\<exists>v fs'. fold work_step items (v2, fs2) = (v, fs') \<and> kept_by_worker (length names') v2 v \<and>
    after_copies fs3 (resolve fs inp) (resolve fs out) (move_flag v2) (set names' \<union> ds') fs'"
    using c f Cons.prems(5) by (intro Cons.IH gone) simp_all
  moreover have "work_step item (u, fs1) = (v2, fs2)" using item c(1) d(1) by (simp add: work_step_def)
  ultimately show ?case using c(7,8) f(1) k by (auto dest: kept_by_worker_trans [OF k])
qed

section \<open>The specification\<close>

text \<open>
  The node at every path after a run. Below the output root: an input directory is a directory, a
  wanted input file is there with its content (and its time where the transfer keeps it), and
  everything else is as it was. A moved file is gone from the input.
\<close>

fun is_file :: "node option \<Rightarrow> bool" where
  "is_file (Some (File t c)) = True"
| "is_file _ = False"

definition synced :: "fs \<Rightarrow> string \<Rightarrow> string \<Rightarrow> bool \<Rightarrow> bool \<Rightarrow> bool \<Rightarrow> path \<Rightarrow> node option" where
  "synced fs inp out ow force move q =
     (let ri = resolve fs inp; ro = resolve fs out;
          wanted = (\<lambda>ns. selected ow force (node_at fs (ri @ ns)) (node_at fs (ro @ ns)))
      in if strict_prefix ro q then
           (let ns = drop (length ro) q
            in case node_at fs (ri @ ns) of
                 Some Dir \<Rightarrow> Some Dir
               | Some (File t c) \<Rightarrow>
                   if wanted ns then Some (File (if move \<or> windows fs then t else clock fs) c) else node_at fs q
               | None \<Rightarrow> node_at fs q)
         else if move \<and> strict_prefix ri q \<and> is_file (node_at fs q) \<and> wanted (drop (length ri) q) then None
         else node_at fs q)"

lemma is_file_iff: "is_file n \<longleftrightarrow> (\<exists>t c. n = Some (File t c))"
  by (cases n rule: is_file.cases) auto

lemma in_wanted:
  assumes "wf_fs fs"
  shows "ns \<in> wanted_files fs inp out ow force \<longleftrightarrow> ns \<noteq> [] \<and> is_file (node_at fs (resolve fs inp @ ns)) \<and>
      selected ow force (node_at fs (resolve fs inp @ ns)) (node_at fs (resolve fs out @ ns))"
  by (auto simp: wanted_files_def to_copy_def file_names_iff [OF assms] is_file_iff)

lemma synced_below_out:
  assumes ready: "sync_ready fs inp out" and ad: "after_dirs fs inp out fs3"
    and ac: "after_copies fs3 (resolve fs inp) (resolve fs out) move (wanted_files fs inp out ow force) fs'"
    and ns: "ns \<noteq> []"
  shows "node_at fs' (resolve fs out @ ns) = synced fs inp out ow force move (resolve fs out @ ns)"
proof -
  let ?ri = "resolve fs inp" and ?ro = "resolve fs out" and ?w = "wanted_files fs inp out ow force"
  have wf: "wf_fs fs" and dis: "\<not> prefix ?ri ?ro" "\<not> prefix ?ro ?ri" using ready by (simp_all add: sync_ready_def)
  have env: "windows fs3 = windows fs" "clock fs3 = clock fs" using ad by (simp_all add: after_dirs_def same_env_def)
  have at3: "node_at fs3 (?ro @ ns) = (if ns \<in> set (dir_names fs inp) then Some Dir else node_at fs (?ro @ ns))"
    using ad by (simp add: after_dirs_def)
  note W = in_wanted [OF wf, of ns inp out ow force]
  have "[] \<notin> ?w" by (simp add: in_wanted [OF wf])
  from after_copiesD(1) [OF ac dis this]
  have v: "node_at fs' (?ro @ ns) = (if ns \<in> ?w
      then map_option (placed (move \<or> windows fs) (clock fs)) (node_at fs3 (?ri @ ns)) else node_at fs3 (?ro @ ns))"
    using env by simp
  have below: "strict_prefix ?ro (?ro @ ns)" using ns by (simp add: strict_prefix_def)
  show ?thesis
  proof (cases "node_at fs (?ri @ ns)")
    case None
    then show ?thesis using v at3 below by (auto simp: W synced_def Let_def dir_names_iff [OF wf])
  next
    case (Some n)
    show ?thesis
    proof (cases n)
      case Dir
      then show ?thesis using v at3 below ns Some by (simp add: W synced_def Let_def dir_names_iff [OF wf])
    next
      case (File t c)
      then have "ns \<in> set (file_names fs inp)" using Some ns by (simp add: file_names_iff [OF wf])
      then show ?thesis using v after_dirs_files [OF ready ad, of ns] below ns Some File
        by (simp add: W synced_def Let_def)
    qed
  qed
qed

lemma synced_result:
  assumes ready: "sync_ready fs inp out" and ad: "after_dirs fs inp out fs3"
    and ac: "after_copies fs3 (resolve fs inp) (resolve fs out) move (wanted_files fs inp out ow force) fs'"
  shows "node_at fs' q = synced fs inp out ow force move q"
proof -
  let ?ri = "resolve fs inp" and ?ro = "resolve fs out" and ?w = "wanted_files fs inp out ow force"
  have wf: "wf_fs fs" using ready by (simp add: sync_ready_def)
  show ?thesis
  proof (cases "strict_prefix ?ro q")
    case True
    then obtain ns where "q = ?ro @ ns" "ns \<noteq> []" by (auto simp: strict_prefix_def elim!: prefixE)
    then show ?thesis using synced_below_out [OF ready ad ac] by simp
  next
    case False
    then have "node_at fs' q = (if move \<and> strict_prefix ?ri q \<and> drop (length ?ri) q \<in> ?w then None else node_at fs3 q)"
      using ac by (simp add: after_copies_def)
    moreover have "node_at fs3 q = node_at fs q"
      using False ad by (auto simp: after_dirs_def strict_prefix_def dir_names_iff [OF wf])
    moreover have "drop (length ?ri) q \<in> ?w \<longleftrightarrow> is_file (node_at fs q) \<and>
        selected ow force (node_at fs q) (node_at fs (?ro @ drop (length ?ri) q))" if "strict_prefix ?ri q"
      using that by (auto simp: in_wanted [OF wf] strict_prefix_def elim!: prefixE)
    moreover have "?ri @ drop (length ?ri) q = q" if "strict_prefix ?ri q"
      using that by (auto simp: strict_prefix_def elim!: prefixE)
    ultimately show ?thesis using False by (cases "strict_prefix ?ri q") (auto simp: synced_def Let_def)
  qed
qed

section \<open>Deletion\<close>

lemma Copy_queue_deletes_result:
  assumes "\<not> flag (deleteQueue s)"
  shows "Copy_queue_deletes iter s =
    Ret (s\<lparr>deleteQueue := (deleteQueue s)\<lparr>payload := payload (deleteQueue s) @ map ((@) (outputPrefix s)) (iter (OFilesSet s))\<rparr>,
           cdeleted := cdeleted s + word_of_nat (length (iter (OFilesSet s)))\<rparr>)"
proof -
  let ?f = "\<lambda>file s. case dq_push_back (outputPrefix s @ file) (deleteQueue s) of
           (r, q) \<Rightarrow> obind r (\<lambda>_. Ret (s\<lparr>deleteQueue := q, cdeleted := cdeleted s + 1\<rparr>))"
  have "ofold ?f files t = Ret (t\<lparr>deleteQueue := (deleteQueue t)\<lparr>payload := payload (deleteQueue t) @ map ((@) (outputPrefix t)) files\<rparr>,
           cdeleted := cdeleted t + word_of_nat (length files)\<rparr>)" if "\<not> flag (deleteQueue t)" for files t
    using that
  proof (induction files arbitrary: t)
    case (Cons f files)
    let ?t = "t\<lparr>deleteQueue := (deleteQueue t)\<lparr>payload := payload (deleteQueue t) @ [outputPrefix t @ f]\<rparr>, cdeleted := cdeleted t + 1\<rparr>"
    have "?f f t = Ret ?t" using Cons.prems by (simp add: dq_push_back_def guarded_free)
    then show ?case using Cons.IH [of ?t] Cons.prems by (simp add: add.assoc)
  qed simp
  then show ?thesis using assms unfolding Copy_queue_deletes_def by blast
qed

text \<open>The output path, read as names below itself or below the input root, leads nowhere.\<close>

definition nothing_nested :: "fs \<Rightarrow> string \<Rightarrow> string \<Rightarrow> bool" where
  "nothing_nested fs inp out \<longleftrightarrow>
     (let names = comps (windows fs) out
      in names \<noteq> [] \<and> list_all (valid_name (windows fs)) names \<and>
         node_at fs (resolve fs inp @ names) = None \<and> node_at fs (resolve fs out @ names) = None)"

lemma resolve_twice:
  assumes "good_root fs out" "list_all (valid_name (windows fs)) (comps (windows fs) out)"
    "\<forall>n \<in> set ns. valid_name (windows fs) n"
  shows "resolve fs (prefix_of fs out @ prefix_of fs out @ rel_name fs ns) =
    resolve fs out @ comps (windows fs) out @ ns"
proof -
  let ?w = "windows fs"
  have ne: "out \<noteq> []" using assms(1) by (simp add: good_root_def)
  have "is_absolute ?w (out @ preferred_separator ?w # s) = is_absolute ?w out" for s
    using ne by (cases out; cases "tl out") (auto simp: is_absolute_def preferred_separator_def)
  moreover have "foldl walk p (comps ?w out @ ns) = p @ comps ?w out @ ns" for p
    using assms(2,3) by (intro foldl_walk [of _ ?w]) (auto simp: list_all_iff)
  ultimately show ?thesis
    using assms(3) by (simp add: resolve_def prefix_of_def rel_name_def comps_sep comps_join)
qed

lemma nested_gone:
  assumes ready: "sync_ready fs inp out" and ad: "after_dirs fs inp out fs3" and nn: "nothing_nested fs inp out"
    and A: "A \<subseteq> set (file_names fs inp)" and ac: "after_copies fs3 (resolve fs inp) (resolve fs out) move A fs'"
    and val: "\<forall>n \<in> set ns. valid_name (windows fs) n"
  shows "node_at fs' (resolve fs' (prefix_of fs out @ prefix_of fs out @ rel_name fs ns)) = None"
proof -
  let ?ri = "resolve fs inp" and ?ro = "resolve fs out" and ?c = "comps (windows fs) out"
  have wf: "wf_fs fs" and dis: "\<not> prefix ?ri ?ro" "\<not> prefix ?ro ?ri" and root: "good_root fs out"
    using ready by (simp_all add: sync_ready_def)
  have c: "?c \<noteq> []" "list_all (valid_name (windows fs)) ?c" "node_at fs (?ri @ ?c) = None" "node_at fs (?ro @ ?c) = None"
    using nn by (simp_all add: nothing_nested_def Let_def)
  have gone: "node_at fs (r @ ?c @ ns) = None" if "node_at fs (r @ ?c) = None" for r
  proof (rule ccontr)
    assume "node_at fs (r @ ?c @ ns) \<noteq> None"
    then have "node_at fs (r @ ?c) = Some Dir \<or> ns = []"
      using wf_parent [OF wf, of "r @ ?c @ ns" "r @ ?c"] by (auto simp: strict_prefix_def)
    then show False using that \<open>node_at fs (r @ ?c @ ns) \<noteq> None\<close> by auto
  qed
  have "same_env fs fs'"
    using ad ac same_env_trans by (auto simp only: after_dirs_def after_copies_def)
  then have res: "resolve fs' = resolve fs" by (rule same_env_resolve)
  have "[] \<notin> A" using A by (auto simp: file_names_iff [OF wf])
  then have "node_at fs' (?ro @ ?c @ ns) = (if ?c @ ns \<in> A
      then map_option (placed (move \<or> windows fs3) (clock fs3)) (node_at fs3 (?ri @ ?c @ ns)) else node_at fs3 (?ro @ ?c @ ns))"
    by (rule after_copiesD(1) [OF ac dis])
  moreover have "?c @ ns \<notin> A" using A gone [OF c(3)] by (auto simp: file_names_iff [OF wf])
  moreover have "node_at fs3 (?ro @ ?c @ ns) = None"
    using ad gone [OF c(3)] gone [OF c(4)] by (auto simp: after_dirs_def dir_names_iff [OF wf])
  ultimately show ?thesis using resolve_twice [OF root c(2) val] res by simp
qed

lemma remove_all_result:
  assumes "denied fs = []" "resolve fs s = p" "p \<noteq> []"
    and "\<And>q. prefix p q \<Longrightarrow> node_at fs p = None \<Longrightarrow> node_at fs q = None"
  shows "\<exists>fs'. remove_all fs s = Ret fs' \<and> same_env fs fs' \<and>
    (\<forall>q. node_at fs' q = (if prefix p q then None else node_at fs q))"
proof (cases "node_at fs p = None")
  case True
  then show ?thesis using assms by (auto simp: remove_all_def remove_all_at_def)
next
  case False
  let ?fs = "fs\<lparr>nodes := filter (\<lambda>(q, n). \<not> prefix p q) (nodes fs)\<rparr>"
  have "map_of (filter (\<lambda>(q, n). \<not> prefix p q) xs) q = (if prefix p q then None else map_of xs q)" for xs :: "(path \<times> node) list" and q
    by (induction xs) auto
  then have "node_at ?fs q = (if prefix p q then None else node_at fs q)" for q
    using assms(3) by (simp add: node_at_def)
  moreover have "keyed ?fs" if "keyed fs" using that by (auto simp: keyed_def distinct_map_filter)
  ultimately show ?thesis using False assms
    by (intro exI [of _ ?fs]) (auto simp: remove_all_def remove_all_at_def same_env_def)
qed

lemma remove_dirs:
  assumes "denied fs = []" "\<And>d. d \<in> set ds \<Longrightarrow> resolve fs (pre @ d) = r @ f d" "\<And>d. d \<in> set ds \<Longrightarrow> f d \<noteq> []"
    and "\<And>d q. d \<in> set ds \<Longrightarrow> prefix (r @ f d) q \<Longrightarrow> node_at fs (r @ f d) = None \<Longrightarrow> node_at fs q = None"
  shows "\<exists>fs'. ofold (\<lambda>dir fs. case remove_all fs (pre @ dir) of
                Throw (Filesystem_error c) \<Rightarrow> Ret fs | x \<Rightarrow> x) ds fs = Ret fs' \<and> same_env fs fs' \<and>
    (\<forall>q. node_at fs' q = (if \<exists>d \<in> set ds. prefix (r @ f d) q then None else node_at fs q))"
  using assms
proof (induction ds arbitrary: fs)
  case (Cons d ds)
  obtain fs1 where f1: "remove_all fs (pre @ d) = Ret fs1" and env: "same_env fs fs1"
    and at: "\<And>q. node_at fs1 q = (if prefix (r @ f d) q then None else node_at fs q)"
    using remove_all_result [of fs "pre @ d" "r @ f d", OF Cons.prems(1) _ _ Cons.prems(4) [of d]]
      Cons.prems(2,3) [of d] by auto
  have closed: "node_at fs1 q = None"
    if "e \<in> set ds" "prefix (r @ f e) q" "node_at fs1 (r @ f e) = None" for e q
  proof (cases "prefix (r @ f d) (r @ f e)")
    case True
    then have "prefix (r @ f d) q" using that(2) by (rule prefix_order.trans)
    then show ?thesis by (simp add: at)
  next
    case False
    then have "node_at fs (r @ f e) = None" using that(3) at [of "r @ f e"] by simp
    then have "node_at fs q = None" using Cons.prems(4) [of e q] that(1,2) by simp
    then show ?thesis by (simp add: at)
  qed
  have res: "resolve fs1 (pre @ e) = r @ f e" "f e \<noteq> []" if "e \<in> set ds" for e
    using that Cons.prems(2,3) same_env_resolve [OF env] by simp_all
  have dn1: "denied fs1 = []" using env Cons.prems(1) by (simp add: same_env_def)
  have "\<exists>fs'. ofold (\<lambda>dir fs. case remove_all fs (pre @ dir) of
                Throw (Filesystem_error c) \<Rightarrow> Ret fs | x \<Rightarrow> x) ds fs1 = Ret fs' \<and> same_env fs1 fs' \<and>
      (\<forall>q. node_at fs' q = (if \<exists>d \<in> set ds. prefix (r @ f d) q then None else node_at fs1 q))"
  proof (rule Cons.IH [OF dn1])
    fix e q assume "e \<in> set ds"
    then show "resolve fs1 (pre @ e) = r @ f e" "f e \<noteq> []" by (simp_all add: res)
    show "prefix (r @ f e) q \<Longrightarrow> node_at fs1 (r @ f e) = None \<Longrightarrow> node_at fs1 q = None"
      using closed \<open>e \<in> set ds\<close> .
  qed
  then obtain fs' where "ofold (\<lambda>dir fs. case remove_all fs (pre @ dir) of
                Throw (Filesystem_error c) \<Rightarrow> Ret fs | x \<Rightarrow> x) ds fs1 = Ret fs'" "same_env fs1 fs'"
    and "\<And>q. node_at fs' q = (if \<exists>d \<in> set ds. prefix (r @ f d) q then None else node_at fs1 q)" by blast
  then show ?case using f1 at same_env_trans [OF env] by (intro exI [of _ fs']) auto
qed simp

section \<open>The whole run\<close>

lemma Copy_workers_result:
  assumes "unlocked (fst w)" "doneStuff (fst w)" "0 < n"
  shows "Copy_workers n w = Ret (fold work_step (pending_work w) w)"
  unfolding Copy_workers_def
proof (rule ofold_settled)
  let ?v = "fold work_step (pending_work w) w"
  show "DoStuff w = Ret ?v" using worker.loop_result [of w] assms by (simp add: DoStuff_def)
  show "DoStuff ?v = Ret ?v"
    using worker.loop_result [of ?v] worker.loop_done [of w] assms by (simp add: DoStuff_def)
qed (use assms(3) in simp)

lemma work_phase:
  assumes ready: "sync_ready fs inp out" and ad: "after_dirs fs inp out fs3"
    and u: "unlocked u" "payload (copyQueue u) = map (rel_name fs) (to_copy fs inp out ow force)"
      "inputPrefix u = prefix_of fs inp" "outputPrefix u = prefix_of fs out"
    and del: "payload (deleteQueue u) = map ((@) (prefix_of fs out)) (map (rel_name fs) doomed)"
      "\<And>ns. ns \<in> set doomed \<Longrightarrow> nothing_nested fs inp out \<and> (\<forall>n \<in> set ns. valid_name (windows fs) n)"
    and n: "0 < n" "doneStuff u"
  shows "\<exists>v fs'. Copy_workers n (u, fs3) = Ret (v, fs') \<and>
    kept_by_worker (length (to_copy fs inp out ow force)) u v \<and>
    after_copies fs3 (resolve fs inp) (resolve fs out) (move_flag u) (wanted_files fs inp out ow force) fs'"
proof -
  let ?L = "to_copy fs inp out ow force" and ?items = "pending_work (u, fs3)"
  have wf: "wf_fs fs" using ready by (simp add: sync_ready_def)
  have "after_copies fs3 (resolve fs inp) (resolve fs out) (move_flag u) {} fs3" by (simp add: after_copies_def)
  moreover have "copies_of ?items = map (rel_name fs) ?L"
    using u(2) by (simp add: pending_work_def copies_side_by_side)
  moreover have "distinct ?L" using distinct_names_below [OF wf] by (simp add: to_copy_def file_names_def)
  moreover have "set ?L \<union> {} \<subseteq> set (file_names fs inp)" by (auto simp: to_copy_def)
  moreover have "node_at fs' (resolve fs' (prefix_of fs out @ g)) = None"
    if "(co, Some g) \<in> set ?items" and A: "A \<subseteq> set (file_names fs inp)"
      "after_copies fs3 (resolve fs inp) (resolve fs out) (move_flag u) A fs'" for co g A fs'
  proof -
    have "g \<in> set (payload (deleteQueue u))" using that(1) deletes_side_by_side by (fastforce simp: pending_work_def)
    then obtain ns where ns: "ns \<in> set doomed" and g: "g = prefix_of fs out @ rel_name fs ns" using del(1) by auto
    show ?thesis using nested_gone [OF ready ad _ A, of ns] del(2) [OF ns] unfolding g by simp
  qed
  ultimately obtain v fs' where "fold work_step ?items (u, fs3) = (v, fs')" "kept_by_worker (length ?L) u v"
    "after_copies fs3 (resolve fs inp) (resolve fs out) (move_flag u) (set ?L \<union> {}) fs'"
    using transfers [OF ready ad _ _ _ _ _ u(3,4), of "{}" fs3 ?items ?L] by auto
  then show ?thesis
    using Copy_workers_result [of "(u, fs3)" n] u(1) n by (auto simp: wanted_files_def)
qed

lemma remove_phase:
  assumes ready: "sync_ready fs inp out" and it: "iterates iter" and env: "same_env fs fs'"
    and O: "ODirSet v = rel_name fs ` set (dir_names fs out) - rel_name fs ` set (dir_names fs inp)"
    and pre: "outputPrefix v = prefix_of fs out"
    and at: "\<And>d. d \<in> set (dir_names fs out) \<Longrightarrow> node_at fs' (resolve fs out @ d) = Some Dir"
  shows "\<exists>fs''. Copy_remove_dirs iter (v, fs') = Ret (v\<lparr>ODirSet := {}\<rparr>, fs'') \<and> same_env fs' fs'' \<and>
    (\<forall>q. node_at fs'' q = (if \<exists>d \<in> set (dir_names fs out) - set (dir_names fs inp). prefix (resolve fs out @ d) q
       then None else node_at fs' q))"
proof -
  let ?ro = "resolve fs out" and ?D = "set (dir_names fs out) - set (dir_names fs inp)"
  have wf: "wf_fs fs" and root: "good_root fs out" and dn: "denied fs = []" using ready by (simp_all add: sync_ready_def)
  have val: "\<forall>n \<in> set d. valid_name (windows fs) n" if "d \<in> set (dir_names fs r)" for d r
    using names_valid [OF wf] that by blast
  have "ODirSet v = rel_name fs ` ?D"
  proof -
    have "rel_name fs ` ?D = rel_name fs ` set (dir_names fs out) - rel_name fs ` set (dir_names fs inp)"
      using rel_name_inj val by blast
    then show ?thesis using O by simp
  qed
  moreover from this have "finite (ODirSet v)" by simp
  ultimately have l: "set (iter (ODirSet v)) = rel_name fs ` ?D" using it unfolding iterates_def by metis
  define f where "f = comps (windows fs)"
  have f: "f (rel_name fs d) = d" if "d \<in> ?D" for d
    using val that by (auto simp: f_def rel_name_def comps_join)
  have D: "f s \<in> ?D \<and> s = rel_name fs (f s)" if "s \<in> set (iter (ODirSet v))" for s
    using that f l by auto
  have "\<exists>fs''. ofold (\<lambda>dir fs. case remove_all fs (outputPrefix v @ dir) of
                Throw (Filesystem_error c) \<Rightarrow> Ret fs | x \<Rightarrow> x) (iter (ODirSet v)) fs' = Ret fs'' \<and> same_env fs' fs'' \<and>
    (\<forall>q. node_at fs'' q = (if \<exists>d \<in> set (iter (ODirSet v)). prefix (?ro @ f d) q then None else node_at fs' q))"
  proof (rule remove_dirs)
    show "denied fs' = []" using env dn by (simp add: same_env_def)
    fix s assume s: "s \<in> set (iter (ODirSet v))"
    have "resolve fs (prefix_of fs out @ rel_name fs (f s)) = ?ro @ f s"
      using resolve_prefix_of [OF root] val D [OF s] by blast
    then show "resolve fs' (outputPrefix v @ s) = ?ro @ f s"
      using D [OF s] pre same_env_resolve [OF env] by simp
    show "f s \<noteq> []" using D [OF s] by (simp add: dir_names_iff [OF wf])
    show "node_at fs' q = None" if "prefix (?ro @ f s) q" "node_at fs' (?ro @ f s) = None" for q
      using at [of "f s"] D [OF s] that(2) by simp
  qed
  moreover have "(\<exists>d \<in> set (iter (ODirSet v)). prefix (?ro @ f d) q) \<longleftrightarrow> (\<exists>d \<in> ?D. prefix (?ro @ d) q)" for q
    unfolding l using f by auto
  ultimately show ?thesis by (auto simp: Copy_remove_dirs_def)
qed

end
