(* ===== verification/SyncResult.thy ===== *)
theory SyncResult
  imports SyncCopy
begin

text \<open>
  The theorems about a whole run of \<open>Copy\<close>: what it leaves on the disk with and without \<open>-d\<close>, what
  its counters say, and the runs that do not do what was asked for.
\<close>

section \<open>The phases put together\<close>

definition doomed_dirs :: "fs \<Rightarrow> string \<Rightarrow> string \<Rightarrow> path set" where
  "doomed_dirs fs inp out = set (dir_names fs out) - set (dir_names fs inp)"

definition left_by_copy ::
  "fs \<Rightarrow> string \<Rightarrow> string \<Rightarrow> bool \<Rightarrow> bool \<Rightarrow> bool \<Rightarrow> bool \<Rightarrow> path \<Rightarrow> node option" where
  "left_by_copy fs inp out del ow force move q =
     (if del \<and> (\<exists>d \<in> doomed_dirs fs inp out. prefix (resolve fs out @ d) q) then None
      else synced fs inp out ow force move q)"

lemma synced_out_dir:
  assumes "sync_ready fs inp out" "d \<in> set (dir_names fs out)"
  shows "synced fs inp out ow force move (resolve fs out @ d) = Some Dir"
proof -
  have wf: "wf_fs fs" and c: "compatible fs inp out" using assms(1) by (simp_all add: sync_ready_def)
  have d: "d \<noteq> []" "node_at fs (resolve fs out @ d) = Some Dir" using assms(2) by (simp_all add: dir_names_iff [OF wf])
  moreover from d have "strict_prefix (resolve fs out) (resolve fs out @ d)" by (simp add: strict_prefix_def)
  moreover have "node_at fs (resolve fs inp @ d) \<in> {None, Some Dir}"
    using compatibleD [OF wf c _ d(1) d(2)] by (cases "node_at fs (resolve fs inp @ d)") auto
  ultimately show ?thesis by (auto simp: synced_def Let_def)
qed

lemma delete_phase:
  assumes ready: "sync_ready fs inp out" and it: "iterates iter"
    and nn: "del \<Longrightarrow> nothing_nested fs inp out \<or> set (file_names fs out) \<subseteq> set (file_names fs inp)"
    and u: "unlocked u" "payload (deleteQueue u) = []" "outputPrefix u = prefix_of fs out"
      "OFilesSet u = rel_name fs ` (set (file_names fs out) - set (file_names fs inp))"
  shows "\<exists>q c doomed. (if del then Copy_queue_deletes iter u else Ret u) = Ret (u\<lparr>deleteQueue := q, cdeleted := c\<rparr>) \<and>
    \<not> flag q \<and> payload q = map ((@) (prefix_of fs out)) (map (rel_name fs) doomed) \<and>
    (\<forall>ns \<in> set doomed. nothing_nested fs inp out \<and> (\<forall>n \<in> set ns. valid_name (windows fs) n))"
proof (cases del)
  case False
  then show ?thesis using u
    by (intro exI [of _ "deleteQueue u"] exI [of _ "cdeleted u"] exI [of _ "[]"]) (simp add: unlocked_def)
next
  case True
  let ?D = "set (file_names fs out) - set (file_names fs inp)"
  have wf: "wf_fs fs" using ready by (simp add: sync_ready_def)
  have "set (iter (OFilesSet u)) = rel_name fs ` ?D" using it u(4) by (simp add: iterates_def)
  then obtain doomed where l: "iter (OFilesSet u) = map (rel_name fs) doomed" "set doomed \<subseteq> ?D"
    using list_of_images [of "iter (OFilesSet u)" "rel_name fs" ?D] by auto
  have "\<forall>n \<in> set ns. valid_name (windows fs) n" if "ns \<in> set doomed" for ns
    using names_valid [OF wf, of ns out] l(2) that by blast
  moreover have "nothing_nested fs inp out" if "ns \<in> set doomed" for ns using nn True l(2) that by auto
  moreover have "\<not> flag (deleteQueue u)" using u(1) by (simp add: unlocked_def)
  ultimately show ?thesis using True u Copy_queue_deletes_result [of u iter] l(1)
    by (intro exI [of _ "(deleteQueue u)\<lparr>payload := map ((@) (prefix_of fs out)) (map (rel_name fs) doomed)\<rparr>"]
        exI [of _ "cdeleted u + word_of_nat (length doomed)"] exI [of _ doomed]) simp
qed

lemma prepare_phase:
  assumes ready: "sync_ready fs inp out" and it: "iterates iter"
  shows "\<exists>t fs3. Copy_prepare iter inp out ow force move n (new_functions, fs) = Ret (t, fs3) \<and>
    after_dirs fs inp out fs3 \<and> idle t \<and> payload (IFilesSet t) = map (rel_name fs) (file_names fs inp) \<and>
    inputPrefix t = prefix_of fs inp \<and> outputPrefix t = prefix_of fs out \<and>
    OFilesSet t = rel_name fs ` set (file_names fs out) \<and>
    ODirSet t = rel_name fs ` set (dir_names fs out) - rel_name fs ` set (dir_names fs inp) \<and>
    overwrite_flag t = ow \<and> force_flag t = force \<and> move_flag t = move \<and> \<not> doneStuff t"
proof -
  let ?s = "new_functions\<lparr>finished := False, move_flag := move, overwrite_flag := ow, force_flag := force\<rparr>"
  have wf: "wf_fs fs" and roots: "good_root fs inp" "good_root fs out" and dn: "denied fs = []"
    using ready by (simp_all add: sync_ready_def)
  obtain t where scan: "obind (Copy_find inp out (?s, fs)) (\<lambda>w. Copy_relative (Copy_prefixes inp out w)) = Ret (t, fs)"
    and t: "scanned fs inp out t" "move_flag t = move" "force_flag t = force" "overwrite_flag t = ow"
      "\<not> doneStuff t"
  proof -
    have "\<not> doneStuff new_functions" by (simp add: new_functions_def)
    then show thesis using scan_phase [OF wf roots dn, of ?s] that by auto
  qed
  obtain fs3 where dirs: "Copy_dirs iter (t, fs) =
      (t\<lparr>ODirSet := rel_name fs ` set (dir_names fs out) - rel_name fs ` set (dir_names fs inp), IDirSet := {}\<rparr>, fs3)"
    and ad: "after_dirs fs inp out fs3"
    using dirs_phase [OF ready it t(1)] by (auto simp: after_dirs_def)
  obtain w1 where find: "Copy_find inp out (?s, fs) = Ret w1" "Copy_relative (Copy_prefixes inp out w1) = Ret (t, fs)"
    using scan by (auto simp: obind_eq_Ret)
  have ex: "exists_path fs out" using roots(2) by (simp add: exists_path_def good_root_def)
  have "Copy_prepare iter inp out ow force move n (new_functions, fs) =
      Ret (t\<lparr>ODirSet := rel_name fs ` set (dir_names fs out) - rel_name fs ` set (dir_names fs inp), IDirSet := {},
             activeCopy := True, threads := nat n\<rparr>, fs3)"
    unfolding Copy_prepare_def Let_def prod.case using ex find dirs by simp
  then show ?thesis using t ad by (simp add: scanned_def idle_def unlocked_def)
qed

lemma Copy_result:
  assumes ready: "sync_ready fs inp out" and it: "iterates iter" and n: "0 < n"
    and nn: "del \<Longrightarrow> nothing_nested fs inp out \<or> set (file_names fs out) \<subseteq> set (file_names fs inp)"
  shows "\<exists>t fs'. Copy iter inp out del ow force move n (new_functions, fs) = Ret (t, fs') \<and>
    IsFinished t \<and> payload (errors t) = [] \<and> filesCopied t = filesToCopy t \<and>
    filesToCopy t = word_of_nat (length (to_copy fs inp out ow force)) \<and> same_env fs fs' \<and>
    (\<forall>q. node_at fs' q = left_by_copy fs inp out del ow force move q)"
proof -
  let ?L = "to_copy fs inp out ow force" and ?ri = "resolve fs inp" and ?ro = "resolve fs out"
  obtain t3 fs3 where prep: "Copy_prepare iter inp out ow force move n (new_functions, fs) = Ret (t3, fs3)"
    and ad: "after_dirs fs inp out fs3"
    and t3: "idle t3" "payload (IFilesSet t3) = map (rel_name fs) (file_names fs inp)" "inputPrefix t3 = prefix_of fs inp"
      "outputPrefix t3 = prefix_of fs out" "OFilesSet t3 = rel_name fs ` set (file_names fs out)"
      "overwrite_flag t3 = ow" "force_flag t3 = force" "move_flag t3 = move"
      "ODirSet t3 = rel_name fs ` set (dir_names fs out) - rel_name fs ` set (dir_names fs inp)"
    using prepare_phase [OF ready it, of ow force move n] by blast
  obtain u where sort: "Copy_sorters (t3, fs3) = Ret (u, fs3)" and u: "unlocked u" "kept_by_sorter t3 u"
      "payload (copyQueue u) = map (rel_name fs) ?L"
      "OFilesSet u = rel_name fs ` (set (file_names fs out) - set (file_names fs inp))"
    using sort_phase [OF ready ad t3(1-5)] t3(6,7) by auto
  have ku: "inputPrefix u = prefix_of fs inp" "outputPrefix u = prefix_of fs out" "move_flag u = move"
    "payload (deleteQueue u) = []" "ODirSet u = ODirSet t3" "payload (errors u) = []" "filesCopied u = 0"
    "filesToCopy u = word_of_nat (length ?L)"
    using u(2,3) t3 by (simp_all add: kept_by_sorter_def idle_def)
  obtain q c doomed where del: "(if del then Copy_queue_deletes iter u else Ret u) = Ret (u\<lparr>deleteQueue := q, cdeleted := c\<rparr>)"
    and q: "\<not> flag q" "payload q = map ((@) (prefix_of fs out)) (map (rel_name fs) doomed)"
    and doomed: "\<forall>ns \<in> set doomed. nothing_nested fs inp out \<and> (\<forall>n \<in> set ns. valid_name (windows fs) n)"
    using delete_phase [OF ready it nn u(1) ku(4,2) u(4)] by blast
  define w where "w = u\<lparr>deleteQueue := q, cdeleted := c, doneStuff := True\<rparr>"
  have w: "unlocked w" "doneStuff w" "payload (deleteQueue w) = map ((@) (prefix_of fs out)) (map (rel_name fs) doomed)"
    "payload (copyQueue w) = map (rel_name fs) ?L" "inputPrefix w = prefix_of fs inp"
    "outputPrefix w = prefix_of fs out" "move_flag w = move" "ODirSet w = ODirSet t3" "payload (errors w) = []"
    "filesCopied w = 0" "filesToCopy w = word_of_nat (length ?L)"
    using u(1,3) q ku by (simp_all add: w_def unlocked_def)
  have "0 < nat n" using n by simp
  then obtain x fs4 where work: "Copy_workers (nat n) (w, fs3) = Ret (x, fs4)"
    and x: "kept_by_worker (length ?L) w x"
    and ac: "after_copies fs3 ?ri ?ro move (wanted_files fs inp out ow force) fs4"
    using work_phase [OF ready ad w(1,4,5,6,3) _ _ w(2)] doomed unfolding w(7) by blast
  have kx: "ODirSet x = ODirSet t3" "outputPrefix x = prefix_of fs out" "payload (errors x) = []"
    "filesCopied x = filesToCopy x" "filesToCopy x = word_of_nat (length ?L)"
    using x w by (simp_all add: kept_by_worker_def)
  note at4 = synced_result [OF ready ad ac]
  define y where "y = x\<lparr>threads := 0, activeCopy := False\<rparr>"
  have env4: "same_env fs fs4" using ad ac same_env_trans by (auto simp only: after_dirs_def after_copies_def)
  have "ODirSet y = rel_name fs ` set (dir_names fs out) - rel_name fs ` set (dir_names fs inp)"
    "outputPrefix y = prefix_of fs out" using kx t3(9) by (simp_all add: y_def)
  then obtain fs5 where rem: "Copy_remove_dirs iter (y, fs4) = Ret (y\<lparr>ODirSet := {}\<rparr>, fs5)"
    and env5: "same_env fs4 fs5" and at5: "\<And>q. node_at fs5 q = (if \<exists>d \<in> doomed_dirs fs inp out. prefix (?ro @ d) q then None else node_at fs4 q)"
    using remove_phase [OF ready it env4, of y] synced_out_dir [OF ready] at4 by (auto simp: doomed_dirs_def)
  let ?fin = "if del then (y\<lparr>ODirSet := {}\<rparr>, fs5) else (y, fs4)"
  have run: "Copy iter inp out del ow force move n (new_functions, fs) = Ret ((fst ?fin)\<lparr>finished := True\<rparr>, snd ?fin)"
    unfolding Copy_def prep using sort del work rem unfolding w_def y_def by (simp add: Let_def split: if_splits)
  show ?thesis
    unfolding run using kx at4 at5 env4 same_env_trans [OF env4 env5] by (auto simp: IsFinished_def left_by_copy_def y_def)
qed

section \<open>The tree stays ready\<close>

lemma synced_inp:
  assumes "sync_ready fs inp out"
  shows synced_inp_kept: "synced fs inp out ow force False (resolve fs inp @ ns) = node_at fs (resolve fs inp @ ns)"
    and "synced fs inp out ow force move (resolve fs inp @ ns) \<in> {None, node_at fs (resolve fs inp @ ns)}"
    and "node_at fs (resolve fs inp @ ns) = Some Dir \<Longrightarrow> synced fs inp out ow force move (resolve fs inp @ ns) = Some Dir"
proof -
  have "\<not> prefix (resolve fs inp) (resolve fs out)" "\<not> prefix (resolve fs out) (resolve fs inp)"
    using assms by (simp_all add: sync_ready_def)
  then have "\<not> strict_prefix (resolve fs out) (resolve fs inp @ ns)"
    by (metis prefix_same_cases prefixI prefix_order.less_imp_le)
  then show "synced fs inp out ow force False (resolve fs inp @ ns) = node_at fs (resolve fs inp @ ns)"
    "synced fs inp out ow force move (resolve fs inp @ ns) \<in> {None, node_at fs (resolve fs inp @ ns)}"
    "node_at fs (resolve fs inp @ ns) = Some Dir \<Longrightarrow> synced fs inp out ow force move (resolve fs inp @ ns) = Some Dir"
    by (simp_all add: synced_def Let_def)
qed

lemma synced_out:
  assumes "ns \<noteq> []"
  shows "synced fs inp out ow force move (resolve fs out @ ns) =
    (case node_at fs (resolve fs inp @ ns) of
       Some Dir \<Rightarrow> Some Dir
     | Some (File t c) \<Rightarrow>
         if selected ow force (Some (File t c)) (node_at fs (resolve fs out @ ns))
         then Some (File (if move \<or> windows fs then t else clock fs) c) else node_at fs (resolve fs out @ ns)
     | None \<Rightarrow> node_at fs (resolve fs out @ ns))"
  using assms by (auto simp: synced_def Let_def strict_prefix_def split: option.split node.split)

lemma synced_dir:
  assumes ready: "sync_ready fs inp out" and "node_at fs q = Some Dir"
  shows "synced fs inp out ow force move q = Some Dir"
proof (cases "strict_prefix (resolve fs out) q")
  case True
  then obtain ns where q: "q = resolve fs out @ ns" "ns \<noteq> []" by (auto simp: strict_prefix_def elim!: prefixE)
  have "wf_fs fs" using ready by (simp add: sync_ready_def)
  then show ?thesis using synced_out_dir [OF ready, of ns] q assms(2) by (simp add: dir_names_iff)
qed (simp add: synced_def Let_def assms(2))

lemma synced_from:
  assumes "synced fs inp out ow force move q \<noteq> None"
  shows "node_at fs q \<noteq> None \<or> (\<exists>ns. ns \<noteq> [] \<and> q = resolve fs out @ ns \<and> node_at fs (resolve fs inp @ ns) \<noteq> None)"
proof (cases "strict_prefix (resolve fs out) q")
  case True
  then obtain ns where q: "q = resolve fs out @ ns" "ns \<noteq> []" by (auto simp: strict_prefix_def elim!: prefixE)
  then show ?thesis using assms synced_out [OF q(2)] by (auto split: option.splits node.splits)
qed (use assms in \<open>auto simp: synced_def Let_def split: if_splits\<close>)

lemma synced_parent:
  assumes ready: "sync_ready fs inp out" and "synced fs inp out ow force move q \<noteq> None" "q \<noteq> []"
  shows "synced fs inp out ow force move (butlast q) = Some Dir"
proof -
  have wf: "wf_fs fs" using ready by (simp add: sync_ready_def)
  have up: "node_at fs (butlast p) = Some Dir" if "node_at fs p \<noteq> None" "p \<noteq> []" for p
  proof -
    have "strict_prefix (butlast p) (butlast p @ [last p])" by (simp add: strict_prefix_def)
    then show ?thesis using wf_parent [OF wf that(1)] that(2) by simp
  qed
  from synced_from [OF assms(2)] show ?thesis
  proof (elim disjE exE conjE)
    assume "node_at fs q \<noteq> None"
    then show ?thesis using up [of q] synced_dir [OF ready] assms(3) by blast
  next
    fix ns
    assume ns: "ns \<noteq> []" "q = resolve fs out @ ns" "node_at fs (resolve fs inp @ ns) \<noteq> None"
    then have d: "node_at fs (resolve fs inp @ butlast ns) = Some Dir" using up [of "resolve fs inp @ ns"] by (simp add: butlast_append)
    show ?thesis
    proof (cases "butlast ns = []")
      case True
      have "node_at fs (resolve fs out) = Some Dir" using ready by (simp add: sync_ready_def good_root_def)
      then show ?thesis using ns True synced_dir [OF ready] by (simp add: butlast_append)
    next
      case False
      then show ?thesis using ns d synced_out [OF False] by (simp add: butlast_append)
    qed
  qed
qed

lemma synced_wf:
  assumes ready: "sync_ready fs inp out" and env: "same_env fs fs'"
    and at: "\<And>q. node_at fs' q = synced fs inp out ow force move q"
  shows "wf_fs fs'"
proof -
  let ?ri = "resolve fs inp" and ?ro = "resolve fs out"
  have wf: "wf_fs fs" and roots: "good_root fs inp" "good_root fs out" using ready by (simp_all add: sync_ready_def)
  have we: "windows fs' = windows fs" using env by (simp add: same_env_def)
  have "keyed fs" using wf by (auto simp: wf_fs_def keyed_def)
  then have k: "keyed fs'" using env by (simp add: same_env_def)
  have "p \<noteq> [] \<and> (\<forall>n \<in> set p. valid_name (windows fs') n) \<and> node_at fs' (butlast p) = Some Dir"
    if p: "p \<in> set (map fst (nodes fs'))" for p
  proof -
    have ne: "p \<noteq> []" using p k by (force simp: keyed_def)
    then have s: "synced fs inp out ow force move p \<noteq> None"
      unfolding at [symmetric] using p by (simp add: node_at_def map_of_eq_None_iff)
    have "\<forall>n \<in> set p. valid_name (windows fs) n"
      using synced_from [OF s]
    proof (elim disjE exE conjE)
      fix ns
      assume ns: "p = ?ro @ ns" "node_at fs (?ri @ ns) \<noteq> None"
      have "node_at fs ?ro \<noteq> None" using roots(2) by (simp add: good_root_def)
      then show ?thesis using ns wf_names [OF wf] by fastforce
    qed (use wf_names [OF wf] in blast)
    then show ?thesis using ne synced_parent [OF ready s ne] at we by simp
  qed
  then show ?thesis using k unfolding wf_fs_def keyed_def by blast
qed

lemma synced_compatible:
  assumes ready: "sync_ready fs inp out" and env: "same_env fs fs'" and wf': "wf_fs fs'"
    and at: "\<And>q. node_at fs' q = synced fs inp out ow force move q"
  shows "compatible fs' inp out"
proof -
  let ?ri = "resolve fs inp" and ?ro = "resolve fs out"
  have wf: "wf_fs fs" and comp: "compatible fs inp out" using ready by (simp_all add: sync_ready_def)
  have res: "resolve fs' = resolve fs" using env by (rule same_env_resolve)
  have "(case node_at fs' (?ro @ ns) of None \<Rightarrow> True | Some m \<Rightarrow> (m = Dir) = (n = Dir))"
    if n: "node_at fs' (?ri @ ns) = Some n" "ns \<noteq> []" for ns n
  proof -
    have i: "node_at fs (?ri @ ns) = Some n" using n(1) synced_inp(2) [OF ready, of ow force move ns] at by auto
    then show ?thesis using compatibleD [OF wf comp i n(2)] at [of "?ro @ ns"] synced_out [OF n(2)]
      by (auto split: option.splits node.splits if_splits)
  qed
  note case_of = this
  have "case node_at fs' (?ro @ drop (length ?ri) p) of None \<Rightarrow> True | Some m \<Rightarrow> (m = Dir) = (n = Dir)"
    if pn: "(p, n) \<in> set (nodes fs')" "strict_prefix ?ri p" for p n
  proof -
    from pn(2) obtain ns where p: "p = ?ri @ ns" "ns \<noteq> []" by (auto simp: strict_prefix_def elim!: prefixE)
    then have "node_at fs' (?ri @ ns) = Some n" using pn(1) by (simp add: node_at_map_of [OF wf'])
    then show ?thesis using case_of p by simp
  qed
  then show ?thesis unfolding compatible_def list_all_iff res by blast
qed

lemma synced_ready:
  assumes ready: "sync_ready fs inp out" and env: "same_env fs fs'"
    and at: "\<And>q. node_at fs' q = synced fs inp out ow force move q"
  shows "sync_ready fs' inp out"
proof -
  let ?ri = "resolve fs inp" and ?ro = "resolve fs out"
  have wf: "wf_fs fs" and dn: "denied fs = []" and roots: "good_root fs inp" "good_root fs out"
    and sh: "short_names fs out inp"
    and dis: "\<not> prefix ?ri ?ro" "\<not> prefix ?ro ?ri"
    using ready by (simp_all add: sync_ready_def)
  have res: "resolve fs' = resolve fs" using env by (rule same_env_resolve)
  have we: "windows fs' = windows fs" "denied fs' = []" using env dn by (simp_all add: same_env_def)
  have wf': "wf_fs fs'" using ready env at by (rule synced_wf)
  have inp_of: "node_at fs (?ri @ ns) \<noteq> None" if "node_at fs' (?ri @ ns) \<noteq> None" for ns
    using that synced_inp(2) [OF ready, of ow force move ns] at by auto
  have out_of: "node_at fs (?ro @ ns) \<noteq> None \<or> node_at fs (?ri @ ns) \<noteq> None" if "node_at fs' (?ro @ ns) \<noteq> None" for ns
    using that synced_from [of fs inp out ow force move "?ro @ ns"] at by auto
  have old: "short_names fs inp inp" "short_names fs out out" using roots by (simp_all add: good_root_def)
  have "short_names fs' root src" if "short_names fs root src" "src = inp" for root src
    using that inp_of unfolding short_names_iff [OF wf] short_names_iff [OF wf'] res we(1) by simp
  moreover have "short_names fs' out out"
    using old(2) sh out_of unfolding short_names_iff [OF wf] short_names_iff [OF wf'] res we(1) by metis
  ultimately have lens: "short_names fs' inp inp" "short_names fs' out out" "short_names fs' out inp"
    using old(1) sh by simp_all
  have dirs: "node_at fs' ?ri = Some Dir" "node_at fs' ?ro = Some Dir"
    using roots synced_dir [OF ready] at by (simp_all add: good_root_def)
  have "compatible fs' inp out" using ready env wf' at by (rule synced_compatible)
  with wf' roots dirs lens dis we show ?thesis by (simp add: sync_ready_def good_root_def res)
qed

section \<open>Properties\<close>

text \<open>C1: a run of \<open>Copy\<close> without \<open>-d\<close>, with at least one worker, on two separate trees that can be
  merged, ends without an error; every file counted for transfer was transferred; and every path
  of the file system holds what \<open>synced\<close> says: the input's directories and wanted files below the
  output root, the rest unchanged, moved files gone from the input. The trees are then ready for
  another run.\<close>

theorem Copy_synchronises:
  assumes "sync_ready fs inp out" and "iterates iter" and "0 < processors"
  shows "\<exists>t fs'. Copy iter inp out False ow force move processors (new_functions, fs) = Ret (t, fs') \<and>
    IsFinished t \<and> payload (errors t) = [] \<and> filesCopied t = filesToCopy t \<and> sync_ready fs' inp out \<and>
    (\<forall>q. node_at fs' q = synced fs inp out ow force move q)"
proof -
  obtain t fs' where "Copy iter inp out False ow force move processors (new_functions, fs) = Ret (t, fs')"
    "IsFinished t" "payload (errors t) = []" "filesCopied t = filesToCopy t" "same_env fs fs'"
    "\<And>q. node_at fs' q = synced fs inp out ow force move q"
    using Copy_result [OF assms, of False ow force move] by (auto simp: left_by_copy_def)
  then show ?thesis using synced_ready [OF assms(1)] by blast
qed


text \<open>C10: an output file without a match is not deleted by \<open>-d\<close> when its directory has a match: the
  queued name already carries the output prefix and the worker adds it once more.\<close>

theorem Copy_delete_keeps_unmatched_files:
  assumes "sync_ready fs inp out" and "iterates iter" and "0 < processors" and "nothing_nested fs inp out"
    and "ns \<noteq> []" and "node_at fs (resolve fs out @ ns) = Some (File t0 c0)"
    and "node_at fs (resolve fs inp @ ns) = None"
    and "node_at fs (resolve fs inp @ butlast ns) = Some Dir"
  shows "\<exists>t fs'. Copy iter inp out True ow force move processors (new_functions, fs) = Ret (t, fs') \<and>
    node_at fs' (resolve fs out @ ns) = Some (File t0 c0)"
proof -
  let ?ri = "resolve fs inp" and ?ro = "resolve fs out"
  have wf: "wf_fs fs" using assms(1) by (simp add: sync_ready_def)
  obtain t fs' where run: "Copy iter inp out True ow force move processors (new_functions, fs) = Ret (t, fs')"
    and at: "node_at fs' (?ro @ ns) = left_by_copy fs inp out True ow force move (?ro @ ns)"
    using Copy_result [OF assms(1,2,3), of True ow force move] assms(4) by blast
  have "\<not> prefix (?ro @ d) (?ro @ ns)" if "d \<in> doomed_dirs fs inp out" for d
  proof
    assume "prefix (?ro @ d) (?ro @ ns)"
    then have d: "prefix d ns" by simp
    have "d \<noteq> []" "node_at fs (?ro @ d) = Some Dir" and no: "node_at fs (?ri @ d) \<noteq> Some Dir"
      using that by (auto simp: doomed_dirs_def dir_names_iff [OF wf])
    with d assms(6) have "d \<noteq> ns" by auto
    with d have "prefix d (butlast ns @ [last ns])" "d \<noteq> butlast ns @ [last ns]" using assms(5) by simp_all
    then have "prefix d (butlast ns)" by (auto simp only: prefix_snoc)
    then have "node_at fs (?ri @ d) = Some Dir"
      using wf_parent [OF wf, of "?ri @ butlast ns" "?ri @ d"] assms(8) by (cases "d = butlast ns") (auto simp: strict_prefix_def)
    with no show False ..
  qed
  moreover have "synced fs inp out ow force move (?ro @ ns) = Some (File t0 c0)"
    using assms(5-7) by (simp add: synced_def Let_def strict_prefix_def)
  ultimately have "left_by_copy fs inp out True ow force move (?ro @ ns) = Some (File t0 c0)"
    by (auto simp: left_by_copy_def)
  then show ?thesis using run at by simp
qed

text \<open>After a run no input file is wanted any more, and then another run changes nothing.\<close>

lemma settled_none:
  assumes ready: "sync_ready fs inp out" "wf_fs fs'" "same_env fs fs'"
    and at: "\<And>q. node_at fs' q = synced fs inp out False False False q"
    and times: "windows fs \<or> (\<forall>q ti ci. node_at fs q = Some (File ti ci) \<longrightarrow> ti \<le> clock fs)"
    and ns: "ns \<in> set (file_names fs' inp)"
  shows "\<not> selected False False (node_at fs' (resolve fs inp @ ns)) (node_at fs' (resolve fs out @ ns))"
proof -
  let ?ri = "resolve fs inp" and ?ro = "resolve fs out"
  have inp: "node_at fs' (?ri @ ns) = node_at fs (?ri @ ns)" using synced_inp_kept [OF ready(1)] by (simp add: at)
  obtain ti ci where f: "ns \<noteq> []" "node_at fs (?ri @ ns) = Some (File ti ci)"
    using ns inp by (auto simp: file_names_iff [OF ready(2)] same_env_resolve [OF ready(3)])
  then have "node_at fs' (?ro @ ns) = (if selected False False (Some (File ti ci)) (node_at fs (?ro @ ns))
      then Some (File (if windows fs then ti else clock fs) ci) else node_at fs (?ro @ ns))"
    by (simp add: at synced_def Let_def strict_prefix_def)
  moreover have "windows fs \<or> ti \<le> clock fs" using times f(2) by blast
  ultimately show ?thesis using f(2) inp by (auto split: if_splits)
qed

lemma synced_settled:
  assumes ready: "sync_ready fs inp out" "wf_fs fs'" "same_env fs fs'"
    and at: "\<And>q. node_at fs' q = synced fs inp out False False False q"
    and none: "\<And>ns. ns \<in> set (file_names fs' inp) \<Longrightarrow>
      \<not> selected False False (node_at fs' (resolve fs inp @ ns)) (node_at fs' (resolve fs out @ ns))"
  shows "synced fs' inp out False False False q = node_at fs' q"
proof (cases "strict_prefix (resolve fs out) q")
  case True
  let ?ri = "resolve fs inp" and ?ro = "resolve fs out"
  note res = same_env_resolve [OF ready(3)]
  have inp: "node_at fs' (?ri @ ns) = node_at fs (?ri @ ns)" for ns using synced_inp_kept [OF ready(1)] by (simp add: at)
  from True obtain ns where q: "q = ?ro @ ns" "ns \<noteq> []" by (auto simp: strict_prefix_def elim!: prefixE)
  show ?thesis
  proof (cases "node_at fs (?ri @ ns)")
    case (Some n)
    show ?thesis
    proof (cases n)
      case Dir
      then have "node_at fs' q = Some Dir" using at [of q] Some q True by (simp add: synced_def Let_def)
      then show ?thesis using q Some Dir inp True by (simp add: synced_def res Let_def)
    next
      case (File ti ci)
      then have "ns \<in> set (file_names fs' inp)" using Some q(2) inp by (simp add: file_names_iff [OF ready(2)] res)
      then show ?thesis using none [of ns] q Some File inp True by (simp add: synced_def res Let_def)
    qed
  qed (use q inp in \<open>simp add: synced_def res Let_def\<close>)
qed (simp add: synced_def same_env_resolve [OF ready(3)])


text \<open>With no worker (\<open>-p0\<close>) the run still reports that it is finished, but no file is
  transferred: below the output root only the missing directories were made, and the files that
  should have been copied are still in the queue.\<close>

theorem Copy_without_workers:
  assumes "sync_ready fs inp out" and "iterates iter" and "processors \<le> 0"
  shows "\<exists>t fs'. Copy iter inp out False ow force move processors (new_functions, fs) = Ret (t, fs') \<and>
    IsFinished t \<and> filesCopied t = 0 \<and>
    payload (copyQueue t) = map (join_names (windows fs)) (to_copy fs inp out ow force) \<and>
    (\<forall>q. node_at fs' q = (if \<exists>d. d \<noteq> [] \<and> node_at fs (resolve fs inp @ d) = Some Dir \<and> q = resolve fs out @ d
       then Some Dir else node_at fs q))"
proof -
  let ?L = "to_copy fs inp out ow force"
  have wf: "wf_fs fs" using assms(1) by (simp add: sync_ready_def)
  obtain t3 fs3 where prep: "Copy_prepare iter inp out ow force move processors (new_functions, fs) = Ret (t3, fs3)"
    and ad: "after_dirs fs inp out fs3"
    and t3: "idle t3" "payload (IFilesSet t3) = map (rel_name fs) (file_names fs inp)" "inputPrefix t3 = prefix_of fs inp"
      "outputPrefix t3 = prefix_of fs out" "OFilesSet t3 = rel_name fs ` set (file_names fs out)"
      "overwrite_flag t3 = ow" "force_flag t3 = force"
    using prepare_phase [OF assms(1,2), of ow force move processors] by blast
  obtain u where sort: "Copy_sorters (t3, fs3) = Ret (u, fs3)" and u: "kept_by_sorter t3 u"
      "payload (copyQueue u) = map (rel_name fs) ?L"
    using sort_phase [OF assms(1) ad t3(1-5)] t3(6,7) by auto
  have "Copy_workers (nat processors) w = Ret w" for w using assms(3) by (simp add: Copy_workers_def)
  then have "Copy iter inp out False ow force move processors (new_functions, fs) =
      Ret (u\<lparr>doneStuff := True, threads := 0, activeCopy := False, finished := True\<rparr>, fs3)"
    unfolding Copy_def prep using sort by (simp add: Let_def)
  moreover have "filesCopied u = 0" using u(1) t3(1) by (simp add: kept_by_sorter_def idle_def)
  moreover have "map (rel_name fs) ?L = map (join_names (windows fs)) ?L" by (simp add: rel_name_def fun_eq_iff)
  moreover have "node_at fs3 q = (if \<exists>d. d \<noteq> [] \<and> node_at fs (resolve fs inp @ d) = Some Dir \<and> q = resolve fs out @ d
       then Some Dir else node_at fs q)" for q
    using ad dir_names_iff [OF wf] by (auto simp: after_dirs_def)
  ultimately show ?thesis using u(2) by (auto simp: IsFinished_def)
qed

lemma entry_string_trailing:
  assumes "root \<noteq> []" "is_sep win (last root)" "ns \<noteq> []" "\<forall>n \<in> set ns. valid_name win n"
  shows "entry_string win root ns = root @ join_names win ns"
proof (cases ns)
  case (Cons n ms)
  then have v: "valid_name win n" "\<forall>n \<in> set ms. valid_name win n" using assms(4) by simp_all
  then have ne: "root @ n \<noteq> []" "\<not> is_sep win (last (root @ n))" by (auto simp: valid_name_def)
  have "entry_string win root ns = entry_string win (root @ n) ms"
    using Cons assms(1,2) by (simp add: entry_string_def path_append_def)
  then show ?thesis using entry_string_append [OF ne _ v(2)] Cons
    by (cases "ms = []") (simp_all add: entry_string_def, cases ms, simp_all)
qed (use assms(3) in simp)

text \<open>For a root that ends with a separator, \<open>Copy\<close> strips one character too many: every relative
  name of an input file loses its first character.\<close>

theorem trailing_separator_strips:
  assumes "root \<noteq> []" and "is_sep (windows fs) (last root)" and "length root < 2 ^ 31 - 1"
    and "filesinput s = map (entry_string (windows fs) root) nss" and "\<not> flag (IFilesSet s)"
    and "\<forall>ns \<in> set nss. ns \<noteq> [] \<and> (\<forall>n \<in> set ns. valid_name (windows fs) n) \<and>
      length root + length (join_names (windows fs) ns) < 2 ^ 63"
  shows "\<exists>t. Helper_IFiles (fst (Copy_prefixes root out (s, fs))) = Ret t \<and>
    payload (IFilesSet t) = payload (IFilesSet s) @ map (\<lambda>ns. tl (join_names (windows fs) ns)) nss"
proof -
  let ?w = "windows fs" and ?s = "fst (Copy_prefixes root out (s, fs))"
  have strip: "strip_prefix (inputprefixlength ?s) (entry_string ?w root ns) = Ret (tl (join_names ?w ns))"
    if "ns \<in> set nss" for ns
  proof -
    have ns: "ns \<noteq> []" "\<forall>n \<in> set ns. valid_name ?w n" "length root + length (join_names ?w ns) < 2 ^ 63"
      using that assms(6) by auto
    then obtain c r where c: "join_names ?w ns = c # r" using join_nonempty [OF ns(2,1)] by (cases "join_names ?w ns") auto
    have "strip_prefix (word_of_nat (length (root @ [c]))) ((root @ [c]) @ r) = Ret r"
      using assms(3) ns(3) c by (intro strip_prefix_ok) simp_all
    then show ?thesis using entry_string_trailing [OF assms(1,2) ns(1,2)] c by (simp add: Copy_prefixes_def Let_def)
  qed
  define u where "u = ?s"
  have u: "filesinput u = map (entry_string ?w root) nss" "\<not> flag (IFilesSet u)" "payload (IFilesSet u) = payload (IFilesSet s)"
    using assms(4,5) by (simp_all add: u_def Copy_prefixes_def Let_def)
  have eq: "u = u\<lparr>IFilesSet := \<lparr>flag = False, payload = payload (IFilesSet u)\<rparr>\<rparr>"
    using u(2) by (cases "IFilesSet u") simp
  have "Helper_IFiles u = Ret (u\<lparr>IFilesSet := \<lparr>flag = False, payload = payload (IFilesSet u) @ map (\<lambda>ns. tl (join_names ?w ns)) nss\<rparr>\<rparr>)"
    unfolding Helper_IFiles_def u(1) using eq
      ofold_field [where mk = "\<lambda>q. u\<lparr>IFilesSet := \<lparr>flag = False, payload = q\<rparr>\<rparr>"
        and ins = "\<lambda>ns q. q @ [tl (join_names ?w ns)]" and xs = nss and A = "payload (IFilesSet u)"
        and h = "entry_string ?w root"]
    by (simp add: fold_append_map strip [folded u_def] dq_push_back_def lock_simps)
  then show ?thesis using u(3) by (simp add: u_def)
qed

section \<open>Examples\<close>

lemma sorted_iterates: "iterates sorted_list_of_set"
  by (simp add: iterates_def)

lemmas path_defs = resolve_def comps_def is_sep_def is_absolute_def walk_def node_at_def valid_name_def
  strict_prefix_def preferred_separator_def

lemma example_fields:
  "resolve example_fs ''/in'' = [''in'']" "resolve example_fs ''/out'' = [''out'']" "windows example_fs = False"
  by (simp_all add: example_fs_def path_defs)

lemma example_ready: "sync_ready example_fs ''/in'' ''/out''"
proof -
  have "wf_fs example_fs" by (simp add: example_fs_def wf_fs_def path_defs)
  moreover have "good_root example_fs ''/in''" "good_root example_fs ''/out''"
    unfolding good_root_def short_names_def example_fields by (simp_all add: example_fs_def path_defs)
  moreover have "compatible example_fs ''/in'' ''/out''"
    unfolding compatible_def example_fields by (simp add: example_fs_def path_defs)
  moreover have "short_names example_fs ''/out'' ''/in''" "denied example_fs = []"
    unfolding short_names_def example_fields by (simp_all add: example_fs_def path_defs)
  ultimately show ?thesis by (simp add: sync_ready_def example_fields)
qed

lemma example_nested: "nothing_nested example_fs ''/in'' ''/out''"
  unfolding nothing_nested_def example_fields by (simp add: example_fs_def path_defs)

lemma example_nodes:
  "synced example_fs ''/in'' ''/out'' False False False [''out'', ''a''] = Some (File (FileTime 100) ''xx'')"
  "synced example_fs ''/in'' ''/out'' False False False [''out'', ''b''] = Some (File (FileTime 3) ''zz'')"
  unfolding synced_def example_fields by (simp_all add: example_fs_def path_defs less_file_time_def)

lemma example_to_copy: "to_copy example_fs ''/in'' ''/out'' False False = [[''a'']]"
  unfolding to_copy_def file_names_def names_below_def example_fields
  by (simp add: example_fs_def path_defs less_file_time_def)

theorem Copy_synchronises_witness:
  "\<exists>t fs'. Copy sorted_list_of_set ''/in'' ''/out'' False False False False 2 (new_functions, example_fs) = Ret (t, fs') \<and>
    filesCopied t = filesToCopy t \<and> node_at fs' [''out'', ''a''] = Some (File (FileTime 100) ''xx'') \<and>
    node_at fs' [''out'', ''b''] = Some (File (FileTime 3) ''zz'')"
proof -
  have "(0::int) < 2" by simp
  from Copy_synchronises [OF example_ready sorted_iterates this, of False False False] show ?thesis
    using example_nodes by metis
qed


theorem Copy_delete_keeps_unmatched_files_witness:
  "\<exists>t fs'. Copy sorted_list_of_set ''/in'' ''/out'' True False False False 2 (new_functions, example_fs) = Ret (t, fs') \<and>
    node_at fs' [''out'', ''c''] = Some (File (FileTime 2) ''q'')"
proof -
  have f: "node_at example_fs (resolve example_fs ''/out'' @ [''c'']) = Some (File (FileTime 2) ''q'')"
    "node_at example_fs (resolve example_fs ''/in'' @ [''c'']) = None"
    "node_at example_fs (resolve example_fs ''/in'' @ butlast [''c'']) = Some Dir"
    unfolding example_fields by (simp_all add: example_fs_def node_at_def)
  have "(0::int) < 2" "[''c''] \<noteq> []" by simp_all
  from Copy_delete_keeps_unmatched_files [OF example_ready sorted_iterates this(1) example_nested this(2) f, of False False False]
  show ?thesis by (simp add: example_fields)
qed

theorem Copy_without_workers_witness:
  "\<exists>t fs'. Copy sorted_list_of_set ''/in'' ''/out'' False False False False 0 (new_functions, example_fs) = Ret (t, fs') \<and>
    IsFinished t \<and> filesCopied t = 0 \<and> payload (copyQueue t) = [''a'']"
  using Copy_without_workers [OF example_ready sorted_iterates, of 0 False False False]
  by (auto simp: example_to_copy)


theorem trailing_separator_strips_witness:
  "\<exists>t. Helper_IFiles (fst (Copy_prefixes ''/in/'' ''/out'' (new_functions\<lparr>filesinput := [''/in/ab'']\<rparr>, example_fs))) = Ret t \<and>
    payload (IFilesSet t) = [''b'']"
proof -
  have "filesinput (new_functions\<lparr>filesinput := [''/in/ab'']\<rparr>) = map (entry_string (windows example_fs) ''/in/'') [[''ab'']]"
    by (simp add: entry_string_def path_append_def is_sep_def)
  from trailing_separator_strips [OF _ _ _ this, of "''/out''"] show ?thesis
    by (simp add: example_fields new_functions_def dq_ctor_def fresh_deque_def guarded_free valid_name_def is_sep_def)
qed

end
