(* ===== verification/SyncThreads.thy ===== *)
theory SyncThreads
  imports SyncResult "HOL-Library.Multiset"
begin

text \<open>
  The threaded part of \<open>Copy\<close>: four sorters, any number of workers and the main thread, interleaved
  in every possible way. One step of a thread is one call on a shared queue, or the processing of
  one item; that the calls on a queue are atomic is the theorem of \<open>Spinlock\<close> and \<open>TsDeque\<close>. The
  three reads of the worker's loop condition are three steps.
\<close>

section \<open>The threads\<close>

datatype sorter_pc = S_guard | S_pop | S_sort string | S_done

text \<open>\<open>Helper_SortFiles\<close>, one call at a time.\<close>

fun sorter_act :: "sorter_pc \<Rightarrow> world \<Rightarrow> (sorter_pc \<times> world) outcome" where
  "sorter_act S_guard w = obind (SortFiles_guard w) (\<lambda>go. Ret (if go then S_pop else S_done, w))"
| "sorter_act S_pop (s, fs) =
     (case dq_get_pop_front (IFilesSet s) of
        (Ret file, q) \<Rightarrow> Ret (S_sort file, (s\<lparr>IFilesSet := q\<rparr>, fs))
      | (Throw e, q) \<Rightarrow> Ret (S_guard, (s\<lparr>IFilesSet := q\<rparr>, fs))
      | (Undef, q) \<Rightarrow> Undef
      | (Diverge, q) \<Rightarrow> Diverge)"
| "sorter_act (S_sort file) w = obind (catch_all (sort_file file w) w) (\<lambda>w'. Ret (S_guard, w'))"
| "sorter_act S_done w = Ret (S_done, w)"

datatype worker_pc =
  W_done | W_copyq | W_delq | W_pop | W_copy string | W_popd | W_delete string | W_exit

text \<open>\<open>DoStuff\<close>, one call at a time.\<close>

fun worker_act :: "worker_pc \<Rightarrow> world \<Rightarrow> (worker_pc \<times> world) outcome" where
  "worker_act W_done w = Ret (if doneStuff (fst w) then W_copyq else W_pop, w)"
| "worker_act W_copyq w = obind (fst (dq_empty (copyQueue (fst w)))) (\<lambda>e. Ret (if e then W_delq else W_pop, w))"
| "worker_act W_delq w = obind (fst (dq_empty (deleteQueue (fst w)))) (\<lambda>e. Ret (if e then W_exit else W_pop, w))"
| "worker_act W_pop (s, fs) =
     (case dq_get_pop_front (copyQueue s) of
        (Ret copy, q) \<Rightarrow> Ret (W_copy copy, (s\<lparr>copyQueue := q\<rparr>, fs))
      | (Throw e, q) \<Rightarrow> Ret (W_popd, (s\<lparr>copyQueue := q\<rparr>, fs))
      | (Undef, q) \<Rightarrow> Undef
      | (Diverge, q) \<Rightarrow> Diverge)"
| "worker_act (W_copy copy) w = obind (catch_all (do_copy copy w) w) (\<lambda>w'. Ret (W_popd, w'))"
| "worker_act W_popd (s, fs) =
     (case dq_get_pop_front (deleteQueue s) of
        (Ret del, q) \<Rightarrow> Ret (W_delete del, (s\<lparr>deleteQueue := q\<rparr>, fs))
      | (Throw e, q) \<Rightarrow> Ret (W_done, (s\<lparr>deleteQueue := q\<rparr>, fs))
      | (Undef, q) \<Rightarrow> Undef
      | (Diverge, q) \<Rightarrow> Diverge)"
| "worker_act (W_delete del) w = obind (catch_all (do_delete del w) w) (\<lambda>w'. Ret (W_done, w'))"
| "worker_act W_exit w = Ret (W_exit, w)"

text \<open>
  The main thread: it waits for the sorters, queues the deletions, sets the done flag and waits for
  the workers.
\<close>

datatype main_pc = M_sort | M_delete "string list" | M_signal | M_join | M_end

record par_sys =
  par_world :: world
  sorters :: "sorter_pc list"
  workers :: "worker_pc list"
  main :: main_pc
  sorted_log :: "string list"
  copied_log :: "string list"

definition par_start :: "nat \<Rightarrow> world \<Rightarrow> par_sys" where
  "par_start processors w =
     \<lparr>par_world = w, sorters = replicate 4 S_guard, workers = replicate processors W_done, main = M_sort,
      sorted_log = [], copied_log = []\<rparr>"

fun sorting :: "sorter_pc \<Rightarrow> string list" where
  "sorting (S_sort file) = [file]"
| "sorting _ = []"

fun copying :: "worker_pc \<Rightarrow> string list" where
  "copying (W_copy file) = [file]"
| "copying _ = []"

fun deleting :: "worker_pc \<Rightarrow> string list" where
  "deleting (W_delete file) = [file]"
| "deleting _ = []"

inductive par_step :: "(string set \<Rightarrow> string list) \<Rightarrow> bool \<Rightarrow> par_sys \<Rightarrow> par_sys \<Rightarrow> bool"
  for iter :: "string set \<Rightarrow> string list" and deletewithoutmatch :: bool where
  step_sorter: "i < length (sorters p) \<Longrightarrow> sorter_act (sorters p ! i) (par_world p) = Ret (pc, w) \<Longrightarrow>
    par_step iter deletewithoutmatch p
      (p\<lparr>par_world := w, sorters := (sorters p)[i := pc], sorted_log := sorted_log p @ sorting (sorters p ! i)\<rparr>)"
| step_worker: "i < length (workers p) \<Longrightarrow> worker_act (workers p ! i) (par_world p) = Ret (pc, w) \<Longrightarrow>
    par_step iter deletewithoutmatch p
      (p\<lparr>par_world := w, workers := (workers p)[i := pc], copied_log := copied_log p @ copying (workers p ! i)\<rparr>)"
| step_sorted: "main p = M_sort \<Longrightarrow> \<forall>pc \<in> set (sorters p). pc = S_done \<Longrightarrow>
    par_step iter deletewithoutmatch p
      (p\<lparr>main := (if deletewithoutmatch then M_delete (iter (OFilesSet (fst (par_world p)))) else M_signal)\<rparr>)"
| step_delete: "main p = M_delete (file # files) \<Longrightarrow> par_world p = (s, fs) \<Longrightarrow>
    dq_push_back (outputPrefix s @ file) (deleteQueue s) = (Ret (), q) \<Longrightarrow>
    par_step iter deletewithoutmatch p
      (p\<lparr>main := M_delete files, par_world := (s\<lparr>deleteQueue := q, cdeleted := cdeleted s + 1\<rparr>, fs)\<rparr>)"
| step_deleted: "main p = M_delete [] \<Longrightarrow> par_step iter deletewithoutmatch p (p\<lparr>main := M_signal\<rparr>)"
| step_signal: "main p = M_signal \<Longrightarrow> par_world p = (s, fs) \<Longrightarrow>
    par_step iter deletewithoutmatch p (p\<lparr>main := M_join, par_world := (s\<lparr>doneStuff := True\<rparr>, fs)\<rparr>)"
| step_join: "main p = M_join \<Longrightarrow> par_world p = (s, fs) \<Longrightarrow> \<forall>pc \<in> set (workers p). pc = W_exit \<Longrightarrow>
    par_step iter deletewithoutmatch p
      (p\<lparr>main := M_end, par_world := (s\<lparr>threads := 0, activeCopy := False\<rparr>, fs)\<rparr>)"

inductive par_reach :: "(string set \<Rightarrow> string list) \<Rightarrow> bool \<Rightarrow> par_sys \<Rightarrow> par_sys \<Rightarrow> bool"
  for iter :: "string set \<Rightarrow> string list" and deletewithoutmatch :: bool and p0 :: par_sys where
  par_refl: "par_reach iter deletewithoutmatch p0 p0"
| par_more: "par_reach iter deletewithoutmatch p0 p \<Longrightarrow> par_step iter deletewithoutmatch p p' \<Longrightarrow>
    par_reach iter deletewithoutmatch p0 p'"

inductive_cases par_stepE [consumes 1, case_names step_sorter step_worker step_sorted step_delete
    step_deleted step_signal step_join]: "par_step iter deletewithoutmatch p p'"

section \<open>Threads alone\<close>

text \<open>
  Left alone, a thread does what its loop does: the worker's steps between two readings of the done
  flag are one iteration of \<open>DoStuff\<close>, the sorter's between two guards one of \<open>Helper_SortFiles\<close>.
\<close>

fun worker_run :: "nat \<Rightarrow> worker_pc \<times> world \<Rightarrow> (worker_pc \<times> world) outcome" where
  "worker_run 0 x = Ret x"
| "worker_run (Suc n) (pc, w) = obind (worker_act pc w) (worker_run n)"

lemma worker_alone_body:
  assumes "unlocked (fst w)" "DoStuff_body w = Ret w'"
  shows "\<exists>n \<le> 4. worker_run n (W_pop, w) = Ret (W_done, w')"
proof -
  obtain s fs where w: "w = (s, fs)" by (cases w)
  let ?w1 = "work_copy (head_of (payload (copyQueue s))) w"
  have body: "w' = work_delete (head_of (payload (deleteQueue (fst ?w1)))) ?w1"
    using assms w by (simp add: DoStuff_body_def DoStuff_copy_step DoStuff_delete_step)
  have u1: "unlocked (fst ?w1)" using assms(1) w by simp
  have copy: "\<exists>n \<le> 2. worker_run n (W_pop, w) = Ret (W_popd, ?w1)"
  proof (cases "payload (copyQueue s)")
    case Nil
    then show ?thesis using assms(1) w
      by (intro exI [of _ 1]) (simp add: dq_get_pop_front_def guarded_free unlocked_def work_copy_def head_of_def)
  next
    case (Cons c cs)
    then have "s\<lparr>copyQueue := copyQueue s\<lparr>payload := cs\<rparr>\<rparr> = drop_copy s" by (simp add: drop_copy_def)
    with Cons show ?thesis using assms(1) w
      by (intro exI [of _ 2]) (simp add: numeral_2_eq_2 dq_get_pop_front_def guarded_free unlocked_def [of s]
          work_copy_def head_of_def do_copy_unlocked catch_all_def)
  qed
  have del: "\<exists>n \<le> 2. worker_run n (W_popd, ?w1) = Ret (W_done, w')"
  proof -
    obtain s1 fs1 where w1: "?w1 = (s1, fs1)" by (cases ?w1)
    then have u1: "unlocked s1" using u1 by (metis fst_conv)
    show ?thesis
    proof (cases "payload (deleteQueue s1)")
      case Nil
      then show ?thesis using u1 w1 body
        by (intro exI [of _ 1]) (simp add: dq_get_pop_front_def guarded_free unlocked_def work_delete_def head_of_def)
    next
      case (Cons c cs)
      then have "s1\<lparr>deleteQueue := deleteQueue s1\<lparr>payload := cs\<rparr>\<rparr> = drop_delete s1" by (simp add: drop_delete_def)
      with Cons show ?thesis using u1 w1 body
        by (intro exI [of _ 2]) (simp add: numeral_2_eq_2 dq_get_pop_front_def guarded_free unlocked_def [of s1]
            work_delete_def head_of_def do_delete_unlocked catch_all_def)
    qed
  qed
  have add: "worker_run m x = Ret y \<Longrightarrow> worker_run n y = Ret z \<Longrightarrow> worker_run (m + n) x = Ret z" for m n x y z
    by (induction m arbitrary: x) (auto simp: obind_eq_Ret split_paired_all)
  show ?thesis using copy del add by (metis add_mono_thms_linordered_semiring(1) numeral_Bit0)
qed

section \<open>The invariant\<close>

text \<open>What the threads hold between taking an item and finishing with it.\<close>

definition held :: "('pc \<Rightarrow> string list) \<Rightarrow> 'pc list \<Rightarrow> string multiset" where
  "held h ths = sum_list (map (\<lambda>pc. mset (h pc)) ths)"

lemma held_update: "i < length ths \<Longrightarrow> held h (ths[i := pc]) + mset (h (ths ! i)) = held h ths + mset (h pc)"
proof (induction ths arbitrary: i)
  case (Cons x ths)
  then show ?case by (cases i) (auto simp: held_def ac_simps)
qed simp

lemma held_none: "\<forall>pc \<in> set ths. h pc = [] \<Longrightarrow> held h ths = {#}"
  by (induction ths) (auto simp: held_def)

lemma held_member: "x \<in># held h ths \<longleftrightarrow> (\<exists>pc \<in> set ths. x \<in> set (h pc))"
  by (induction ths) (auto simp: held_def)

text \<open>The task: the file system before the run and after the directories, and the parameters.\<close>

record task =
  tfs :: fs
  tfs3 :: fs
  tinp :: string
  tout :: string
  tow :: bool
  tforce :: bool
  tmove :: bool
  tdel :: bool

definition task_ok :: "task \<Rightarrow> bool" where
  "task_ok k \<longleftrightarrow> sync_ready (tfs k) (tinp k) (tout k) \<and> after_dirs (tfs k) (tinp k) (tout k) (tfs3 k) \<and>
     (tdel k \<longrightarrow> nothing_nested (tfs k) (tinp k) (tout k))"

definition all_rel :: "task \<Rightarrow> string list" where
  "all_rel k = map (rel_name (tfs k)) (file_names (tfs k) (tinp k))"

definition out_rel :: "task \<Rightarrow> string set" where
  "out_rel k = rel_name (tfs k) ` set (file_names (tfs k) (tout k))"

definition names_of :: "task \<Rightarrow> string list \<Rightarrow> path set" where
  "names_of k l = {ns \<in> set (file_names (tfs k) (tinp k)). rel_name (tfs k) ns \<in> set l}"

definition rel_wanted :: "task \<Rightarrow> string \<Rightarrow> bool" where
  "rel_wanted k f \<longleftrightarrow> f \<in> rel_name (tfs k) ` wanted_files (tfs k) (tinp k) (tout k) (tow k) (tforce k)"

definition inv_state :: "task \<Rightarrow> sync_state \<Rightarrow> bool" where
  "inv_state k s \<longleftrightarrow> unlocked s \<and> inputPrefix s = prefix_of (tfs k) (tinp k) \<and>
     outputPrefix s = prefix_of (tfs k) (tout k) \<and> overwrite_flag s = tow k \<and> force_flag s = tforce k \<and>
     move_flag s = tmove k \<and> payload (errors s) = []"

definition inv_files :: "task \<Rightarrow> par_sys \<Rightarrow> bool" where
  "inv_files k p \<longleftrightarrow>
     (let s = fst (par_world p) in
      mset (payload (IFilesSet s)) + held sorting (sorters p) + mset (sorted_log p) = mset (all_rel k) \<and>
      mset (payload (copyQueue s)) + held copying (workers p) + mset (copied_log p) =
        filter_mset (rel_wanted k) (mset (sorted_log p)) \<and>
      OFilesSet s = out_rel k - set (sorted_log p) \<and>
      filesToCopy s = word_of_nat (size (filter_mset (rel_wanted k) (mset (sorted_log p)))) \<and>
      filesCopied s = word_of_nat (length (copied_log p)))"

definition inv_fs :: "task \<Rightarrow> par_sys \<Rightarrow> bool" where
  "inv_fs k p \<longleftrightarrow> after_copies (tfs3 k) (resolve (tfs k) (tinp k)) (resolve (tfs k) (tout k)) (tmove k)
     (names_of k (copied_log p)) (snd (par_world p))"

definition is_doomed :: "task \<Rightarrow> string \<Rightarrow> bool" where
  "is_doomed k f \<longleftrightarrow> nothing_nested (tfs k) (tinp k) (tout k) \<and>
     (\<exists>ns. (\<forall>n \<in> set ns. valid_name (windows (tfs k)) n) \<and> f = prefix_of (tfs k) (tout k) @ rel_name (tfs k) ns)"

definition inv_delete :: "task \<Rightarrow> par_sys \<Rightarrow> bool" where
  "inv_delete k p \<longleftrightarrow>
     (\<forall>f \<in> set (payload (deleteQueue (fst (par_world p)))). is_doomed k f) \<and>
     (\<forall>pc \<in> set (workers p). \<forall>f \<in> set (deleting pc). is_doomed k f) \<and>
     (\<forall>files. main p = M_delete files \<longrightarrow>
        (\<forall>f \<in> set files. is_doomed k (prefix_of (tfs k) (tout k) @ f)))"

definition inv_control :: "par_sys \<Rightarrow> bool" where
  "inv_control p \<longleftrightarrow>
     (let s = fst (par_world p) in
      (S_done \<in> set (sorters p) \<longrightarrow> payload (IFilesSet s) = []) \<and>
      (main p \<noteq> M_sort \<longrightarrow> set (sorters p) \<subseteq> {S_done}) \<and>
      (doneStuff s \<longleftrightarrow> main p = M_join \<or> main p = M_end) \<and>
      (\<forall>pc \<in> set (workers p).
         (pc \<in> {W_copyq, W_delq, W_exit} \<longrightarrow> doneStuff s) \<and>
         (pc \<in> {W_delq, W_exit} \<longrightarrow> payload (copyQueue s) = []) \<and>
         (pc = W_exit \<longrightarrow> payload (deleteQueue s) = [])) \<and>
      (main p = M_end \<longrightarrow> set (workers p) \<subseteq> {W_exit}))"

text \<open>In-flight work of a single thread.\<close>

lemma held_take:
  "i < length ths \<Longrightarrow> h (ths ! i) = [] \<Longrightarrow> h pc = [f] \<Longrightarrow> held h (ths[i := pc]) = add_mset f (held h ths)"
  using held_update [of i ths h pc] by simp

lemma held_finish:
  "i < length ths \<Longrightarrow> h (ths ! i) = [f] \<Longrightarrow> h pc = [] \<Longrightarrow> held h ths = add_mset f (held h (ths[i := pc]))"
  using held_update [of i ths h pc] by simp

lemma held_keep:
  "i < length ths \<Longrightarrow> h (ths ! i) = [] \<Longrightarrow> h pc = [] \<Longrightarrow> held h (ths[i := pc]) = held h ths"
  using held_update [of i ths h pc] by simp

section \<open>What one step does\<close>

lemma pop_front_cases:
  assumes "\<not> flag q"
  shows "dq_get_pop_front q = (case payload q of [] \<Rightarrow> (Throw Out_of_range, q) | x # xs \<Rightarrow> (Ret x, q\<lparr>payload := xs\<rparr>))"
  using assms by (cases q) (simp add: dq_get_pop_front_def guarded_free split: list.split)

lemma same_queues [simp]:
  "s\<lparr>IFilesSet := IFilesSet s\<rparr> = s" "s\<lparr>copyQueue := copyQueue s\<rparr> = s" "s\<lparr>deleteQueue := deleteQueue s\<rparr> = s"
  by simp_all

definition judged :: "string \<Rightarrow> world \<Rightarrow> world" where
  "judged f w =
     (case copy_wanted (fst w) (snd w) f of
        None \<Rightarrow> w
      | Some go \<Rightarrow> apfst (matched f) (if go then queued f w else w))"

lemma sorter_cases:
  assumes "sorter_act pc0 (s, fs) = Ret (pc, w)" "unlocked s"
  obtains
    (guard) "pc0 = S_guard" "pc = (if payload (IFilesSet s) = [] then S_done else S_pop)" "w = (s, fs)"
  | (empty) "pc0 = S_pop" "payload (IFilesSet s) = []" "pc = S_guard" "w = (s, fs)"
  | (pop) f r where "pc0 = S_pop" "payload (IFilesSet s) = f # r" "pc = S_sort f" "w = (drop_ifile s, fs)"
  | (sort) f where "pc0 = S_sort f" "pc = S_guard" "w = judged f (s, fs)"
  | (stop) "pc0 = S_done" "pc = S_done" "w = (s, fs)"
proof (cases pc0)
  case S_guard
  then show thesis using assms guard
    by (simp add: SortFiles_guard_def dq_size_def guarded_free unlocked_def split: if_splits)
next
  case S_pop
  have u: "\<not> flag (IFilesSet s)" using assms(2) by (simp add: unlocked_def)
  show thesis
  proof (cases "payload (IFilesSet s)")
    case Nil
    then show thesis using S_pop assms(1) empty by (simp add: pop_front_cases [OF u])
  next
    case (Cons f r)
    then have "w = (drop_ifile s, fs)" "pc = S_sort f"
      using S_pop assms(1) by (simp_all add: pop_front_cases [OF u] drop_ifile_def)
    then show thesis using S_pop Cons pop by blast
  qed
next
  case (S_sort f)
  have "catch_all (sort_file f (s, fs)) (s, fs) = Ret (judged f (s, fs))"
    by (simp add: sort_file_unlocked [OF assms(2)] catch_all_def judged_def split: option.split)
  then show thesis using S_sort assms(1) sort by simp
qed (use assms stop in simp)

lemma worker_cases:
  assumes "worker_act pc0 (s, fs) = Ret (pc, w)" "unlocked s"
  obtains
    (test) "pc0 = W_done" "pc = (if doneStuff s then W_copyq else W_pop)" "w = (s, fs)"
  | (copyq) "pc0 = W_copyq" "pc = (if payload (copyQueue s) = [] then W_delq else W_pop)" "w = (s, fs)"
  | (delq) "pc0 = W_delq" "pc = (if payload (deleteQueue s) = [] then W_exit else W_pop)" "w = (s, fs)"
  | (empty) "pc0 = W_pop" "payload (copyQueue s) = []" "pc = W_popd" "w = (s, fs)"
  | (pop) f r where "pc0 = W_pop" "payload (copyQueue s) = f # r" "pc = W_copy f" "w = (drop_copy s, fs)"
  | (copy) f where "pc0 = W_copy f" "pc = W_popd" "w = copied f (s, fs)"
  | (emptyd) "pc0 = W_popd" "payload (deleteQueue s) = []" "pc = W_done" "w = (s, fs)"
  | (popd) f r where "pc0 = W_popd" "payload (deleteQueue s) = f # r" "pc = W_delete f" "w = (drop_delete s, fs)"
  | (delete) f where "pc0 = W_delete f" "pc = W_done" "w = deleted f (s, fs)"
  | (exit) "pc0 = W_exit" "pc = W_exit" "w = (s, fs)"
proof (cases pc0)
  case W_done
  then show thesis using assms test by simp
next
  case W_copyq
  then show thesis using assms copyq by (simp add: dq_empty_def guarded_free unlocked_def)
next
  case W_delq
  then show thesis using assms delq by (simp add: dq_empty_def guarded_free unlocked_def)
next
  case W_pop
  have u: "\<not> flag (copyQueue s)" using assms(2) by (simp add: unlocked_def)
  show thesis
  proof (cases "payload (copyQueue s)")
    case Nil
    then show thesis using W_pop assms(1) empty by (simp add: pop_front_cases [OF u])
  next
    case (Cons f r)
    then have "w = (drop_copy s, fs)" "pc = W_copy f"
      using W_pop assms(1) by (simp_all add: pop_front_cases [OF u] drop_copy_def)
    then show thesis using W_pop Cons pop by blast
  qed
next
  case (W_copy f)
  then show thesis using assms copy by (simp add: do_copy_unlocked catch_all_def)
next
  case W_popd
  have u: "\<not> flag (deleteQueue s)" using assms(2) by (simp add: unlocked_def)
  show thesis
  proof (cases "payload (deleteQueue s)")
    case Nil
    then show thesis using W_popd assms(1) emptyd by (simp add: pop_front_cases [OF u])
  next
    case (Cons f r)
    then have "w = (drop_delete s, fs)" "pc = W_delete f"
      using W_popd assms(1) by (simp_all add: pop_front_cases [OF u] drop_delete_def)
    then show thesis using W_popd Cons popd by blast
  qed
next
  case (W_delete f)
  then show thesis using assms delete by (simp add: do_delete_unlocked catch_all_def)
next
  case W_exit
  then show thesis using assms exit by simp
qed

section \<open>Sorting and copying one file\<close>

lemma task_facts:
  assumes "task_ok k"
  shows "sync_ready (tfs k) (tinp k) (tout k)" "after_dirs (tfs k) (tinp k) (tout k) (tfs3 k)"
    "wf_fs (tfs k)" "denied (tfs k) = []" "good_root (tfs k) (tinp k)" "good_root (tfs k) (tout k)"
    "\<not> prefix (resolve (tfs k) (tinp k)) (resolve (tfs k) (tout k))"
    "\<not> prefix (resolve (tfs k) (tout k)) (resolve (tfs k) (tinp k))"
  using assms by (simp_all add: task_ok_def sync_ready_def)

lemma rel_name_eq:
  assumes "task_ok k" "ns \<in> set (file_names (tfs k) r)" "ms \<in> set (file_names (tfs k) r')"
  shows "rel_name (tfs k) ns = rel_name (tfs k) ms \<longleftrightarrow> ns = ms"
  using rel_name_inj names_valid [OF task_facts(3) [OF assms(1)]] assms(2,3) by blast

lemma distinct_all_rel: "task_ok k \<Longrightarrow> distinct (all_rel k)"
  using distinct_names_below [OF task_facts(3)] rel_name_eq
  by (auto simp: all_rel_def distinct_map inj_on_def file_names_def)

lemma rel_wanted_iff:
  assumes "task_ok k" "ns \<in> set (file_names (tfs k) (tinp k))"
  shows "rel_wanted k (rel_name (tfs k) ns) \<longleftrightarrow>
    selected (tow k) (tforce k) (node_at (tfs k) (resolve (tfs k) (tinp k) @ ns)) (node_at (tfs k) (resolve (tfs k) (tout k) @ ns))"
  using assms rel_name_eq [OF assms(1)] by (auto simp: rel_wanted_def wanted_files_def to_copy_def)

lemma names_of_snoc:
  assumes "task_ok k" "ns \<in> set (file_names (tfs k) (tinp k))"
  shows "names_of k (l @ [rel_name (tfs k) ns]) = insert ns (names_of k l)"
  using assms rel_name_eq [OF assms(1)] by (auto simp: names_of_def)

lemma copy_wanted_fs_cong:
  assumes "same_env fs fs'"
    "node_at fs' (resolve fs (inputPrefix s @ f)) = node_at fs (resolve fs (inputPrefix s @ f))"
    "node_at fs' (resolve fs (outputPrefix s @ f)) = node_at fs (resolve fs (outputPrefix s @ f))"
  shows "copy_wanted s fs' f = copy_wanted s fs f"
proof -
  have r: "resolve fs' = resolve fs" "denied fs' = denied fs" "clock fs' = clock fs"
    using assms(1) same_env_resolve [OF assms(1)] by (simp_all add: same_env_def)
  have "last_write_time_ec fs' (inputPrefix s @ f) = last_write_time_ec fs (inputPrefix s @ f)"
    "last_write_time_ec fs' (outputPrefix s @ f) = last_write_time_ec fs (outputPrefix s @ f)"
    "file_size fs' (inputPrefix s @ f) = file_size fs (inputPrefix s @ f)"
    "file_size fs' (outputPrefix s @ f) = file_size fs (outputPrefix s @ f)"
    unfolding last_write_time_ec_def file_size_def size_at_def Let_def r assms(2,3) by simp_all
  then show ?thesis unfolding copy_wanted_def by (simp only:)
qed

lemma copy_wanted_now:
  assumes k: "task_ok k" and s: "inv_state k s"
    and ac: "after_copies (tfs3 k) (resolve (tfs k) (tinp k)) (resolve (tfs k) (tout k)) (tmove k) ds fs1"
    and ns: "ns \<in> set (file_names (tfs k) (tinp k))" "ns \<notin> ds" and ds: "[] \<notin> ds"
    and o: "rel_name (tfs k) ns \<in> OFilesSet s \<longleftrightarrow> rel_name (tfs k) ns \<in> out_rel k"
  shows "copy_wanted s fs1 (rel_name (tfs k) ns) = Some (rel_wanted k (rel_name (tfs k) ns))"
proof -
  let ?fs = "tfs k" and ?t = "s\<lparr>OFilesSet := out_rel k\<rparr>"
  note facts = task_facts [OF k]
  have val: "\<forall>n \<in> set ns. valid_name (windows ?fs) n" using names_valid [OF facts(3)] ns(1) by blast
  have e: "same_env (tfs3 k) fs1" "same_env ?fs (tfs3 k)" using ac facts(2) by (simp_all add: after_copies_def after_dirs_def)
  have pre: "inputPrefix s = prefix_of ?fs (tinp k)" "outputPrefix s = prefix_of ?fs (tout k)" using s by (simp_all add: inv_state_def)
  have res: "resolve (tfs3 k) (inputPrefix s @ rel_name ?fs ns) = resolve ?fs (tinp k) @ ns"
    "resolve (tfs3 k) (outputPrefix s @ rel_name ?fs ns) = resolve ?fs (tout k) @ ns"
    using resolve_prefix_of [OF _ val] facts(5,6) pre same_env_resolve [OF e(2)] by simp_all
  have "copy_wanted s fs1 (rel_name ?fs ns) = copy_wanted s (tfs3 k) (rel_name ?fs ns)"
    using after_copiesD [OF ac facts(7,8) ds] ns(2) by (intro copy_wanted_fs_cong [OF e(1)]) (simp_all add: res)
  also have "\<dots> = copy_wanted ?t (tfs3 k) (rel_name ?fs ns)"
    using o by (intro copy_wanted_cong) simp_all
  also have "\<dots> = Some (selected (tow k) (tforce k) (node_at ?fs (resolve ?fs (tinp k) @ ns)) (node_at ?fs (resolve ?fs (tout k) @ ns)))"
    using copy_wanted_selected [OF facts(1,2) ns(1), of ?t] pre s by (simp add: out_rel_def inv_state_def)
  finally show ?thesis using rel_wanted_iff [OF k ns(1)] by simp
qed

lemma copied_now:
  assumes k: "task_ok k" and s: "inv_state k s"
    and ac: "after_copies (tfs3 k) (resolve (tfs k) (tinp k)) (resolve (tfs k) (tout k)) (tmove k) ds fs1"
    and ns: "ns \<in> set (file_names (tfs k) (tinp k))" "ns \<notin> ds" and ds: "ds \<subseteq> set (file_names (tfs k) (tinp k))"
  shows "\<exists>b fs2. copied (rel_name (tfs k) ns) (s, fs1) =
      (s\<lparr>filesCopied := filesCopied s + 1, bytesCopied := b\<rparr>, fs2) \<and>
    after_copies (tfs3 k) (resolve (tfs k) (tinp k)) (resolve (tfs k) (tout k)) (tmove k) (insert ns ds) fs2"
proof -
  let ?f = "rel_name (tfs k) ns"
  define u where "u = s\<lparr>copyQueue := (copyQueue s)\<lparr>payload := ?f # payload (copyQueue s)\<rparr>\<rparr>"
  have d: "drop_copy u = s" by (simp add: u_def drop_copy_def)
  have u: "move_flag u = tmove k" "inputPrefix u = prefix_of (tfs k) (tinp k)" "outputPrefix u = prefix_of (tfs k) (tout k)"
    using s by (simp_all add: u_def inv_state_def)
  obtain v fs2 where c: "work_copy (Some ?f) (u, fs1) = (v, fs2)" "kept_by_worker 1 u v"
    and ac2: "after_copies (tfs3 k) (resolve (tfs k) (tinp k)) (resolve (tfs k) (tout k)) (tmove k) (insert ns ds) fs2"
    using copy_item [OF task_facts(1,2) [OF k] _ ds ns u(2,3), of fs1] ac unfolding u(1) by blast
  then have c1: "copied ?f (s, fs1) = (v, fs2)" by (simp add: work_copy_def d)
  have "\<exists>b. v = s\<lparr>filesCopied := filesCopied s + 1, bytesCopied := b\<rparr>"
  proof (cases "transfer s fs1 ?f")
    case (Inl e)
    then have "length (payload (errors v)) = length (payload (errors s)) + 1"
      using c1 by (auto simp: copied_def pushed_error_def)
    then show ?thesis using c(2) by (simp add: kept_by_worker_def u_def)
  next
    case (Inr fs')
    then show ?thesis using c1 by (auto simp: copied_def)
  qed
  then show ?thesis using c1 ac2 by auto
qed

lemma deleted_now:
  assumes k: "task_ok k" and s: "inv_state k s"
    and ac: "after_copies (tfs3 k) (resolve (tfs k) (tinp k)) (resolve (tfs k) (tout k)) (tmove k) ds fs1"
    and ds: "ds \<subseteq> set (file_names (tfs k) (tinp k))" and g: "is_doomed k g"
  shows "deleted g (s, fs1) = (s\<lparr>cdeleted := cdeleted s + 1\<rparr>, fs1)"
proof -
  have "node_at fs1 (resolve fs1 (outputPrefix s @ g)) = None"
    using g nested_gone [OF task_facts(1,2) [OF k] _ ds ac] s by (auto simp: is_doomed_def inv_state_def)
  then show ?thesis by (simp add: deleted_def remove_at_def)
qed

section \<open>The invariant is kept\<close>

definition par_inv :: "task \<Rightarrow> par_sys \<Rightarrow> bool" where
  "par_inv k p \<longleftrightarrow> inv_state k (fst (par_world p)) \<and> inv_files k p \<and> inv_fs k p \<and> inv_delete k p \<and> inv_control p"

lemma in_flight:
  assumes "A + H + mset xs = mset ys" "distinct ys"
  shows "distinct xs" and "f \<in># A + H \<Longrightarrow> f \<in> set ys" and "f \<in># A + H \<Longrightarrow> f \<notin> set xs"
proof -
  obtain zs where zs: "A + H = mset zs" by (metis ex_mset)
  then have e: "mset (zs @ xs) = mset ys" using assms(1) by simp
  then have d: "distinct (zs @ xs)" using assms(2) mset_eq_imp_distinct_iff by blast
  then show "distinct xs" by simp
  have "set (zs @ xs) = set ys" using e by (rule mset_eq_setD)
  then show "f \<in># A + H \<Longrightarrow> f \<in> set ys" unfolding zs by auto
  show "f \<in># A + H \<Longrightarrow> f \<notin> set xs" unfolding zs using d by auto
qed

lemma sorting_held: "i < length ths \<Longrightarrow> f \<in> set (h (ths ! i)) \<Longrightarrow> f \<in># held h ths"
  using held_member by force

lemma sorting_one:
  assumes k: "task_ok k" and inv: "par_inv k p" and i: "i < length (sorters p)" "sorters p ! i = S_sort f"
    and w: "par_world p = (s, fs)"
  shows "f \<in> set (all_rel k)" "f \<notin> set (sorted_log p)" "copy_wanted s fs f = Some (rel_wanted k f)" "f \<noteq> []"
proof -
  have files: "mset (payload (IFilesSet s)) + held sorting (sorters p) + mset (sorted_log p) = mset (all_rel k)"
    "mset (payload (copyQueue s)) + held copying (workers p) + mset (copied_log p) =
        filter_mset (rel_wanted k) (mset (sorted_log p))" "OFilesSet s = out_rel k - set (sorted_log p)"
    using inv w by (simp_all add: par_inv_def inv_files_def Let_def)
  have "f \<in># held sorting (sorters p)" using i sorting_held [of i "sorters p" f sorting] by simp
  then have f: "f \<in> set (all_rel k)" "f \<notin> set (sorted_log p)"
    using in_flight(2,3) [OF files(1) distinct_all_rel [OF k], of f] by simp_all
  then show "f \<in> set (all_rel k)" "f \<notin> set (sorted_log p)" .
  from f(1) obtain ns where ns: "ns \<in> set (file_names (tfs k) (tinp k))" "f = rel_name (tfs k) ns"
    by (auto simp: all_rel_def)
  have "set (copied_log p) \<subseteq> set (sorted_log p)"
  proof
    fix x assume "x \<in> set (copied_log p)"
    then have "x \<in># filter_mset (rel_wanted k) (mset (sorted_log p))" unfolding files(2) [symmetric] by simp
    then show "x \<in> set (sorted_log p)" by simp
  qed
  then have "ns \<notin> names_of k (copied_log p)" "[] \<notin> names_of k (copied_log p)"
    using f(2) ns(2) by (auto simp: names_of_def file_names_iff [OF task_facts(3) [OF k]])
  then show "copy_wanted s fs f = Some (rel_wanted k f)"
    using copy_wanted_now [OF k _ _ ns(1), of s "names_of k (copied_log p)" fs] inv w f(2) files(3)
    by (simp add: par_inv_def inv_fs_def ns(2))
  have "\<forall>n \<in> set ns. valid_name (windows (tfs k)) n" "ns \<noteq> []"
    using names_valid [OF task_facts(3) [OF k], of ns "tinp k"] ns(1) by (simp_all add: file_names_iff [OF task_facts(3) [OF k]])
  then show "f \<noteq> []" using join_nonempty ns(2) by (simp add: rel_name_def)
qed

lemma copying_one:
  assumes k: "task_ok k" and inv: "par_inv k p" and i: "i < length (workers p)" "workers p ! i = W_copy f"
    and w: "par_world p = (s, fs)"
  obtains ns b fs2 where "ns \<in> set (file_names (tfs k) (tinp k))" "f = rel_name (tfs k) ns"
    "copied f (s, fs) = (s\<lparr>filesCopied := filesCopied s + 1, bytesCopied := b\<rparr>, fs2)"
    "after_copies (tfs3 k) (resolve (tfs k) (tinp k)) (resolve (tfs k) (tout k)) (tmove k)
       (insert ns (names_of k (copied_log p))) fs2"
proof -
  have files: "mset (payload (IFilesSet s)) + held sorting (sorters p) + mset (sorted_log p) = mset (all_rel k)"
    "mset (payload (copyQueue s)) + held copying (workers p) + mset (copied_log p) =
        filter_mset (rel_wanted k) (mset (sorted_log p))"
    using inv w by (simp_all add: par_inv_def inv_files_def Let_def)
  have "distinct (sorted_log p)" using in_flight(1) [OF files(1) distinct_all_rel [OF k]] .
  then have d: "distinct (filter (rel_wanted k) (sorted_log p))" by simp
  have e: "mset (payload (copyQueue s)) + held copying (workers p) + mset (copied_log p) =
      mset (filter (rel_wanted k) (sorted_log p))" using files(2) by simp
  have "f \<in># held copying (workers p)" using i sorting_held [of i "workers p" f copying] by simp
  then have f: "f \<in> set (sorted_log p)" "f \<notin> set (copied_log p)"
    using in_flight(2,3) [OF e d, of f] by simp_all
  have "set (sorted_log p) \<subseteq> set (all_rel k)"
    using mset_subset_eqD [of "mset (sorted_log p)" "mset (all_rel k)"] files(1) by (metis mset_subset_eq_add_right set_mset_mset subsetI)
  with f(1) obtain ns where ns: "ns \<in> set (file_names (tfs k) (tinp k))" "f = rel_name (tfs k) ns"
    by (auto simp: all_rel_def)
  then have "ns \<notin> names_of k (copied_log p)" using f(2) by (simp add: names_of_def)
  then obtain b fs2 where "copied f (s, fs) = (s\<lparr>filesCopied := filesCopied s + 1, bytesCopied := b\<rparr>, fs2)"
    "after_copies (tfs3 k) (resolve (tfs k) (tinp k)) (resolve (tfs k) (tout k)) (tmove k)
       (insert ns (names_of k (copied_log p))) fs2"
    using copied_now [OF k _ _ ns(1), of s "names_of k (copied_log p)" fs] inv w
    by (auto simp: par_inv_def inv_fs_def ns(2) names_of_def)
  with ns show thesis using that by blast
qed

lemma inv_state_updates:
  "inv_state k (drop_ifile s) = inv_state k s" "inv_state k (drop_copy s) = inv_state k s"
  "inv_state k (drop_delete s) = inv_state k s" "inv_state k (matched f s) = inv_state k s"
  "inv_state k (fst (queued f (s, fs))) = inv_state k s"
  "inv_state k (s\<lparr>filesCopied := n, bytesCopied := b\<rparr>) = inv_state k s"
  "inv_state k (s\<lparr>cdeleted := c\<rparr>) = inv_state k s"
  by (auto simp: inv_state_def unlocked_def drop_ifile_def drop_copy_def drop_delete_def matched_def queued_def)

lemma judged_now:
  assumes "copy_wanted s fs f = Some go" "f \<noteq> []"
  shows "judged f (s, fs) = (s\<lparr>OFilesSet := OFilesSet s - {f},
      copyQueue := (copyQueue s)\<lparr>payload := payload (copyQueue s) @ (if go then [f] else [])\<rparr>,
      bytesToCopy := bytesToCopy s + (if go then file_size_ec fs (inputPrefix s @ f) else 0),
      filesToCopy := filesToCopy s + (if go then 1 else 0)\<rparr>, fs)"
  using assms by (simp add: judged_def matched_def queued_def)

text \<open>The sorters' steps.\<close>

lemma while_sorting:
  assumes "inv_control p" "i < length (sorters p)" "sorters p ! i \<noteq> S_done"
  shows "main p = M_sort" "\<not> doneStuff (fst (par_world p))"
    "\<forall>pc \<in> set (workers p). pc \<notin> {W_copyq, W_delq, W_exit}"
proof -
  have "sorters p ! i \<in> set (sorters p)" using assms(2) by simp
  then show m: "main p = M_sort" using assms(1,3) by (auto simp: inv_control_def Let_def)
  then show d: "\<not> doneStuff (fst (par_world p))" using assms(1) by (simp add: inv_control_def Let_def)
  then show "\<forall>pc \<in> set (workers p). pc \<notin> {W_copyq, W_delq, W_exit}"
    using assms(1) unfolding inv_control_def Let_def by blast
qed

lemma sorter_intro:
  assumes inv: "par_inv k p" and W: "par_world p = (s, fs)"
    and i: "i < length (sorters p)" "sorters p ! i \<noteq> S_done"
    and s': "inv_state k s'" "deleteQueue s' = deleteQueue s" "doneStuff s' = doneStuff s"
    and files: "inv_files k (p\<lparr>par_world := (s', fs), sorters := ths, sorted_log := l\<rparr>)"
    and empty: "S_done \<in> set ths \<Longrightarrow> payload (IFilesSet s') = []"
  shows "par_inv k (p\<lparr>par_world := (s', fs), sorters := ths, sorted_log := l\<rparr>)"
proof -
  have c: "inv_control p" using inv by (simp add: par_inv_def)
  note m = while_sorting [OF c i]
  have "inv_control (p\<lparr>par_world := (s', fs), sorters := ths, sorted_log := l\<rparr>)"
    using m empty s'(3) W by (auto simp: inv_control_def Let_def)
  moreover have "inv_delete k (p\<lparr>par_world := (s', fs), sorters := ths, sorted_log := l\<rparr>)"
    using inv W s'(2) by (simp add: par_inv_def inv_delete_def)
  moreover have "inv_fs k (p\<lparr>par_world := (s', fs), sorters := ths, sorted_log := l\<rparr>)"
    using inv W by (simp add: par_inv_def inv_fs_def)
  ultimately show ?thesis using s'(1) files by (simp add: par_inv_def)
qed

lemma sorter_looks:
  assumes inv: "par_inv k p" and W: "par_world p = (s, fs)" and i: "i < length (sorters p)" "sorters p ! i \<noteq> S_done"
    and only: "sorting (sorters p ! i) = []" "sorting pc = []"
    and fin: "S_done \<in> set ((sorters p)[i := pc]) \<Longrightarrow> payload (IFilesSet s) = []"
  shows "par_inv k (p\<lparr>par_world := (s, fs), sorters := (sorters p)[i := pc], sorted_log := sorted_log p\<rparr>)"
proof -
  have st: "inv_state k s" and files: "inv_files k p" using inv W by (simp_all add: par_inv_def)
  have "inv_files k (p\<lparr>par_world := (s, fs), sorters := (sorters p)[i := pc], sorted_log := sorted_log p\<rparr>)"
    using files W held_keep [OF i(1), of sorting pc] only by (simp add: inv_files_def)
  then show ?thesis using st fin by (intro sorter_intro [OF inv W i]) simp_all
qed

lemma sorter_takes:
  assumes inv: "par_inv k p" and W: "par_world p = (s, fs)" and i: "i < length (sorters p)"
    and pop: "sorters p ! i = S_pop" "payload (IFilesSet s) = f # r" "pc = S_sort f"
    and fin: "S_done \<notin> set ((sorters p)[i := pc])"
  shows "par_inv k (p\<lparr>par_world := (drop_ifile s, fs), sorters := (sorters p)[i := pc], sorted_log := sorted_log p\<rparr>)"
proof -
  have st: "inv_state k s" and files: "inv_files k p" using inv W by (simp_all add: par_inv_def)
  have "held sorting ((sorters p)[i := pc]) = add_mset f (held sorting (sorters p))"
    using pop by (intro held_take i) simp_all
  then have "inv_files k (p\<lparr>par_world := (drop_ifile s, fs), sorters := (sorters p)[i := pc], sorted_log := sorted_log p\<rparr>)"
    using files W pop(2) by (simp add: inv_files_def drop_ifile_def)
  moreover have "deleteQueue (drop_ifile s) = deleteQueue s" "doneStuff (drop_ifile s) = doneStuff s"
    by (simp_all add: drop_ifile_def)
  ultimately show ?thesis
    using pop(1) fin st by (intro sorter_intro [OF inv W i]) (simp_all add: inv_state_updates)
qed

lemma sorter_sorts:
  assumes k: "task_ok k" and inv: "par_inv k p" and W: "par_world p = (s, fs)" and i: "i < length (sorters p)"
    and sort: "sorters p ! i = S_sort f" "pc = S_guard" "w = judged f (s, fs)"
    and fin: "S_done \<in> set ((sorters p)[i := pc]) \<Longrightarrow> payload (IFilesSet s) = []"
  shows "par_inv k (p\<lparr>par_world := w, sorters := (sorters p)[i := pc], sorted_log := sorted_log p @ [f]\<rparr>)"
proof -
  have st: "inv_state k s" and files: "inv_files k p" using inv W by (simp_all add: par_inv_def)
  note one = sorting_one [OF k inv i sort(1) W]
  obtain s' where w: "w = (s', fs)" and s': "inv_state k s'" "deleteQueue s' = deleteQueue s" "doneStuff s' = doneStuff s"
      "IFilesSet s' = IFilesSet s" "filesCopied s' = filesCopied s" "OFilesSet s' = OFilesSet s - {f}"
      "payload (copyQueue s') = payload (copyQueue s) @ (if rel_wanted k f then [f] else [])"
      "filesToCopy s' = filesToCopy s + (if rel_wanted k f then 1 else 0)"
    using sort(3) judged_now [OF one(3,4)] st by (auto simp: inv_state_def unlocked_def)
  have "held sorting (sorters p) = add_mset f (held sorting ((sorters p)[i := pc]))"
    using sort by (intro held_finish i) simp_all
  then have "inv_files k (p\<lparr>par_world := (s', fs), sorters := (sorters p)[i := pc], sorted_log := sorted_log p @ [f]\<rparr>)"
    using files W s' by (auto simp: inv_files_def Let_def)
  then show ?thesis
    unfolding w using sort(1) fin s' by (intro sorter_intro [OF inv W i]) simp_all
qed

lemma sorter_keeps:
  assumes k: "task_ok k" and inv: "par_inv k p" and i: "i < length (sorters p)"
    and act: "sorter_act (sorters p ! i) (par_world p) = Ret (pc, w)"
  shows "par_inv k (p\<lparr>par_world := w, sorters := (sorters p)[i := pc], sorted_log := sorted_log p @ sorting (sorters p ! i)\<rparr>)"
proof -
  obtain s fs where W: "par_world p = (s, fs)" by (cases "par_world p")
  have ctl: "inv_control p" and u: "unlocked s" using inv W by (simp_all add: par_inv_def inv_state_def)
  have fin: "S_done \<in> set ((sorters p)[i := pc]) \<Longrightarrow> pc = S_done \<or> payload (IFilesSet s) = []"
    using ctl W set_update_subset_insert [of "sorters p" i pc] by (auto simp: inv_control_def Let_def)
  from act [unfolded W] u show ?thesis
  proof (cases rule: sorter_cases)
    case guard
    then have "par_inv k (p\<lparr>par_world := (s, fs), sorters := (sorters p)[i := pc], sorted_log := sorted_log p\<rparr>)"
      using fin by (intro sorter_looks [OF inv W i]) (simp_all split: if_splits)
    then show ?thesis using guard(1,3) by simp
  next
    case empty
    then have "par_inv k (p\<lparr>par_world := (s, fs), sorters := (sorters p)[i := pc], sorted_log := sorted_log p\<rparr>)"
      by (intro sorter_looks [OF inv W i]) simp_all
    then show ?thesis using empty(1,4) by simp
  next
    case (pop f r)
    then have "S_done \<notin> set ((sorters p)[i := pc])" using fin by auto
    from sorter_takes [OF inv W i pop(1,2,3) this] show ?thesis using pop(1,4) by simp
  next
    case (sort f)
    then have "S_done \<in> set ((sorters p)[i := pc]) \<Longrightarrow> payload (IFilesSet s) = []" using fin by auto
    from sorter_sorts [OF k inv W i sort this] show ?thesis using sort(1) by simp
  next
    case stop
    then have "(sorters p)[i := pc] = sorters p" by (metis list_update_id)
    then have "p\<lparr>par_world := w, sorters := (sorters p)[i := pc], sorted_log := sorted_log p @ sorting (sorters p ! i)\<rparr> = p"
      using stop W by simp
    then show ?thesis using inv by simp
  qed
qed

text \<open>The workers' steps.\<close>

lemma worker_control:
  assumes "inv_control p" "th \<in> set (workers p)"
  shows "(th \<in> {W_copyq, W_delq, W_exit} \<longrightarrow> doneStuff (fst (par_world p))) \<and>
    (th \<in> {W_delq, W_exit} \<longrightarrow> payload (copyQueue (fst (par_world p))) = []) \<and>
    (th = W_exit \<longrightarrow> payload (deleteQueue (fst (par_world p))) = [])"
  using assms unfolding inv_control_def Let_def by blast

lemma control_done: "inv_control p \<Longrightarrow> doneStuff (fst (par_world p)) \<longleftrightarrow> main p = M_join \<or> main p = M_end"
  by (simp add: inv_control_def Let_def)

lemma worker_intro:
  assumes inv: "par_inv k p" and W: "par_world p = (s, fs)" and i: "i < length (workers p)"
    and not_out: "workers p ! i \<noteq> W_exit"
    and s': "inv_state k s'" "IFilesSet s' = IFilesSet s" "doneStuff s' = doneStuff s"
    and files: "inv_files k (p\<lparr>par_world := (s', fs'), workers := (workers p)[i := pc], copied_log := l\<rparr>)"
    and fsi: "inv_fs k (p\<lparr>par_world := (s', fs'), workers := (workers p)[i := pc], copied_log := l\<rparr>)"
    and less: "set (payload (deleteQueue s')) \<subseteq> set (payload (deleteQueue s))"
      "set (payload (copyQueue s')) \<subseteq> set (payload (copyQueue s))"
    and del: "\<forall>f \<in> set (deleting pc). is_doomed k f"
    and ctl: "pc \<in> {W_copyq, W_delq, W_exit} \<Longrightarrow> doneStuff s"
      "pc \<in> {W_delq, W_exit} \<Longrightarrow> payload (copyQueue s') = []"
      "pc = W_exit \<Longrightarrow> payload (deleteQueue s') = []"
  shows "par_inv k (p\<lparr>par_world := (s', fs'), workers := (workers p)[i := pc], copied_log := l\<rparr>)"
proof -
  have c: "inv_control p" and d: "inv_delete k p" using inv by (simp_all add: par_inv_def)
  have here: "workers p ! i \<in> set (workers p)" using i by simp
  note sub = set_update_subset_insert [of "workers p" i pc]
  have "inv_delete k (p\<lparr>par_world := (s', fs'), workers := (workers p)[i := pc], copied_log := l\<rparr>)"
    unfolding inv_delete_def
  proof (intro conjI allI impI ballI)
    fix th f assume "th \<in> set (workers (p\<lparr>par_world := (s', fs'), workers := (workers p)[i := pc], copied_log := l\<rparr>))" "f \<in> set (deleting th)"
    then have "th = pc \<or> th \<in> set (workers p)" using sub by auto
    then show "is_doomed k f" using d del \<open>f \<in> set (deleting th)\<close> by (auto simp: inv_delete_def)
  qed (use d less(1) W in \<open>auto simp: inv_delete_def\<close>)
  moreover have "inv_control (p\<lparr>par_world := (s', fs'), workers := (workers p)[i := pc], copied_log := l\<rparr>)"
  proof -
    have "main p \<noteq> M_end" using c not_out here by (auto simp: inv_control_def Let_def)
    moreover have "(th \<in> {W_copyq, W_delq, W_exit} \<longrightarrow> doneStuff s') \<and>
         (th \<in> {W_delq, W_exit} \<longrightarrow> payload (copyQueue s') = []) \<and>
         (th = W_exit \<longrightarrow> payload (deleteQueue s') = [])" if th: "th \<in> set ((workers p)[i := pc])" for th
    proof (cases "th = pc")
      case False
      then have "th \<in> set (workers p)" using th sub by auto
      then have "(th \<in> {W_copyq, W_delq, W_exit} \<longrightarrow> doneStuff s) \<and>
         (th \<in> {W_delq, W_exit} \<longrightarrow> payload (copyQueue s) = []) \<and>
         (th = W_exit \<longrightarrow> payload (deleteQueue s) = [])" using worker_control [OF c, of th] W by simp
      then show ?thesis using less s'(3) by auto
    qed (use ctl s'(3) in auto)
    ultimately show ?thesis using c W s'(2,3) by (simp add: inv_control_def Let_def)
  qed
  ultimately show ?thesis using s'(1) files fsi by (simp add: par_inv_def)
qed

lemma worker_copies:
  assumes k: "task_ok k" and inv: "par_inv k p" and W: "par_world p = (s, fs)" and i: "i < length (workers p)"
    and copy: "workers p ! i = W_copy f" "pc = W_popd" "w = copied f (s, fs)"
  shows "par_inv k (p\<lparr>par_world := w, workers := (workers p)[i := pc], copied_log := copied_log p @ [f]\<rparr>)"
proof -
  have st: "inv_state k s" and files: "inv_files k p" using inv W by (simp_all add: par_inv_def)
  let ?p = "\<lambda>s fs l. p\<lparr>par_world := (s, fs), workers := (workers p)[i := pc], copied_log := l\<rparr>"
  obtain ns b fs2 where ns: "ns \<in> set (file_names (tfs k) (tinp k))" "f = rel_name (tfs k) ns"
    and w: "w = (s\<lparr>filesCopied := filesCopied s + 1, bytesCopied := b\<rparr>, fs2)"
    and ac: "after_copies (tfs3 k) (resolve (tfs k) (tinp k)) (resolve (tfs k) (tout k)) (tmove k)
       (insert ns (names_of k (copied_log p))) fs2"
    using copying_one [OF k inv i copy(1) W] copy(3) by metis
  let ?s = "s\<lparr>filesCopied := filesCopied s + 1, bytesCopied := b\<rparr>"
  have "held copying (workers p) = add_mset f (held copying ((workers p)[i := pc]))"
    using copy by (intro held_finish i) simp_all
  then have "inv_files k (?p ?s fs2 (copied_log p @ [f]))"
    using files W by (auto simp: inv_files_def Let_def)
  moreover have "inv_fs k (?p ?s fs2 (copied_log p @ [f]))"
    using ac names_of_snoc [OF k ns(1)] by (simp add: inv_fs_def ns(2))
  ultimately have "par_inv k (?p ?s fs2 (copied_log p @ [f]))"
    using copy(1,2) st by (intro worker_intro [OF inv W i]) (simp_all add: inv_state_updates)
  then show ?thesis using w by simp
qed

lemma worker_deletes:
  assumes k: "task_ok k" and inv: "par_inv k p" and W: "par_world p = (s, fs)" and i: "i < length (workers p)"
    and delete: "workers p ! i = W_delete f" "pc = W_done" "w = deleted f (s, fs)"
  shows "par_inv k (p\<lparr>par_world := w, workers := (workers p)[i := pc], copied_log := copied_log p\<rparr>)"
proof -
  have st: "inv_state k s" and files: "inv_files k p" and fsi: "inv_fs k p" and del: "inv_delete k p"
    using inv W by (simp_all add: par_inv_def)
  have here: "workers p ! i \<in> set (workers p)" using i by simp
  let ?p = "\<lambda>s fs l. p\<lparr>par_world := (s, fs), workers := (workers p)[i := pc], copied_log := l\<rparr>"
  have fsi': "inv_fs k (?p s' fs (copied_log p))" for s' using fsi W by (simp add: inv_fs_def)
  have "is_doomed k f" using del here delete(1) by (force simp: inv_delete_def)
  then have w: "w = (s\<lparr>cdeleted := cdeleted s + 1\<rparr>, fs)"
    using deleted_now [OF k st, of "names_of k (copied_log p)" fs f] fsi W delete(3)
    by (auto simp: inv_fs_def names_of_def)
  have "inv_files k (?p (s\<lparr>cdeleted := cdeleted s + 1\<rparr>) fs (copied_log p))"
    using files W held_keep [OF i, of copying pc] delete(1,2) by (simp add: inv_files_def)
  then have "par_inv k (?p (s\<lparr>cdeleted := cdeleted s + 1\<rparr>) fs (copied_log p))"
    using delete(1,2) st by (intro worker_intro [OF inv W i] fsi') (simp_all add: inv_state_updates)
  then show ?thesis using w by simp
qed

text \<open>A step that only looks at the state, and the steps that take an item from a queue.\<close>

lemma worker_looks:
  assumes inv: "par_inv k p" and W: "par_world p = (s, fs)" and i: "i < length (workers p)"
    and only: "copying (workers p ! i) = []" "copying pc = []" "deleting pc = []" "workers p ! i \<noteq> W_exit"
    and ctl: "pc \<in> {W_copyq, W_delq, W_exit} \<Longrightarrow> doneStuff s" "pc \<in> {W_delq, W_exit} \<Longrightarrow> payload (copyQueue s) = []"
      "pc = W_exit \<Longrightarrow> payload (deleteQueue s) = []"
  shows "par_inv k (p\<lparr>par_world := (s, fs), workers := (workers p)[i := pc], copied_log := copied_log p\<rparr>)"
proof -
  have st: "inv_state k s" and files: "inv_files k p" and fsi: "inv_fs k p" using inv W by (simp_all add: par_inv_def)
  have "inv_files k (p\<lparr>par_world := (s, fs), workers := (workers p)[i := pc], copied_log := copied_log p\<rparr>)"
    using files W held_keep [OF i, of copying pc] only(1,2) by (simp add: inv_files_def)
  moreover have "inv_fs k (p\<lparr>par_world := (s, fs), workers := (workers p)[i := pc], copied_log := copied_log p\<rparr>)"
    using fsi W by (simp add: inv_fs_def)
  ultimately show ?thesis
    using only(3,4) ctl st by (intro worker_intro [OF inv W i]) simp_all
qed

lemma worker_takes_copy:
  assumes inv: "par_inv k p" and W: "par_world p = (s, fs)" and i: "i < length (workers p)"
    and pop: "workers p ! i = W_pop" "payload (copyQueue s) = f # r" "pc = W_copy f"
  shows "par_inv k (p\<lparr>par_world := (drop_copy s, fs), workers := (workers p)[i := pc], copied_log := copied_log p\<rparr>)"
proof -
  have st: "inv_state k s" and files: "inv_files k p" and fsi: "inv_fs k p" using inv W by (simp_all add: par_inv_def)
  have "held copying ((workers p)[i := pc]) = add_mset f (held copying (workers p))"
    using pop by (intro held_take i) simp_all
  then have "inv_files k (p\<lparr>par_world := (drop_copy s, fs), workers := (workers p)[i := pc], copied_log := copied_log p\<rparr>)"
    using files W pop(2) by (simp add: inv_files_def drop_copy_def)
  moreover have "inv_fs k (p\<lparr>par_world := (drop_copy s, fs), workers := (workers p)[i := pc], copied_log := copied_log p\<rparr>)"
    using fsi W by (simp add: inv_fs_def)
  ultimately show ?thesis
    using pop st by (intro worker_intro [OF inv W i]) (simp_all add: inv_state_updates, auto simp: drop_copy_def)
qed

lemma worker_takes_delete:
  assumes inv: "par_inv k p" and W: "par_world p = (s, fs)" and i: "i < length (workers p)"
    and pop: "workers p ! i = W_popd" "payload (deleteQueue s) = f # r" "pc = W_delete f"
  shows "par_inv k (p\<lparr>par_world := (drop_delete s, fs), workers := (workers p)[i := pc], copied_log := copied_log p\<rparr>)"
proof -
  have st: "inv_state k s" and files: "inv_files k p" and fsi: "inv_fs k p" and del: "inv_delete k p"
    using inv W by (simp_all add: par_inv_def)
  have "held copying ((workers p)[i := pc]) = held copying (workers p)"
    using pop by (intro held_keep i) simp_all
  then have "inv_files k (p\<lparr>par_world := (drop_delete s, fs), workers := (workers p)[i := pc], copied_log := copied_log p\<rparr>)"
    using files W by (simp add: inv_files_def drop_delete_def)
  moreover have "inv_fs k (p\<lparr>par_world := (drop_delete s, fs), workers := (workers p)[i := pc], copied_log := copied_log p\<rparr>)"
    using fsi W by (simp add: inv_fs_def)
  moreover have "is_doomed k f" using del W pop(2) by (simp add: inv_delete_def)
  ultimately show ?thesis
    using pop st by (intro worker_intro [OF inv W i]) (simp_all add: inv_state_updates, auto simp: drop_delete_def)
qed

lemma worker_keeps:
  assumes k: "task_ok k" and inv: "par_inv k p" and i: "i < length (workers p)"
    and act: "worker_act (workers p ! i) (par_world p) = Ret (pc, w)"
  shows "par_inv k (p\<lparr>par_world := w, workers := (workers p)[i := pc], copied_log := copied_log p @ copying (workers p ! i)\<rparr>)"
proof -
  obtain s fs where W: "par_world p = (s, fs)" by (cases "par_world p")
  have ctl: "inv_control p" and u: "unlocked s" using inv W by (simp_all add: par_inv_def inv_state_def)
  have "workers p ! i \<in> set (workers p)" using i by simp
  then have ctl_i: "(workers p ! i \<in> {W_copyq, W_delq, W_exit} \<longrightarrow> doneStuff s) \<and>
         (workers p ! i \<in> {W_delq, W_exit} \<longrightarrow> payload (copyQueue s) = [])"
    using worker_control [OF ctl, of "workers p ! i"] W by simp
  have looks: ?thesis if "w = (s, fs)" "copying (workers p ! i) = []"
      "par_inv k (p\<lparr>par_world := (s, fs), workers := (workers p)[i := pc], copied_log := copied_log p\<rparr>)" using that by simp
  from act [unfolded W] u show ?thesis
  proof (cases rule: worker_cases)
    case test
    then show ?thesis using ctl_i by (intro looks worker_looks [OF inv W i]) (simp_all split: if_splits)
  next
    case copyq
    then show ?thesis using ctl_i by (intro looks worker_looks [OF inv W i]) (simp_all split: if_splits)
  next
    case delq
    then show ?thesis using ctl_i by (intro looks worker_looks [OF inv W i]) (simp_all split: if_splits)
  next
    case empty
    then show ?thesis by (intro looks worker_looks [OF inv W i]) simp_all
  next
    case (pop f r)
    from worker_takes_copy [OF inv W i pop(1,2,3)] show ?thesis using pop(1,4) by simp
  next
    case (copy f)
    then show ?thesis using worker_copies [OF k inv W i copy] by simp
  next
    case emptyd
    then show ?thesis by (intro looks worker_looks [OF inv W i]) simp_all
  next
    case (popd f r)
    from worker_takes_delete [OF inv W i popd(1,2,3)] show ?thesis using popd(1,4) by simp
  next
    case (delete f)
    then show ?thesis using worker_deletes [OF k inv W i delete] by simp
  next
    case exit
    then have "(workers p)[i := pc] = workers p" by (metis list_update_id)
    then have "p\<lparr>par_world := w, workers := (workers p)[i := pc], copied_log := copied_log p @ copying (workers p ! i)\<rparr> = p"
      using exit W by simp
    then show ?thesis using inv by simp
  qed
qed

text \<open>The main thread's steps.\<close>

lemma main_intro:
  assumes inv: "par_inv k p" and W: "par_world p = (s, fs)"
    and s': "inv_state k s'" "IFilesSet s' = IFilesSet s" "copyQueue s' = copyQueue s" "OFilesSet s' = OFilesSet s"
      "filesToCopy s' = filesToCopy s" "filesCopied s' = filesCopied s"
    and del: "inv_delete k (p\<lparr>par_world := (s', fs), main := m\<rparr>)"
    and ctl: "inv_control (p\<lparr>par_world := (s', fs), main := m\<rparr>)"
  shows "par_inv k (p\<lparr>par_world := (s', fs), main := m\<rparr>)"
  using assms by (simp add: par_inv_def inv_files_def inv_fs_def)

lemma sorted_keeps:
  assumes k: "task_ok k" and it: "iterates iter" and inv: "par_inv k p" and W: "par_world p = (s, fs)"
    and m: "main p = M_sort" "\<forall>pc \<in> set (sorters p). pc = S_done"
  shows "par_inv k (p\<lparr>par_world := (s, fs), main := (if tdel k then M_delete (iter (OFilesSet s)) else M_signal)\<rparr>)"
proof -
  have c: "inv_control p" and d: "inv_delete k p" and f: "inv_files k p" and s: "inv_state k s"
    using inv W by (simp_all add: par_inv_def)
  let ?m = "if tdel k then M_delete (iter (OFilesSet s)) else M_signal"
  have "inv_delete k (p\<lparr>par_world := (s, fs), main := ?m\<rparr>)"
  proof -
    have O: "OFilesSet s \<subseteq> out_rel k" using f W by (auto simp: inv_files_def Let_def)
    then have "finite (OFilesSet s)" by (rule finite_subset) (simp add: out_rel_def)
    then have "set (iter (OFilesSet s)) \<subseteq> out_rel k" using it O by (simp add: iterates_def)
    moreover have "is_doomed k (prefix_of (tfs k) (tout k) @ x)" if "tdel k" "x \<in> out_rel k" for x
      using that k names_valid [OF task_facts(3) [OF k]] by (fastforce simp: is_doomed_def task_ok_def out_rel_def)
    ultimately show ?thesis using d W by (auto simp: inv_delete_def)
  qed
  moreover have "inv_control (p\<lparr>par_world := (s, fs), main := ?m\<rparr>)"
    using c m W unfolding inv_control_def Let_def by auto
  ultimately show ?thesis using s by (intro main_intro [OF inv W]) simp_all
qed

lemma deletes_keeps:
  assumes inv: "par_inv k p" and W: "par_world p = (s, fs)" and m: "main p = M_delete (f # l)"
    and push: "dq_push_back (outputPrefix s @ f) (deleteQueue s) = (Ret (), q)"
  shows "par_inv k (p\<lparr>par_world := (s\<lparr>deleteQueue := q, cdeleted := cdeleted s + 1\<rparr>, fs), main := M_delete l\<rparr>)"
proof -
  have c: "inv_control p" and d: "inv_delete k p" and s: "inv_state k s"
    using inv W by (simp_all add: par_inv_def)
  have "\<not> flag (deleteQueue s)" using s by (simp add: inv_state_def unlocked_def)
  then have q: "\<not> flag q" "payload q = payload (deleteQueue s) @ [outputPrefix s @ f]"
    using push by (auto simp: dq_push_back_def guarded_free)
  let ?s = "s\<lparr>deleteQueue := q, cdeleted := cdeleted s + 1\<rparr>"
  have nd: "\<not> doneStuff s" using c m W by (simp add: inv_control_def Let_def)
  have "inv_state k ?s" using s q by (simp add: inv_state_def unlocked_def)
  moreover have "inv_delete k (p\<lparr>par_world := (?s, fs), main := M_delete l\<rparr>)"
    using d m W q s by (auto simp: inv_delete_def inv_state_def)
  moreover have "inv_control (p\<lparr>par_world := (?s, fs), main := M_delete l\<rparr>)"
    using c m W nd unfolding inv_control_def Let_def by auto
  ultimately show ?thesis by (intro main_intro [OF inv W]) simp_all
qed

lemma signal_keeps:
  assumes inv: "par_inv k p" and W: "par_world p = (s, fs)" and m: "main p = M_signal"
  shows "par_inv k (p\<lparr>par_world := (s\<lparr>doneStuff := True\<rparr>, fs), main := M_join\<rparr>)"
proof -
  have c: "inv_control p" and d: "inv_delete k p" and s: "inv_state k s"
    using inv W by (simp_all add: par_inv_def)
  let ?s = "s\<lparr>doneStuff := True\<rparr>"
  have "inv_state k ?s" using s by (simp add: inv_state_def unlocked_def)
  moreover have "inv_delete k (p\<lparr>par_world := (?s, fs), main := M_join\<rparr>)" using d W by (simp add: inv_delete_def)
  moreover have "inv_control (p\<lparr>par_world := (?s, fs), main := M_join\<rparr>)"
    using c m W unfolding inv_control_def Let_def by auto
  ultimately show ?thesis by (intro main_intro [OF inv W]) simp_all
qed

lemma join_keeps:
  assumes inv: "par_inv k p" and W: "par_world p = (s, fs)" and m: "main p = M_join" "\<forall>pc \<in> set (workers p). pc = W_exit"
  shows "par_inv k (p\<lparr>par_world := (s\<lparr>threads := 0, activeCopy := False\<rparr>, fs), main := M_end\<rparr>)"
proof -
  have c: "inv_control p" and d: "inv_delete k p" and s: "inv_state k s"
    using inv W by (simp_all add: par_inv_def)
  let ?s = "s\<lparr>threads := 0, activeCopy := False\<rparr>"
  have "inv_state k ?s" using s by (simp add: inv_state_def unlocked_def)
  moreover have "inv_delete k (p\<lparr>par_world := (?s, fs), main := M_end\<rparr>)" using d W by (simp add: inv_delete_def)
  moreover have "inv_control (p\<lparr>par_world := (?s, fs), main := M_end\<rparr>)"
    using c m W unfolding inv_control_def Let_def by auto
  ultimately show ?thesis by (intro main_intro [OF inv W]) simp_all
qed

lemma main_keeps:
  assumes k: "task_ok k" and it: "iterates iter" and inv: "par_inv k p" and st: "par_step iter (tdel k) p p'"
    and m: "sorters p' = sorters p" "workers p' = workers p" "main p' \<noteq> main p"
  shows "par_inv k p'"
  using st
proof (cases rule: par_stepE)
  case step_sorted
  then show ?thesis using sorted_keeps [OF k it inv, of "fst (par_world p)" "snd (par_world p)"] by simp
next
  case (step_delete f l s fs q)
  have "p' = p\<lparr>par_world := (s\<lparr>deleteQueue := q, cdeleted := cdeleted s + 1\<rparr>, fs), main := M_delete l\<rparr>"
    using step_delete(1) by simp
  then show ?thesis using deletes_keeps [OF inv step_delete(3,2,4)] by (rule ssubst)
next
  case step_deleted
  then show ?thesis using inv by (auto simp: par_inv_def inv_files_def inv_fs_def inv_delete_def inv_control_def Let_def)
next
  case (step_signal s fs)
  have "p' = p\<lparr>par_world := (s\<lparr>doneStuff := True\<rparr>, fs), main := M_join\<rparr>" using step_signal(1) by simp
  then show ?thesis using signal_keeps [OF inv step_signal(3,2)] by (rule ssubst)
next
  case (step_join s fs)
  have "p' = p\<lparr>par_world := (s\<lparr>threads := 0, activeCopy := False\<rparr>, fs), main := M_end\<rparr>" using step_join(1) by simp
  then show ?thesis using join_keeps [OF inv step_join(3,2,4)] by (rule ssubst)
qed (use m in auto)

lemma step_keeps:
  assumes k: "task_ok k" and it: "iterates iter" and inv: "par_inv k p" and st: "par_step iter (tdel k) p p'"
  shows "par_inv k p'"
  using st
proof (cases rule: par_stepE)
  case (step_sorter i pc w)
  then show ?thesis using sorter_keeps [OF k inv] by simp
next
  case (step_worker i pc w)
  then show ?thesis using worker_keeps [OF k inv] by simp
qed (rule main_keeps [OF k it inv st]; simp)+

lemma reach_keeps:
  assumes "task_ok k" "iterates iter" "par_reach iter (tdel k) p0 p" "par_inv k p0"
  shows "par_inv k p"
  using assms(3,4) by (induction rule: par_reach.induct) (auto intro: step_keeps [OF assms(1,2)])

section \<open>Start and end\<close>

definition task_of :: "fs \<Rightarrow> fs \<Rightarrow> string \<Rightarrow> string \<Rightarrow> bool \<Rightarrow> bool \<Rightarrow> bool \<Rightarrow> bool \<Rightarrow> task" where
  "task_of fs fs3 inp out del ow force move =
     \<lparr>tfs = fs, tfs3 = fs3, tinp = inp, tout = out, tow = ow, tforce = force, tmove = move, tdel = del\<rparr>"

lemma start_inv:
  assumes ready: "sync_ready fs inp out" and it: "iterates iter" and nn: "del \<Longrightarrow> nothing_nested fs inp out"
    and prep: "Copy_prepare iter inp out ow force move n (new_functions, fs) = Ret w3"
  shows "\<exists>fs3. task_ok (task_of fs fs3 inp out del ow force move) \<and>
    par_inv (task_of fs fs3 inp out del ow force move) (par_start m w3)"
proof -
  obtain t fs3 where w3: "w3 = (t, fs3)" and ad: "after_dirs fs inp out fs3"
    and t: "idle t" "payload (IFilesSet t) = map (rel_name fs) (file_names fs inp)" "inputPrefix t = prefix_of fs inp"
      "outputPrefix t = prefix_of fs out" "OFilesSet t = rel_name fs ` set (file_names fs out)"
      "overwrite_flag t = ow" "force_flag t = force" "move_flag t = move" "\<not> doneStuff t"
    using prepare_phase [OF ready it, of ow force move n] prep by auto
  let ?k = "task_of fs fs3 inp out del ow force move"
  have "task_ok ?k" using ready ad nn by (simp add: task_ok_def task_of_def)
  moreover have "par_inv ?k (par_start m w3)"
  proof -
    have "held sorting (replicate 4 S_guard) = {#}" "held copying (replicate m W_done) = {#}"
      by (rule held_none; simp)+
    then have "inv_files ?k (par_start m w3)"
      using t by (simp add: inv_files_def par_start_def w3 all_rel_def out_rel_def task_of_def idle_def Let_def)
    moreover have "inv_state ?k t" using t by (simp add: inv_state_def task_of_def idle_def)
    moreover have "inv_fs ?k (par_start m w3)"
      by (simp add: inv_fs_def par_start_def w3 task_of_def names_of_def after_copies_def)
    moreover have "inv_delete ?k (par_start m w3)"
      using t(1) by (simp add: inv_delete_def par_start_def w3 idle_def)
    moreover have "inv_control (par_start m w3)"
      using t(9) by (simp add: inv_control_def par_start_def w3)
    ultimately show ?thesis by (simp add: par_inv_def par_start_def w3)
  qed
  ultimately show ?thesis by blast
qed

lemma task_of_simps [simp]:
  "tfs (task_of fs fs3 inp out del ow force move) = fs" "tfs3 (task_of fs fs3 inp out del ow force move) = fs3"
  "tinp (task_of fs fs3 inp out del ow force move) = inp" "tout (task_of fs fs3 inp out del ow force move) = out"
  "tow (task_of fs fs3 inp out del ow force move) = ow" "tforce (task_of fs fs3 inp out del ow force move) = force"
  "tmove (task_of fs fs3 inp out del ow force move) = move" "tdel (task_of fs fs3 inp out del ow force move) = del"
  by (simp_all add: task_of_def)

lemma par_lengths: "par_reach iter del p0 p \<Longrightarrow> length (workers p) = length (workers p0) \<and> length (sorters p) = length (sorters p0)"
proof (induction rule: par_reach.induct)
  case (par_more p p')
  from par_more.hyps(2) par_more.IH show ?case by (cases rule: par_stepE) auto
qed simp

lemma end_state:
  assumes k: "task_ok k" and inv: "par_inv k p" and e: "main p = M_end" and n: "workers p \<noteq> []" "sorters p \<noteq> []"
    and W: "par_world p = (s, fs')"
  shows "payload (IFilesSet s) = [] \<and> payload (copyQueue s) = [] \<and> payload (deleteQueue s) = [] \<and>
    payload (errors s) = [] \<and> filesCopied s = filesToCopy s \<and>
    mset (copied_log p) = filter_mset (rel_wanted k) (mset (all_rel k)) \<and>
    node_at fs' q = synced (tfs k) (tinp k) (tout k) (tow k) (tforce k) (tmove k) q"
proof -
  have c: "inv_control p" and f: "inv_files k p" and st: "inv_state k s" and fi: "inv_fs k p"
    using inv W by (simp_all add: par_inv_def)
  have ws: "set (workers p) \<subseteq> {W_exit}" and ss: "set (sorters p) \<subseteq> {S_done}" using c e by (simp_all add: inv_control_def Let_def)
  have "W_exit \<in> set (workers p)" using ws n(1) by (cases "workers p") auto
  then have empty: "payload (copyQueue s) = []" "payload (deleteQueue s) = []" using worker_control [OF c] W by fastforce+
  have h: "held copying (workers p) = {#}" "held sorting (sorters p) = {#}" using ws ss by (auto intro!: held_none)
  have "S_done \<in> set (sorters p)" using ss n(2) by (cases "sorters p") auto
  then have I: "payload (IFilesSet s) = []" using c W by (simp add: inv_control_def Let_def)
  have log: "mset (sorted_log p) = mset (all_rel k)" "mset (copied_log p) = filter_mset (rel_wanted k) (mset (sorted_log p))"
    using f W h I empty by (simp_all add: inv_files_def Let_def)
  have "names_of k (copied_log p) = wanted_files (tfs k) (tinp k) (tout k) (tow k) (tforce k)"
  proof -
    have "set (copied_log p) = {x \<in> set (all_rel k). rel_wanted k x}"
      using log by (metis set_mset_filter set_mset_mset)
    moreover have "wanted_files (tfs k) (tinp k) (tout k) (tow k) (tforce k) \<subseteq> set (file_names (tfs k) (tinp k))"
      by (auto simp: wanted_files_def to_copy_def)
    ultimately show ?thesis using rel_name_eq [OF k] by (auto simp: names_of_def all_rel_def rel_wanted_def)
  qed
  then have "node_at fs' q = synced (tfs k) (tinp k) (tout k) (tow k) (tforce k) (tmove k) q"
    using synced_result [OF task_facts(1,2) [OF k]] fi W by (simp add: inv_fs_def)
  moreover have "filesCopied s = filesToCopy s"
    using f W log(2) by (simp add: inv_files_def Let_def) (metis size_mset)
  ultimately show ?thesis using I empty st log by (simp add: inv_state_def)
qed

end
