(* ===== verification/SyncProgress.thy ===== *)
theory SyncProgress
  imports SyncThreads
begin

text \<open>
  The threaded part of \<open>Copy\<close> never gets stuck: from every state the threads can reach, the end is
  still reachable. The proof gives every state a weight and shows that before the end some thread
  has a step that lowers it.
\<close>

section \<open>Weights\<close>

definition item_cost :: "nat \<Rightarrow> nat" where
  "item_cost n = 8 * n + 1"

definition sort_cost :: "nat \<Rightarrow> nat" where
  "sort_cost n = 3 + item_cost n + 8 * n"

fun sorter_weight :: "nat \<Rightarrow> bool \<Rightarrow> sorter_pc \<Rightarrow> nat" where
  "sorter_weight n e S_guard = (if e then 1 else 2)"
| "sorter_weight n e S_pop = (if e then 2 else 1)"
| "sorter_weight n e (S_sort f) = sort_cost n"
| "sorter_weight n e S_done = 0"

fun worker_weight :: "bool \<Rightarrow> bool \<Rightarrow> worker_pc \<Rightarrow> nat" where
  "worker_weight ec ed W_exit = 0"
| "worker_weight ec ed W_done = (if ec then 5 else 4)"
| "worker_weight ec ed W_copyq = (if ec then 4 else 3)"
| "worker_weight ec ed W_delq = (if ec then 3 else 2)"
| "worker_weight ec ed W_pop = (if \<not> ec then 1 else if ed then 7 else 2)"
| "worker_weight ec ed (W_copy f) = (if \<not> ec then 6 else if ed then 8 else 7)"
| "worker_weight ec ed W_popd = (if \<not> ec then 5 else if ed then 6 else 1)"
| "worker_weight ec ed (W_delete f) = (if ec \<and> ed then 8 else 6)"

definition delete_cost :: "nat \<Rightarrow> nat" where
  "delete_cost n = item_cost n + 8 * n + 1"

fun main_weight :: "nat \<Rightarrow> nat \<Rightarrow> main_pc \<Rightarrow> nat" where
  "main_weight n m M_sort = 4 + delete_cost n * m"
| "main_weight n m (M_delete l) = 3 + delete_cost n * length l"
| "main_weight n m M_signal = 2"
| "main_weight n m M_join = 1"
| "main_weight n m M_end = 0"

definition sorters_weight :: "nat \<Rightarrow> sync_state \<Rightarrow> sorter_pc list \<Rightarrow> nat" where
  "sorters_weight n s ths = sum_list (map (sorter_weight n (payload (IFilesSet s) = [])) ths)"

definition workers_weight :: "sync_state \<Rightarrow> worker_pc list \<Rightarrow> nat" where
  "workers_weight s ths =
     sum_list (map (worker_weight (payload (copyQueue s) = []) (payload (deleteQueue s) = [])) ths)"

definition queue_weight :: "nat \<Rightarrow> nat \<Rightarrow> sync_state \<Rightarrow> nat" where
  "queue_weight n m s =
     (sort_cost n * m + 1) * length (payload (IFilesSet s)) +
     item_cost n * (length (payload (copyQueue s)) + length (payload (deleteQueue s)))"

definition weight :: "par_sys \<Rightarrow> nat" where
  "weight p =
     (let s = fst (par_world p); n = length (workers p); m = length (sorters p)
      in queue_weight n m s + sorters_weight n s (sorters p) + workers_weight s (workers p) +
         main_weight n (card (OFilesSet s)) (main p))"

lemma sum_update:
  fixes g :: "'a \<Rightarrow> nat"
  shows "i < length ths \<Longrightarrow> sum_list (map g (ths[i := x])) + g (ths ! i) = sum_list (map g ths) + g x"
proof (induction ths arbitrary: i)
  case (Cons y ths)
  then show ?case by (cases i) auto
qed simp

lemma sum_bound:
  fixes g :: "'a \<Rightarrow> nat"
  shows "(\<And>x. g x \<le> b) \<Longrightarrow> sum_list (map g ths) \<le> b * length ths"
  by (induction ths) (auto intro: add_mono)

lemma worker_weight_bound: "worker_weight ec ed pc \<le> 8"
  by (cases pc) auto

lemma sorter_weight_bound: "sorter_weight n e pc \<le> sort_cost n"
  by (cases pc) (auto simp: sort_cost_def)

lemma workers_bound: "workers_weight s ths \<le> 8 * length ths"
  unfolding workers_weight_def using worker_weight_bound by (rule sum_bound)

lemma sorters_bound: "sorters_weight n s ths \<le> sort_cost n * length ths"
  unfolding sorters_weight_def using sorter_weight_bound by (rule sum_bound)

section \<open>Every thread can move\<close>

lemma sorter_moves: "unlocked s \<Longrightarrow> \<exists>pc' w'. sorter_act pc (s, fs) = Ret (pc', w')"
proof (cases pc)
  case S_guard
  then show "unlocked s \<Longrightarrow> ?thesis" by (simp add: SortFiles_guard_def dq_size_def guarded_free unlocked_def)
next
  case S_pop
  then show "unlocked s \<Longrightarrow> ?thesis" by (auto simp: pop_front_cases unlocked_def split: list.split)
next
  case (S_sort f)
  then show "unlocked s \<Longrightarrow> ?thesis" by (auto simp: sort_file_unlocked catch_all_def split: option.split)
qed simp

lemma worker_moves: "unlocked s \<Longrightarrow> \<exists>pc' w'. worker_act pc (s, fs) = Ret (pc', w')"
proof (cases pc)
  case W_pop
  then show "unlocked s \<Longrightarrow> ?thesis" by (auto simp: pop_front_cases unlocked_def split: list.split)
next
  case W_popd
  then show "unlocked s \<Longrightarrow> ?thesis" by (auto simp: pop_front_cases unlocked_def split: list.split)
next
  case (W_copy f)
  then show "unlocked s \<Longrightarrow> ?thesis" by (simp add: do_copy_unlocked catch_all_def)
next
  case (W_delete f)
  then show "unlocked s \<Longrightarrow> ?thesis" by (simp add: do_delete_unlocked catch_all_def)
qed (auto simp: dq_empty_def guarded_free unlocked_def)

lemma transfer_frame:
  "IFilesSet (fst (copied f w)) = IFilesSet (fst w)" "OFilesSet (fst (copied f w)) = OFilesSet (fst w)"
  "IFilesSet (fst (deleted f w)) = IFilesSet (fst w)" "OFilesSet (fst (deleted f w)) = OFilesSet (fst w)"
  by (cases w; auto simp: copied_def deleted_def pushed_error_def split: sum.split prod.split)+

text \<open>A worker that has not left its loop, when the done flag is set.\<close>

lemma worker_lowers:
  assumes "unlocked s" "doneStuff s" "i < length ths" "ths ! i \<noteq> W_exit"
    and act: "worker_act (ths ! i) (s, fs) = Ret (pc, w)" and n: "n = length ths"
  shows "queue_weight n m (fst w) + workers_weight (fst w) (ths[i := pc]) < queue_weight n m s + workers_weight s ths"
    and "IFilesSet (fst w) = IFilesSet s" and "OFilesSet (fst w) = OFilesSet s"
proof -
  have same: "queue_weight n m s' + workers_weight s' (ths[i := pc]) < queue_weight n m s + workers_weight s ths"
    if "payload (copyQueue s') = payload (copyQueue s)" "payload (deleteQueue s') = payload (deleteQueue s)"
      "IFilesSet s' = IFilesSet s"
      "worker_weight (payload (copyQueue s) = []) (payload (deleteQueue s) = []) pc <
       worker_weight (payload (copyQueue s) = []) (payload (deleteQueue s) = []) (ths ! i)" for s'
    using sum_update [OF assms(3), of "worker_weight (payload (copyQueue s) = []) (payload (deleteQueue s) = [])" pc] that
    by (simp add: queue_weight_def workers_weight_def)
  have taken: "queue_weight n m s' + workers_weight s' (ths[i := pc]) < queue_weight n m s + workers_weight s ths"
    if "length (payload (copyQueue s')) + length (payload (deleteQueue s')) + 1 =
        length (payload (copyQueue s)) + length (payload (deleteQueue s))" "IFilesSet s' = IFilesSet s" for s'
    using workers_bound [of s' "ths[i := pc]"] that n unfolding queue_weight_def item_cost_def
    by (simp flip: that(1))
  show "queue_weight n m (fst w) + workers_weight (fst w) (ths[i := pc]) < queue_weight n m s + workers_weight s ths"
    using act assms(1)
  proof (cases rule: worker_cases)
    case (pop f r)
    then show ?thesis by (intro taken) (simp_all add: drop_copy_def)
  next
    case (popd f r)
    then show ?thesis by (intro taken) (simp_all add: drop_delete_def)
  qed (use assms(2,4) in \<open>intro same; simp add: transfer_frame split: if_splits\<close>)+
  show "IFilesSet (fst w) = IFilesSet s" "OFilesSet (fst w) = OFilesSet s"
    using act assms(1) by (cases rule: worker_cases; simp add: transfer_frame drop_copy_def drop_delete_def)+
qed

text \<open>A sorter that has not left its loop.\<close>

lemma judged_frame:
  "IFilesSet (fst (judged f (s, fs))) = IFilesSet s" "deleteQueue (fst (judged f (s, fs))) = deleteQueue s"
  "length (payload (copyQueue (fst (judged f (s, fs))))) \<le> length (payload (copyQueue s)) + 1"
  "OFilesSet (fst (judged f (s, fs))) \<subseteq> OFilesSet s"
  by (auto simp: judged_def matched_def queued_def split: option.split)

lemma sorter_lowers:
  assumes "unlocked s" "i < length ths" "ths ! i \<noteq> S_done"
    and act: "sorter_act (ths ! i) (s, fs) = Ret (pc, w)" and m: "m = length ths" and n: "n = length ws"
  shows "queue_weight n m (fst w) + sorters_weight n (fst w) (ths[i := pc]) + workers_weight (fst w) ws <
      queue_weight n m s + sorters_weight n s ths + workers_weight s ws"
    and "OFilesSet (fst w) \<subseteq> OFilesSet s"
proof -
  have upd: "sorters_weight n s (ths[i := pc]) + sorter_weight n (payload (IFilesSet s) = []) (ths ! i) =
      sorters_weight n s ths + sorter_weight n (payload (IFilesSet s) = []) pc"
    unfolding sorters_weight_def by (rule sum_update [OF assms(2)])
  show "queue_weight n m (fst w) + sorters_weight n (fst w) (ths[i := pc]) + workers_weight (fst w) ws <
      queue_weight n m s + sorters_weight n s ths + workers_weight s ws"
    using act assms(1)
  proof (cases rule: sorter_cases)
    case guard
    then show ?thesis using upd by (simp split: if_splits)
  next
    case empty
    then show ?thesis using upd by simp
  next
    case (pop f r)
    have q: "queue_weight n m (drop_ifile s) + sort_cost n * m + 1 = queue_weight n m s"
      "workers_weight (drop_ifile s) ws = workers_weight s ws"
      using pop(2) by (simp_all add: queue_weight_def workers_weight_def drop_ifile_def)
    have "sorters_weight n (drop_ifile s) (ths[i := pc]) \<le> sort_cost n * m"
      using sorters_bound [of n "drop_ifile s" "ths[i := pc]"] m by simp
    then show ?thesis using q pop(4) by simp
  next
    case (sort f)
    let ?s = "fst (judged f (s, fs))"
    have "queue_weight n m ?s \<le> queue_weight n m s + item_cost n"
      using mult_le_mono2 [OF judged_frame(3) [of f s fs], of "item_cost n"]
      by (simp add: queue_weight_def judged_frame algebra_simps)
    moreover have "workers_weight ?s ws \<le> 8 * n" using workers_bound n by simp
    moreover have "sorters_weight n ?s (ths[i := pc]) = sorters_weight n s (ths[i := pc])"
      by (simp add: sorters_weight_def judged_frame)
    moreover have "sorter_weight n (payload (IFilesSet s) = []) pc + 1 + item_cost n + 8 * n \<le>
        sorter_weight n (payload (IFilesSet s) = []) (ths ! i)"
      using sort(1,2) by (simp add: sort_cost_def)
    ultimately show ?thesis using upd sort(3) by simp
  qed (use assms(3) in simp)
  show "OFilesSet (fst w) \<subseteq> OFilesSet s"
    using act assms(1) by (cases rule: sorter_cases; simp add: judged_frame drop_ifile_def)+
qed

text \<open>The step of each phase of the main thread that lowers the weight.\<close>

lemma sorter_step_lowers:
  assumes M_sort: "main p = M_sort" and W: "par_world p = (s, fs)" and u: "unlocked s" and fin: "finite (OFilesSet s)"
    and i: "i < length (sorters p)" "sorters p ! i \<noteq> S_done"
  shows "\<exists>p'. par_step iter del p p' \<and> weight p' < weight p"
proof -
  obtain pc w where act: "sorter_act (sorters p ! i) (s, fs) = Ret (pc, w)" using sorter_moves [OF u] by blast
  note low = sorter_lowers(1) [OF u i act refl refl, of "workers p"] sorter_lowers(2) [OF u i act refl refl]
  have "card (OFilesSet (fst w)) \<le> card (OFilesSet s)" using low(2) fin by (rule card_mono [rotated])
  then have "delete_cost (length (workers p)) * card (OFilesSet (fst w)) \<le> delete_cost (length (workers p)) * card (OFilesSet s)"
    by (rule mult_le_mono2)
  moreover have "weight p = queue_weight (length (workers p)) (length (sorters p)) s +
      sorters_weight (length (workers p)) s (sorters p) + workers_weight s (workers p) +
      (4 + delete_cost (length (workers p)) * card (OFilesSet s))"
    using W M_sort by (simp add: weight_def Let_def)
  moreover have "weight (p\<lparr>par_world := w, sorters := (sorters p)[i := pc], sorted_log := sorted_log p @ sorting (sorters p ! i)\<rparr>) =
      queue_weight (length (workers p)) (length (sorters p)) (fst w) +
      sorters_weight (length (workers p)) (fst w) ((sorters p)[i := pc]) + workers_weight (fst w) (workers p) +
      (4 + delete_cost (length (workers p)) * card (OFilesSet (fst w)))"
    using M_sort by (simp add: weight_def Let_def)
  ultimately have "weight (p\<lparr>par_world := w, sorters := (sorters p)[i := pc], sorted_log := sorted_log p @ sorting (sorters p ! i)\<rparr>) < weight p"
    using low(1) by linarith
  then show ?thesis using step_sorter [of i p pc w iter del] i(1) act W by auto
qed

lemma delete_step_lowers:
  assumes M_delete: "main p = M_delete (g # l')" and W: "par_world p = (s, fs)" and u: "unlocked s"
  shows "\<exists>p'. par_step iter del p p' \<and> weight p' < weight p"
proof -
  define q where "q = (deleteQueue s)\<lparr>payload := payload (deleteQueue s) @ [outputPrefix s @ g]\<rparr>"
  have push: "dq_push_back (outputPrefix s @ g) (deleteQueue s) = (Ret (), q)"
    using u by (simp add: dq_push_back_def guarded_free unlocked_def q_def)
  let ?s = "s\<lparr>deleteQueue := q, cdeleted := cdeleted s + 1\<rparr>" and ?n = "length (workers p)"
  have "queue_weight ?n m ?s = queue_weight ?n m s + item_cost ?n" for m
    by (simp add: queue_weight_def q_def algebra_simps)
  moreover have "workers_weight ?s (workers p) \<le> 8 * ?n" by (rule workers_bound)
  moreover have "sorters_weight ?n ?s (sorters p) = sorters_weight ?n s (sorters p)"
    by (simp add: sorters_weight_def)
  ultimately have "weight (p\<lparr>main := M_delete l', par_world := (?s, fs)\<rparr>) < weight p"
    using W M_delete by (simp add: weight_def Let_def delete_cost_def)
  then show ?thesis using step_delete [OF M_delete W push] by blast
qed

lemma worker_step_lowers:
  assumes M_join: "main p = M_join" and W: "par_world p = (s, fs)" and u: "unlocked s" and d: "doneStuff s"
    and i: "i < length (workers p)" "workers p ! i \<noteq> W_exit"
  shows "\<exists>p'. par_step iter del p p' \<and> weight p' < weight p"
proof -
  obtain pc w where act: "worker_act (workers p ! i) (s, fs) = Ret (pc, w)" using worker_moves [OF u] by blast
  note low = worker_lowers [OF u d i act refl]
  have "weight (p\<lparr>par_world := w, workers := (workers p)[i := pc], copied_log := copied_log p @ copying (workers p ! i)\<rparr>) < weight p"
    using low(1) [of "length (sorters p)"] low(2,3) W M_join by (simp add: weight_def Let_def sorters_weight_def)
  then show ?thesis using step_worker [of i p pc w iter del] i(1) act W by auto
qed

text \<open>The steps of the main thread between its loops.\<close>

lemma sorted_step_lowers:
  assumes "main p = M_sort" "par_world p = (s, fs)" "iterates iter" "finite (OFilesSet s)" "\<forall>pc \<in> set (sorters p). pc = S_done"
  shows "\<exists>p'. par_step iter del p p' \<and> weight p' < weight p"
proof -
  have len: "length (iter (OFilesSet s)) = card (OFilesSet s)"
    using assms(3,4) by (metis distinct_card iterates_def)
  let ?p' = "p\<lparr>main := (if del then M_delete (iter (OFilesSet (fst (par_world p)))) else M_signal)\<rparr>"
  have "par_step iter del p ?p'" using assms(1,5) by (rule step_sorted)
  moreover have "weight ?p' < weight p" using assms(1,2) len by (simp add: weight_def Let_def)
  ultimately show ?thesis by blast
qed

lemma signal_step_lowers:
  assumes "main p = M_signal" "par_world p = (s, fs)"
  shows "\<exists>p'. par_step iter del p p' \<and> weight p' < weight p"
proof -
  let ?p' = "p\<lparr>main := M_join, par_world := (s\<lparr>doneStuff := True\<rparr>, fs)\<rparr>"
  have "weight ?p' < weight p"
    using assms by (simp add: weight_def Let_def queue_weight_def sorters_weight_def workers_weight_def)
  then show ?thesis using step_signal [OF assms] by blast
qed

lemma join_step_lowers:
  assumes "main p = M_join" "par_world p = (s, fs)" "\<forall>pc \<in> set (workers p). pc = W_exit"
  shows "\<exists>p'. par_step iter del p p' \<and> weight p' < weight p"
proof -
  let ?p' = "p\<lparr>main := M_end, par_world := (s\<lparr>threads := 0, activeCopy := False\<rparr>, fs)\<rparr>"
  have "weight ?p' < weight p"
    using assms by (simp add: weight_def Let_def queue_weight_def sorters_weight_def workers_weight_def)
  then show ?thesis using step_join [OF assms] by blast
qed

lemma some_step_lowers:
  assumes k: "task_ok k" and it: "iterates iter" and inv: "par_inv k p" and e: "main p \<noteq> M_end"
  shows "\<exists>p'. par_step iter (tdel k) p p' \<and> weight p' < weight p"
proof -
  obtain s fs where W: "par_world p = (s, fs)" by (cases "par_world p")
  have c: "inv_control p" and f: "inv_files k p" and u: "unlocked s"
    using inv W by (simp_all add: par_inv_def inv_state_def)
  have "OFilesSet s \<subseteq> out_rel k" using f W by (auto simp: inv_files_def Let_def)
  then have fin: "finite (OFilesSet s)" by (rule finite_subset) (simp add: out_rel_def)
  show ?thesis
  proof (cases "main p")
    case M_sort
    show ?thesis
    proof (cases "\<forall>pc \<in> set (sorters p). pc = S_done")
      case False
      then show ?thesis using sorter_step_lowers [OF M_sort W u fin] by (auto simp: in_set_conv_nth)
    qed (rule sorted_step_lowers [OF M_sort W it fin])
  next
    case (M_delete l)
    show ?thesis
    proof (cases l)
      case Nil
      then have "par_step iter (tdel k) p (p\<lparr>main := M_signal\<rparr>)" using M_delete by (auto intro: step_deleted)
      then show ?thesis using M_delete by (intro exI [of _ "p\<lparr>main := M_signal\<rparr>"]) (simp add: weight_def Let_def)
    next
      case (Cons g l')
      then show ?thesis using delete_step_lowers [OF _ W u] M_delete by simp
    qed
  next
    case M_signal
    then show ?thesis using W by (rule signal_step_lowers)
  next
    case M_join
    then have d: "doneStuff s" using control_done [OF c] W by simp
    show ?thesis
    proof (cases "\<forall>pc \<in> set (workers p). pc = W_exit")
      case False
      then show ?thesis using worker_step_lowers [OF M_join W u d] by (auto simp: in_set_conv_nth)
    qed (rule join_step_lowers [OF M_join W])
  qed (use e in simp)
qed

lemma par_reach_front: "par_reach iter del p' q \<Longrightarrow> par_step iter del p p' \<Longrightarrow> par_reach iter del p q"
  by (induction rule: par_reach.induct) (auto intro: par_reach.intros)

lemma end_reachable:
  assumes "task_ok k" "iterates iter"
  shows "par_inv k p \<Longrightarrow> \<exists>q. par_reach iter (tdel k) p q \<and> main q = M_end"
proof (induction p rule: measure_induct_rule [of weight])
  case (less p)
  show ?case
  proof (cases "main p = M_end")
    case False
    then obtain p' where st: "par_step iter (tdel k) p p'" and w: "weight p' < weight p"
      using some_step_lowers [OF assms less.prems] by blast
    then obtain q where "par_reach iter (tdel k) p' q" "main q = M_end"
      using less.IH step_keeps [OF assms less.prems st] by blast
    then show ?thesis using par_reach_front [OF _ st] by blast
  qed (auto intro: par_refl)
qed

section \<open>Properties\<close>

text \<open>C2: however the four sorters, the workers and the main thread of \<open>Copy\<close> are interleaved, when
  the workers have been joined no item is left in a queue, no error was recorded, every file counted
  for transfer was transferred exactly once, and the file system is the one \<open>synced\<close> describes.\<close>

theorem Copy_threads_synchronise:
  assumes "sync_ready fs inp out" and "iterates iter" and "0 < processors"
    and "deletewithoutmatch \<Longrightarrow> nothing_nested fs inp out"
    and "Copy_prepare iter inp out ow force move processors (new_functions, fs) = Ret w3"
    and "par_reach iter deletewithoutmatch (par_start (nat processors) w3) p"
    and "main p = M_end" and "par_world p = (s, fs')"
  shows "payload (copyQueue s) = [] \<and> payload (deleteQueue s) = [] \<and> payload (errors s) = [] \<and>
    filesCopied s = filesToCopy s \<and> distinct (copied_log p) \<and>
    set (copied_log p) = set (map (join_names (windows fs)) (to_copy fs inp out ow force)) \<and>
    (\<forall>q. node_at fs' q = synced fs inp out ow force move q)"
proof -
  obtain fs3 where k: "task_ok (task_of fs fs3 inp out deletewithoutmatch ow force move)"
    and inv0: "par_inv (task_of fs fs3 inp out deletewithoutmatch ow force move) (par_start (nat processors) w3)"
    using start_inv [OF assms(1,2,4,5)] by blast
  let ?k = "task_of fs fs3 inp out deletewithoutmatch ow force move"
  have inv: "par_inv ?k p" using reach_keeps [OF k assms(2) _ inv0] assms(6) by simp
  have "workers p \<noteq> []" "sorters p \<noteq> []"
    using par_lengths [OF assms(6)] assms(3) by (auto simp: par_start_def simp flip: length_greater_0_conv)
  note fin = end_state [OF k inv assms(7) this assms(8)]
  have log: "mset (copied_log p) = mset (filter (rel_wanted ?k) (all_rel ?k))" using fin by simp
  then have "distinct (copied_log p)" using distinct_all_rel [OF k] mset_eq_imp_distinct_iff distinct_filter by blast
  moreover have "set (copied_log p) = {x \<in> set (all_rel ?k). rel_wanted ?k x}" using mset_eq_setD [OF log] by simp
  moreover have "\<dots> = rel_name fs ` set (to_copy fs inp out ow force)"
    by (auto simp: all_rel_def rel_wanted_def wanted_files_def to_copy_def)
  ultimately show ?thesis using fin by (simp add: rel_name_def)
qed

text \<open>C11: a worker leaves its loop only after the done flag was set, and then for good reason: in every
  reachable state in which some worker has left, both queues are empty, and the sorters are done.\<close>

theorem worker_exits_in_time:
  assumes "sync_ready fs inp out" and "iterates iter" and "deletewithoutmatch \<Longrightarrow> nothing_nested fs inp out"
    and "Copy_prepare iter inp out ow force move processors (new_functions, fs) = Ret w3"
    and "par_reach iter deletewithoutmatch (par_start n w3) p"
    and "W_exit \<in> set (workers p)"
  shows "doneStuff (fst (par_world p)) \<and> payload (copyQueue (fst (par_world p))) = [] \<and>
    payload (deleteQueue (fst (par_world p))) = [] \<and> set (sorters p) \<subseteq> {S_done}"
proof -
  obtain fs3 where k: "task_ok (task_of fs fs3 inp out deletewithoutmatch ow force move)"
    and inv0: "par_inv (task_of fs fs3 inp out deletewithoutmatch ow force move) (par_start n w3)"
    using start_inv [OF assms(1,2,3,4)] by blast
  let ?k = "task_of fs fs3 inp out deletewithoutmatch ow force move"
  have "par_inv ?k p" using reach_keeps [OF k assms(2) _ inv0] assms(5) by simp
  then have c: "inv_control p" by (simp add: par_inv_def)
  have w: "doneStuff (fst (par_world p))" "payload (copyQueue (fst (par_world p))) = []"
    "payload (deleteQueue (fst (par_world p))) = []" using worker_control [OF c assms(6)] by simp_all
  moreover have "main p \<noteq> M_sort" using control_done [OF c] w(1) by auto
  then have "set (sorters p) \<subseteq> {S_done}" using c by (simp add: inv_control_def Let_def)
  ultimately show ?thesis by simp
qed

text \<open>C3: the threads never block each other for good: from every state they can reach, in any
  order, the end of the copy phase can still be reached, with any number of workers.\<close>

theorem Copy_threads_can_finish:
  assumes "sync_ready fs inp out" and "iterates iter" and "deletewithoutmatch \<Longrightarrow> nothing_nested fs inp out"
    and "Copy_prepare iter inp out ow force move processors (new_functions, fs) = Ret w3"
    and "par_reach iter deletewithoutmatch (par_start n w3) p"
  shows "\<exists>q. par_reach iter deletewithoutmatch p q \<and> main q = M_end"
proof -
  obtain fs3 where k: "task_ok (task_of fs fs3 inp out deletewithoutmatch ow force move)"
    and inv0: "par_inv (task_of fs fs3 inp out deletewithoutmatch ow force move) (par_start n w3)"
    using start_inv [OF assms(1,2,3,4)] by blast
  let ?k = "task_of fs fs3 inp out deletewithoutmatch ow force move"
  have "par_inv ?k p" using reach_keeps [OF k assms(2) _ inv0] assms(5) by simp
  then show ?thesis using end_reachable [OF k assms(2)] by simp
qed

section \<open>Examples\<close>

lemma example_prepared:
  "\<exists>w3. Copy_prepare sorted_list_of_set ''/in'' ''/out'' False False False 2 (new_functions, example_fs) = Ret w3"
  using prepare_phase [OF example_ready sorted_iterates, of False False False 2] by (elim exE conjE) (rule exI)

lemma example_ends:
  "\<exists>w3 p. Copy_prepare sorted_list_of_set ''/in'' ''/out'' False False False 2 (new_functions, example_fs) = Ret w3 \<and>
    par_reach sorted_list_of_set True (par_start 2 w3) p \<and> main p = M_end"
proof -
  obtain w3 where w3: "Copy_prepare sorted_list_of_set ''/in'' ''/out'' False False False 2 (new_functions, example_fs) = Ret w3"
    using example_prepared by blast
  obtain fs3 where k: "task_ok (task_of example_fs fs3 ''/in'' ''/out'' True False False False)"
    and inv0: "par_inv (task_of example_fs fs3 ''/in'' ''/out'' True False False False) (par_start 2 w3)"
    using start_inv [OF example_ready sorted_iterates example_nested w3] by blast
  obtain q where "par_reach sorted_list_of_set True (par_start 2 w3) q" "main q = M_end"
    using end_reachable [OF k sorted_iterates inv0] unfolding task_of_simps by (elim exE conjE)
  with w3 show ?thesis by (intro exI [of _ w3] exI [of _ q] conjI)
qed

theorem Copy_threads_synchronise_witness:
  "\<exists>(p :: par_sys) s fs'. main p = M_end \<and> par_world p = (s, fs') \<and> set (copied_log p) = {''a''} \<and>
    node_at fs' [''out'', ''a''] = Some (File (FileTime 100) ''xx'')"
proof -
  obtain w3 p where w3: "Copy_prepare sorted_list_of_set ''/in'' ''/out'' False False False 2 (new_functions, example_fs) = Ret w3"
    and p: "par_reach sorted_list_of_set True (par_start 2 w3) p" "main p = M_end"
    using example_ends by blast
  obtain s fs' where W: "par_world p = (s, fs')" by (cases "par_world p")
  have n: "(0::int) < 2" "par_start 2 w3 = par_start (nat 2) w3" by simp_all
  note result = Copy_threads_synchronise [OF example_ready sorted_iterates n(1) example_nested w3 p(1) [unfolded n(2)] p(2) W]
  have "set (copied_log p) = {''a''}" "node_at fs' [''out'', ''a''] = Some (File (FileTime 100) ''xx'')"
  proof -
    show "set (copied_log p) = {''a''}" using result unfolding example_to_copy by simp
    have "node_at fs' [''out'', ''a''] = synced example_fs ''/in'' ''/out'' False False False [''out'', ''a'']"
      using result by blast
    then show "node_at fs' [''out'', ''a''] = Some (File (FileTime 100) ''xx'')" unfolding example_nodes(1) .
  qed
  with p(2) W show ?thesis by (intro exI [of _ p] exI [of _ s] exI [of _ fs'] conjI)
qed

theorem worker_exits_in_time_witness:
  "\<exists>p :: par_sys. W_exit \<in> set (workers p) \<and> doneStuff (fst (par_world p)) \<and> payload (copyQueue (fst (par_world p))) = []"
proof -
  obtain w3 p where w3: "Copy_prepare sorted_list_of_set ''/in'' ''/out'' False False False 2 (new_functions, example_fs) = Ret w3"
    and p: "par_reach sorted_list_of_set True (par_start 2 w3) p" "main p = M_end"
    using example_ends by blast
  obtain fs3 where k: "task_ok (task_of example_fs fs3 ''/in'' ''/out'' True False False False)"
    and inv0: "par_inv (task_of example_fs fs3 ''/in'' ''/out'' True False False False) (par_start 2 w3)"
    using start_inv [OF example_ready sorted_iterates example_nested w3] by blast
  have "par_inv (task_of example_fs fs3 ''/in'' ''/out'' True False False False) p"
    using reach_keeps [OF k sorted_iterates _ inv0] p(1) by simp
  then have "set (workers p) \<subseteq> {W_exit}" using p(2) by (simp add: par_inv_def inv_control_def Let_def)
  moreover have "length (workers p) = 2" using par_lengths [OF p(1)] by (simp add: par_start_def)
  ultimately have "W_exit \<in> set (workers p)" by (cases "workers p") auto
  from worker_exits_in_time [OF example_ready sorted_iterates example_nested w3 p(1) this]
  show ?thesis using \<open>W_exit \<in> set (workers p)\<close> by (intro exI [of _ p]) simp
qed

theorem Copy_threads_can_finish_witness:
  "\<exists>w3 q. par_reach sorted_list_of_set True (par_start 0 w3) q \<and> main q = M_end"
proof -
  obtain w3 where w3: "Copy_prepare sorted_list_of_set ''/in'' ''/out'' False False False 2 (new_functions, example_fs) = Ret w3"
    using example_prepared by blast
  from Copy_threads_can_finish [OF example_ready sorted_iterates example_nested w3 par_refl]
  show ?thesis by blast
qed

end
