(* ===== verification/Formatting.thy ===== *)
theory Formatting
  imports Prelude
begin

text \<open>
  Numbers as text: \<open>FormatTime\<close> and \<open>FormatTimeNS\<close> (\<open>src/Functions.cpp\<close>) and \<open>GetSize\<close>
  (\<open>src/main.cpp\<close>). The code divides in floating point and truncates; the precision \<open>p\<close> of
  \<open>long double\<close> (64 bits on x87, 53 with MSVC) is a parameter, and rounding is to nearest, ties to
  even, in exact integer arithmetic. The theorems relate the result to integer division.
\<close>

section \<open>Rounding\<close>

definition round_even :: "nat \<Rightarrow> nat \<Rightarrow> nat" where
  "round_even n d =
     (let q = n div d; r = n mod d
      in if 2 * r < d then q else if 2 * r > d then Suc q else if even q then q else Suc q)"

lemma round_even_bounds: "n div d \<le> round_even n d" "round_even n d \<le> Suc (n div d)"
  by (simp_all add: round_even_def Let_def)

lemma round_even_exact: "0 < d \<Longrightarrow> d dvd n \<Longrightarrow> round_even n d = n div d"
  by (simp add: round_even_def Let_def dvd_eq_mod_eq_0)

lemma round_even_down: "2 * (n mod d) < d \<Longrightarrow> round_even n d = n div d"
  by (simp add: round_even_def Let_def)

text \<open>An unsigned number as a float of \<open>p\<close> bits: exact below \<open>2^p\<close>, else rounded at \<open>2^e\<close>.\<close>

function shift_of :: "nat \<Rightarrow> nat \<Rightarrow> nat" where
  "shift_of p n = (if n < 2 ^ p then 0 else Suc (shift_of (Suc p) n))"
  by auto
termination
proof (relation "measure (\<lambda>(p, n). n - p)")
  fix p n :: nat
  assume "\<not> n < 2 ^ p"
  moreover have "p < 2 ^ p" by (rule less_exp)
  ultimately have "p < n" by linarith
  then show "((Suc p, n), p, n) \<in> measure (\<lambda>(p, n). n - p)" by simp
qed simp

declare shift_of.simps [simp del]

definition to_float :: "nat \<Rightarrow> nat \<Rightarrow> nat" where
  "to_float p n = (let e = shift_of p n in 2 ^ e * round_even n (2 ^ e))"

lemma to_float_exact: "n < 2 ^ p \<Longrightarrow> to_float p n = n"
  by (simp add: to_float_def shift_of.simps [of p n] round_even_def)

text \<open>The number of doublings that bring a quotient up to \<open>p\<close> bits.\<close>

function scale_of :: "nat \<Rightarrow> nat \<Rightarrow> nat" where
  "scale_of n lim = (if n = 0 \<or> lim \<le> n then 0 else Suc (scale_of (2 * n) lim))"
  by auto
termination by (relation "measure (\<lambda>(n, lim). lim - n)") auto

declare scale_of.simps [simp del]

text \<open>\<open>(int64_t)trunc((long double)n / d)\<close>.\<close>

definition trunc_quot :: "nat \<Rightarrow> nat \<Rightarrow> nat \<Rightarrow> nat" where
  "trunc_quot p n d =
     (let m = to_float p n
      in if d * 2 ^ p \<le> m then (let e = shift_of p (m div d) in 2 ^ e * round_even m (d * 2 ^ e))
         else (let s = scale_of m (d * 2 ^ (p - 1)) in round_even (2 ^ s * m) d div 2 ^ s))"

lemma scale_of_lower: "0 < n \<Longrightarrow> lim \<le> 2 ^ scale_of n lim * n"
proof (induction n lim rule: scale_of.induct)
  case (1 n lim)
  then show ?case by (cases "lim \<le> n") (simp_all add: scale_of.simps [of n lim] algebra_simps)
qed

text \<open>
  The rounded quotient never reaches the next integer: one less than it is \<open>d\<close>-th of a unit away,
  and half a unit in the last place is smaller than that.
\<close>

text \<open>The quotient, scaled to \<open>p\<close> bits and rounded to even, stays below the next whole number: rounding up to
  it would need a remainder of more than the divisor leaves room for.\<close>

lemma not_rounded_up:
  fixes n d p s :: nat
  assumes "0 < p" "0 < d" "n < 2 ^ p" "d * 2 ^ (p - 1) \<le> 2 ^ s * n" and half: "d \<le> 2 * (2 ^ s * n mod d)"
  shows "Suc ((2 ^ s * n) div d) \<noteq> 2 ^ s * Suc (n div d)"
proof
  assume e: "Suc ((2 ^ s * n) div d) = 2 ^ s * Suc (n div d)"
  have "n < d * Suc (n div d)" using assms(2) by (simp add: dividend_less_times_div)
  then have "2 ^ s * n + 2 ^ s \<le> 2 ^ s * (d * Suc (n div d))"
    by (metis Suc_leI mult_le_mono2 mult_Suc_right add.commute)
  then have "2 ^ s * n + 2 ^ s \<le> d * (2 ^ s * Suc (n div d))" by (simp only: mult.left_commute)
  moreover have "d * ((2 ^ s * n) div d) + 2 ^ s * n mod d = 2 ^ s * n" by simp
  moreover have "d * (2 ^ s * Suc (n div d)) = d * ((2 ^ s * n) div d) + d" unfolding e [symmetric] by simp
  ultimately have "2 ^ s * n mod d + 2 ^ s \<le> d" by linarith
  then have "2 * 2 ^ s \<le> d" using half by linarith
  then have "2 * 2 ^ s * 2 ^ (p - 1) \<le> d * 2 ^ (p - 1)" by (rule mult_le_mono1)
  moreover have "(2::nat) * 2 ^ s * 2 ^ (p - 1) = 2 ^ s * 2 ^ p" using assms(1) by (cases p) simp_all
  ultimately have "2 ^ s * 2 ^ p \<le> 2 ^ s * n" using assms(4) by linarith
  then show False using assms(3) by simp
qed

lemma scaled_quot_bounds:
  fixes n d s :: nat
  assumes "0 < d"
  shows "2 ^ s * (n div d) \<le> (2 ^ s * n) div d" "(2 ^ s * n) div d < 2 ^ s * Suc (n div d)"
proof -
  have "d * (n div d) \<le> n" by simp
  then have "2 ^ s * (n div d) * d \<le> 2 ^ s * n" by (simp add: ac_simps)
  then show "2 ^ s * (n div d) \<le> (2 ^ s * n) div d" using assms by (simp add: less_eq_div_iff_mult_less_eq)
  have "n < d * Suc (n div d)" using assms by (simp add: dividend_less_times_div)
  then have "2 ^ s * n < 2 ^ s * (d * Suc (n div d))" by (simp only: nat_mult_less_cancel1 zero_less_power zero_less_numeral)
  then have "2 ^ s * n < 2 ^ s * Suc (n div d) * d" by (simp only: ac_simps)
  then show "(2 ^ s * n) div d < 2 ^ s * Suc (n div d)" by (rule less_mult_imp_div_less)
qed

lemma trunc_quot_exact:
  assumes "0 < p" "0 < d" "n < 2 ^ p"
  shows "trunc_quot p n d = n div d"
proof (cases "n = 0")
  case True
  then show ?thesis using assms by (simp add: trunc_quot_def to_float_exact scale_of.simps round_even_def)
next
  case False
  have lt: "n < d * 2 ^ p" using assms(2,3) by (metis less_le_trans mult.commute mult_le_mono2 nat_mult_1_right Suc_leI One_nat_def)
  define s where "s = scale_of n (d * 2 ^ (p - 1))"
  have enough: "d * 2 ^ (p - 1) \<le> 2 ^ s * n" using scale_of_lower [of n "d * 2 ^ (p - 1)"] False by (simp add: s_def)
  note bounds = scaled_quot_bounds [OF assms(2), of s n] round_even_bounds [of "2 ^ s * n" d]
  have high: "round_even (2 ^ s * n) d < 2 ^ s * Suc (n div d)"
  proof (cases "round_even (2 ^ s * n) d = (2 ^ s * n) div d")
    case False
    then have "d \<le> 2 * (2 ^ s * n mod d)" using round_even_down [of "2 ^ s * n" d] by (metis not_less)
    then have "Suc ((2 ^ s * n) div d) \<noteq> 2 ^ s * Suc (n div d)" by (rule not_rounded_up [OF assms enough])
    then show ?thesis using False bounds by linarith
  qed (use bounds in simp)
  have "round_even (2 ^ s * n) d div 2 ^ s = n div d"
    using bounds high by (intro div_nat_eqI) linarith+
  then show ?thesis using lt assms(3) by (simp add: trunc_quot_def to_float_exact s_def Let_def)
qed

section \<open>FormatTime and FormatTimeNS\<close>

text \<open>
  The stream writes right-aligned numbers (\<open>setw\<close>) with their units; the micro sign is the two bytes
  of its UTF-8 code. A negative argument fails every test and is printed as it is. \<open>FormatTime_nat\<close>
  and \<open>FormatTimeNS_nat\<close> are the bodies for arguments that are not negative.
\<close>

definition micro :: string where
  "micro = [CHR 0xCE, CHR 0xBC] @ ''s''"

definition field :: "nat \<Rightarrow> nat \<Rightarrow> nat \<Rightarrow> string \<Rightarrow> nat \<Rightarrow> string \<times> nat" where
  "field p unit width utext n =
     (if unit < n then let tmp = trunc_quot p n unit in (setw width (show_nat tmp) @ utext, n - tmp * unit)
      else (replicate (width + length utext) (CHR '' ''), n))"

definition FormatTime :: "nat \<Rightarrow> int \<Rightarrow> string" where
  "FormatTime p microseconds =
     (if microseconds < 0 then replicate 18 (CHR '' '') @ setw 3 (show_int microseconds) @ micro
      else let (m, n1) = field p 60000000 6 ''m '' (nat microseconds);
               (s, n2) = field p 1000000 2 ''s '' n1;
               (ms, n3) = field p 1000 3 ''ms '' n2
           in m @ s @ ms @ setw 3 (show_nat n3) @ micro)"

text \<open>In \<open>FormatTimeNS\<close> the blank field for microseconds has six characters, as \<open>us\<close> would have.\<close>

definition FormatTimeNS :: "nat \<Rightarrow> int \<Rightarrow> string" where
  "FormatTimeNS p nanoseconds =
     (if nanoseconds < 0 then replicate 24 (CHR '' '') @ setw 3 (show_int nanoseconds) @ ''ns''
      else let (m, n1) = field p 60000000000 6 ''m '' (nat nanoseconds);
               (s, n2) = field p 1000000000 2 ''s '' n1;
               (ms, n3) = field p 1000000 3 ''ms '' n2;
               (us, n4) = (if 1000 < n3 then
                             let tmp = trunc_quot p n3 1000
                             in (setw 3 (show_nat tmp) @ micro @ '' '', n3 - tmp * 1000)
                           else (replicate 6 (CHR '' ''), n3))
           in m @ s @ ms @ us @ setw 3 (show_nat n4) @ ''ns'')"

section \<open>GetSize\<close>

text \<open>\<open>%7f\<close> of \<open>n / 2^k\<close>, printed with six decimals (rounded to even), in a field of seven.\<close>

definition pad6 :: "nat \<Rightarrow> string" where
  "pad6 n = replicate (6 - length (show_nat n)) (CHR ''0'') @ show_nat n"

definition fixed6 :: "nat \<Rightarrow> nat \<Rightarrow> string" where
  "fixed6 n d = (let v = round_even (n * 1000000) d in setw 7 (show_nat (v div 1000000) @ ''.'' @ pad6 (v mod 1000000)))"

definition GetSize :: "64 word \<Rightarrow> string" where
  "GetSize v =
     (let value = unat v; x = to_float 53 value
      in if value < 1024 then fixed6 x 1 @ '' B ''
         else if value < 1048576 then fixed6 x 1024 @ '' KB''
         else if value < 1073741824 then fixed6 x 1048576 @ '' MB''
         else if value < 1099511627776 then fixed6 x 1073741824 @ '' GB''
         else if value < 1125899906842624 then fixed6 x 1099511627776 @ '' TB''
         else fixed6 x 1125899906842624 @ '' PB'')"

section \<open>The percentage of main\<close>

text \<open>
  \<open>(int)((double)copied / (double)whole * 100)\<close>: the quotient and the product are rounded to 53 bits,
  and the conversion is undefined for what is no number or does not fit (\<open>0 / 0\<close> when there is nothing
  to copy).
\<close>

definition percent :: "64 word \<Rightarrow> 64 word \<Rightarrow> int outcome" where
  "percent copied whole =
     (if whole = 0 then Undef
      else let c = to_float 53 (unat copied);
               t = to_float 53 (unat whole);
               v = (if t * 2 ^ 53 \<le> c then (let e = shift_of 53 (c div t) in to_float 53 (2 ^ e * round_even c (t * 2 ^ e) * 100))
                    else (let s = scale_of c (t * 2 ^ 52) in to_float 53 (round_even (2 ^ s * c) t * 100) div 2 ^ s))
           in if v < 2 ^ 31 then Ret (int v) else Undef)"

section \<open>Printing and reading back\<close>

text \<open>What a field leaves over, when the division is exact.\<close>

lemma field_exact:
  assumes "0 < p" "0 < unit" "n < 2 ^ p"
  shows "field p unit width utext n =
    (if unit < n then (setw width (show_nat (n div unit)) @ utext, n mod unit)
     else (replicate (width + length utext) (CHR '' ''), n))"
  using assms by (simp add: field_def trunc_quot_exact Let_def minus_div_mult_eq_mod)

text \<open>One part of the text: blank when its number is zero.\<close>

definition part :: "nat \<Rightarrow> string \<Rightarrow> nat \<Rightarrow> string" where
  "part width utext x =
     (if x = 0 then replicate (width + length utext) (CHR '' '') else setw width (show_nat x) @ utext)"

lemma field_part:
  assumes "0 < p" "0 < unit" "n < 2 ^ p"
  shows "\<exists>x r. field p unit width utext n = (part width utext x, r) \<and> n = unit * x + r \<and> r \<le> unit \<and> (0 < x \<longrightarrow> r < unit)"
proof (cases "unit < n")
  case True
  then have "n div unit \<noteq> 0" using assms(2) by (simp add: div_eq_0_iff)
  then show ?thesis using True assms
    by (intro exI [of _ "n div unit"] exI [of _ "n mod unit"]) (simp add: field_exact part_def less_imp_le)
next
  case False
  then show ?thesis using assms
    by (intro exI [of _ 0] exI [of _ n]) (simp add: field_exact part_def)
qed

lemma part_length: "x < 10 ^ width \<Longrightarrow> 0 < width \<Longrightarrow> length (part width utext x) = width + length utext"
  using show_nat_length [of x width] by (simp add: part_def)

lemma FormatTime_parts:
  assumes "0 < p" "n < 2 ^ p"
  shows "\<exists>m s ms us. n = 60000000 * m + 1000000 * s + 1000 * ms + us \<and> s \<le> 60 \<and> ms \<le> 1000 \<and> us \<le> 1000 \<and>
    (0 < s \<longrightarrow> ms < 1000) \<and> (0 < ms \<longrightarrow> us < 1000) \<and>
    FormatTime p (int n) = part 6 ''m '' m @ part 2 ''s '' s @ part 3 ''ms '' ms @ setw 3 (show_nat us) @ micro"
proof -
  obtain m n1 where 1: "field p 60000000 6 ''m '' n = (part 6 ''m '' m, n1)" "n = 60000000 * m + n1" "n1 \<le> 60000000"
    using field_part [of p 60000000 n 6 "''m ''"] assms by auto
  have "n1 < 2 ^ p" using 1(2) assms(2) by simp
  then obtain s n2 where 2: "field p 1000000 2 ''s '' n1 = (part 2 ''s '' s, n2)" "n1 = 1000000 * s + n2" "n2 \<le> 1000000"
      "0 < s \<longrightarrow> n2 < 1000000"
    using field_part [of p 1000000 n1 2 "''s ''"] assms by auto
  have "n2 < 2 ^ p" using 2(2) \<open>n1 < 2 ^ p\<close> by simp
  then obtain ms us where 3: "field p 1000 3 ''ms '' n2 = (part 3 ''ms '' ms, us)" "n2 = 1000 * ms + us" "us \<le> 1000"
      "0 < ms \<longrightarrow> us < 1000"
    using field_part [of p 1000 n2 3 "''ms ''"] assms by auto
  have "FormatTime p (int n) = part 6 ''m '' m @ part 2 ''s '' s @ part 3 ''ms '' ms @ setw 3 (show_nat us) @ micro"
    by (simp add: FormatTime_def 1(1) 2(1) 3(1))
  moreover have "s \<le> 60" "ms \<le> 1000" "0 < s \<longrightarrow> ms < 1000" using 1(3) 2 3(2) by linarith+
  ultimately show ?thesis using 1 2 3 by (intro exI [of _ m] exI [of _ s] exI [of _ ms] exI [of _ us]) simp
qed

section \<open>The buffer of GetSize\<close>

lemma shift_of_bound: "n < 2 ^ (p + k) \<Longrightarrow> shift_of p n \<le> k"
proof (induction k arbitrary: p)
  case 0
  then show ?case by (simp add: shift_of.simps [of p n])
next
  case (Suc k)
  then show ?case by (subst shift_of.simps) (auto simp del: power_Suc)
qed

lemma shift_of_fits: "n < 2 ^ (p + shift_of p n)"
proof (induction p n rule: shift_of.induct)
  case (1 p n)
  then show ?case by (cases "n < 2 ^ p") (simp_all add: shift_of.simps [of p n])
qed

lemma to_float_bound: "to_float p n \<le> 2 ^ (p + shift_of p n)"
proof -
  have "n div 2 ^ shift_of p n < 2 ^ p"
    using shift_of_fits [of n p] by (intro less_mult_imp_div_less) (simp add: power_add mult.commute)
  then have "round_even n (2 ^ shift_of p n) \<le> 2 ^ p" using round_even_bounds(2) [of n "2 ^ shift_of p n"] by linarith
  then show ?thesis by (simp add: to_float_def Let_def power_add mult.commute)
qed

lemma fixed6_length:
  assumes "0 < d" "x \<le> 16384 * d"
  shows "length (fixed6 x d) \<le> 12"
proof -
  have "x * 1000000 \<le> d * 16384000000" using assms(2) by simp
  then have "(x * 1000000) div d \<le> 16384000000"
    using div_le_mono [of "x * 1000000" "d * 16384000000" d] assms(1) by simp
  then have v: "round_even (x * 1000000) d \<le> 16384000001" using round_even_bounds(2) [of "x * 1000000" d] by linarith
  then have "round_even (x * 1000000) d div 1000000 < 10 ^ 5" by simp
  then have a: "length (show_nat (round_even (x * 1000000) d div 1000000)) \<le> 5" by (intro show_nat_length) simp_all
  have "round_even (x * 1000000) d mod 1000000 < 10 ^ 6" by simp
  then have b: "length (show_nat (round_even (x * 1000000) d mod 1000000)) \<le> 6" by (intro show_nat_length) simp_all
  then show ?thesis using a by (simp add: fixed6_def Let_def pad6_def)
qed

section \<open>Properties\<close>

text \<open>C26: the floating-point code of \<open>FormatTime\<close> computes with exact integers: the minutes, seconds,
  milliseconds and microseconds it prints add up to its argument, for every argument that
  \<open>long double\<close> represents exactly.\<close>

theorem FormatTime_adds_up:
  assumes "0 < p" and "n < 2 ^ p"
  shows "\<exists>m s ms us. n = 60000000 * m + 1000000 * s + 1000 * ms + us \<and> s \<le> 60 \<and> ms \<le> 1000 \<and> us \<le> 1000 \<and>
    FormatTime p (int n) = part 6 ''m '' m @ part 2 ''s '' s @ part 3 ''ms '' ms @ setw 3 (show_nat us) @ micro"
  using FormatTime_parts [OF assms] by blast

theorem FormatTime_adds_up_witness:
  "\<exists>m s ms us. 61002003 = 60000000 * m + 1000000 * s + 1000 * ms + us \<and> s \<le> 60 \<and> ms \<le> 1000 \<and> us \<le> (1000::nat) \<and>
    FormatTime 53 (int 61002003) = part 6 ''m '' m @ part 2 ''s '' s @ part 3 ''ms '' ms @ setw 3 (show_nat us) @ micro"
  by (rule FormatTime_adds_up) simp_all

text \<open>The columns of \<open>FormatTime\<close> line up below a million minutes, up to one place: at exactly one
  thousand microseconds, where the test \<open>> 1000\<close> fails, four digits are printed in a field of three.\<close>

theorem FormatTime_width:
  assumes "0 < p" and "n < 2 ^ p" and "n < 60000000 * 10 ^ 6"
  shows "length (FormatTime p (int n)) \<in> {24, 25} \<and> FormatTime p 1000 = replicate 18 (CHR '' '') @ ''1000'' @ micro"
proof -
  obtain m s ms us where n: "n = 60000000 * m + 1000000 * s + 1000 * ms + us" "s \<le> 60" "ms \<le> 1000" "us \<le> 1000"
      "0 < ms \<longrightarrow> us < 1000"
    and f: "FormatTime p (int n) = part 6 ''m '' m @ part 2 ''s '' s @ part 3 ''ms '' ms @ setw 3 (show_nat us) @ micro"
    using FormatTime_parts [OF assms(1,2)] by blast
  have "m < 10 ^ 6" using n(1) assms(3) by simp
  then have l: "length (part 6 ''m '' m) = 8" "length (part 2 ''s '' s) = 4"
    using n(2) part_length [of m 6 "''m ''"] part_length [of s 2 "''s ''"] by simp_all
  have small: "length (show_nat x) \<le> 3" if "x < 1000" for x using that show_nat_length [of x 3] by simp
  have th: "show_nat 1000 = ''1000''" by code_simp
  have "length (part 3 ''ms '' ms) \<in> {6, 7}" "ms < 1000 \<longrightarrow> length (part 3 ''ms '' ms) = 6"
    using n(3) small [of ms] th by (cases "ms = 1000"; simp add: part_def)+
  moreover have "length (setw 3 (show_nat us)) \<in> {3, 4}" "us < 1000 \<longrightarrow> length (setw 3 (show_nat us)) = 3"
    using n(4) small [of us] th by (cases "us = 1000"; simp)+
  moreover have "length micro = 3" by (simp add: micro_def)
  ultimately have "length (FormatTime p (int n)) \<in> {24, 25}" using f l n(3,5) by auto
  moreover have "FormatTime p 1000 = replicate 18 (CHR '' '') @ ''1000'' @ micro"
    using th by (simp add: FormatTime_def field_def setw_def replicate_add [symmetric] flip: append_assoc)
  ultimately show ?thesis by blast
qed

theorem FormatTime_width_witness:
  "length (FormatTime 53 (int 61002003)) \<in> {24, 25} \<and> FormatTime 53 1000 = replicate 18 (CHR '' '') @ ''1000'' @ micro"
  by (rule FormatTime_width) simp_all

text \<open>C27: the text of \<open>GetSize\<close> and its terminating zero fit into the buffer of twenty characters, for
  every 64-bit size.\<close>

theorem GetSize_fits: "length (GetSize v) + 1 \<le> 20"
proof -
  let ?n = "unat v"
  have exact: "to_float 53 ?n = ?n" if "?n < 1125899906842624" using that by (intro to_float_exact) simp
  have peta: "to_float 53 ?n \<le> 16384 * 1125899906842624"
  proof -
    have "?n < 2 ^ (53 + 11)" using unsigned_less [of v] by (simp add: less_le_trans)
    then have "shift_of 53 ?n \<le> 11" by (rule shift_of_bound)
    then have "(2::nat) ^ (53 + shift_of 53 ?n) \<le> 2 ^ 64" by (intro power_increasing) simp_all
    then show ?thesis using to_float_bound [of 53 ?n] by simp
  qed
  have len: "length (fixed6 x d) \<le> 16" if "0 < d" "x \<le> 16384 * d" for x d
    using fixed6_length [OF that] by simp
  show ?thesis
  proof (cases "?n < 1125899906842624")
    case True
    then show ?thesis using exact len [of 1 ?n] len [of 1024 ?n] len [of 1048576 ?n] len [of 1073741824 ?n]
      len [of 1099511627776 ?n] by (simp add: GetSize_def Let_def)
  next
    case False
    then show ?thesis using peta len [of 1125899906842624 "to_float 53 ?n"] by (simp add: GetSize_def Let_def)
  qed
qed

text \<open>When all bytes are copied the last line says 100 percent, and when there was nothing to copy it
  is undefined.\<close>

theorem percent_complete: "percent n n = (if n = 0 then Undef else Ret 100)"
proof (cases "n = 0")
  case False
  let ?t = "to_float 53 (unat n)"
  have "0 < unat n" using False by (simp add: unat_gt_0)
  moreover have "0 < 2 ^ shift_of 53 (unat n) * round_even (unat n) (2 ^ shift_of 53 (unat n))"
  proof (cases "shift_of 53 (unat n)")
    case 0
    then show ?thesis using calculation by (simp add: round_even_exact)
  next
    case (Suc e)
    then have "\<not> unat n < 2 ^ (53 + e)" using shift_of_bound [of "unat n" 53 e] by auto
    then have "2 ^ Suc e \<le> unat n" using power_increasing [of "Suc e" "53 + e" "2::nat"] by linarith
    then have "0 < unat n div 2 ^ Suc e" by (simp add: div_greater_zero_iff)
    then show ?thesis unfolding Suc using round_even_bounds(1) [of "unat n" "2 ^ Suc e"] by simp
  qed
  ultimately have t: "0 < ?t" by (simp add: to_float_def Let_def)
  have "scale_of ?t (?t * 2 ^ 52) = 52"
  proof -
    have "scale_of (2 ^ i * ?t) (?t * 2 ^ (i + k)) = k" for i k
    proof (induction k arbitrary: i)
      case 0
      then show ?case by (simp add: scale_of.simps)
    next
      case (Suc k)
      have "2 ^ i < (2::nat) ^ (i + Suc k)" by (rule power_strict_increasing) simp_all
      then have "\<not> ?t * 2 ^ (i + Suc k) \<le> 2 ^ i * ?t" using t by (metis mult.commute mult_le_cancel2 not_less)
      then show ?case using Suc.IH [of "Suc i"] t by (subst scale_of.simps) (simp add: ac_simps)
    qed
    from this [of 0 52] show ?thesis by simp
  qed
  moreover have "round_even (2 ^ 52 * ?t) ?t = 2 ^ 52" using t by (simp add: round_even_exact)
  moreover have "to_float 53 (2 ^ 52 * 100) div 2 ^ 52 = 100"
    by (simp add: to_float_def shift_of.simps round_even_def)
  ultimately show ?thesis using False t by (simp add: percent_def Let_def)
qed (simp add: percent_def)

end
