(* ===== verification/CopyCounters.thy ===== *)
theory CopyCounters
  imports SyncProgress Formatting
begin

text \<open>
  The threads of \<open>Copy\<close> in smaller steps. In \<open>SyncThreads\<close> the processing of one item is one step; here the
  sorter's push to the copy queue, its two counters and its \<open>erase\<close> are steps of their own, and so are
  the worker's file operation and its two counters. The reads by which a sorter decides about a file go
  with its push: nothing else touches that file before. The size of the file is read behind the push,
  when a worker may already have moved it. And the loop of \<open>main\<close> that prints the counters meanwhile.
\<close>

section \<open>The threads\<close>

datatype fine_sorter =
  F_guard | F_pop | F_sort string | F_bytes string bool | F_files string bool | F_erase string | F_done

text \<open>Whether \<open>Helper_SortFiles\<close> queues a file.\<close>

definition wants_copy :: "string \<Rightarrow> world \<Rightarrow> bool outcome" where
  "wants_copy file w =
     (case w of (s, fs) \<Rightarrow>
        if file \<noteq> [] \<and> file \<in> OFilesSet s then
          (let ITime = last_write_time_ec fs (inputPrefix s @ file);
               OTime = last_write_time_ec fs (outputPrefix s @ file)
           in if ITime > OTime then Ret True
              else if ITime < OTime then Ret (force_flag s)
              else if overwrite_flag s then Ret True
              else obind (file_size fs (inputPrefix s @ file)) (\<lambda>isz.
                   obind (file_size fs (outputPrefix s @ file)) (\<lambda>osz. Ret (isz \<noteq> osz))))
        else Ret True)"

fun fine_sorter_act :: "fine_sorter \<Rightarrow> world \<Rightarrow> (fine_sorter \<times> world) outcome" where
  "fine_sorter_act F_guard w = obind (SortFiles_guard w) (\<lambda>go. Ret (if go then F_pop else F_done, w))"
| "fine_sorter_act F_pop (s, fs) =
     (case dq_get_pop_front (IFilesSet s) of
        (Ret file, q) \<Rightarrow> Ret (F_sort file, (s\<lparr>IFilesSet := q\<rparr>, fs))
      | (Throw e, q) \<Rightarrow> Ret (F_guard, (s\<lparr>IFilesSet := q\<rparr>, fs))
      | (Undef, q) \<Rightarrow> Undef
      | (Diverge, q) \<Rightarrow> Diverge)"
| "fine_sorter_act (F_sort file) (s, fs) =
     (let known = (file \<noteq> [] \<and> file \<in> OFilesSet s)
      in case wants_copy file (s, fs) of
           Ret go \<Rightarrow>
             if go then (case dq_push_back file (copyQueue s) of
                           (r, q) \<Rightarrow> obind r (\<lambda>_. Ret (F_bytes file known, (s\<lparr>copyQueue := q\<rparr>, fs))))
             else Ret (F_erase file, (s, fs))
         | Throw e \<Rightarrow> Ret (F_guard, (s, fs))
         | Undef \<Rightarrow> Undef
         | Diverge \<Rightarrow> Diverge)"
| "fine_sorter_act (F_bytes file known) (s, fs) =
     Ret (F_files file known, (s\<lparr>bytesToCopy := bytesToCopy s + file_size_ec fs (inputPrefix s @ file)\<rparr>, fs))"
| "fine_sorter_act (F_files file known) (s, fs) =
     Ret (if known then F_erase file else F_guard, (s\<lparr>filesToCopy := filesToCopy s + 1\<rparr>, fs))"
| "fine_sorter_act (F_erase file) (s, fs) = Ret (F_guard, (s\<lparr>OFilesSet := OFilesSet s - {file}\<rparr>, fs))"
| "fine_sorter_act F_done w = Ret (F_done, w)"

text \<open>The worker: \<open>F_copied\<close> and \<open>F_sized\<close> stand before the counters of a file it has copied.\<close>

datatype fine_worker = At_call worker_pc | F_copied string | F_sized string

definition transferred_file :: "string \<Rightarrow> world \<Rightarrow> fs outcome" where
  "transferred_file copy w =
     (case w of (s, fs) \<Rightarrow>
        if move_flag s then rename_file fs (inputPrefix s @ copy) (outputPrefix s @ copy)
        else copy_file fs (inputPrefix s @ copy) (outputPrefix s @ copy))"

definition fine_transfer :: "string \<Rightarrow> world \<Rightarrow> (fine_worker \<times> world) outcome" where
  "fine_transfer copy w =
     (case w of (s, fs) \<Rightarrow>
        (case transferred_file copy (s, fs) of
           Ret fs' \<Rightarrow> Ret (F_copied copy, (s, fs'))
         | Throw (Filesystem_error c) \<Rightarrow>
             obind (catch_all (obind (record_error ''[ERROR] [Copy File] '' c s) (\<lambda>s'. Ret (s', fs))) (s, fs))
               (\<lambda>w'. Ret (At_call W_popd, w'))
         | Throw e \<Rightarrow> Ret (At_call W_popd, (s, fs))
         | Undef \<Rightarrow> Undef
         | Diverge \<Rightarrow> Diverge))"

fun fine_worker_act :: "fine_worker \<Rightarrow> world \<Rightarrow> (fine_worker \<times> world) outcome" where
  "fine_worker_act (At_call pc) w =
     (case pc of
        W_copy copy \<Rightarrow> fine_transfer copy w
      | _ \<Rightarrow> obind (worker_act pc w) (\<lambda>(pc', w'). Ret (At_call pc', w')))"
| "fine_worker_act (F_copied copy) (s, fs) = Ret (F_sized copy, (s\<lparr>filesCopied := filesCopied s + 1\<rparr>, fs))"
| "fine_worker_act (F_sized copy) (s, fs) =
     Ret (At_call W_popd, (s\<lparr>bytesCopied := bytesCopied s + file_size_ec fs (outputPrefix s @ copy)\<rparr>, fs))"

record fine_sys =
  f_world :: world
  f_sorters :: "fine_sorter list"
  f_workers :: "fine_worker list"
  f_main :: main_pc

definition fine_start :: "nat \<Rightarrow> world \<Rightarrow> fine_sys" where
  "fine_start processors w =
     \<lparr>f_world = w, f_sorters = replicate 4 F_guard, f_workers = replicate processors (At_call W_done), f_main = M_sort\<rparr>"

inductive fine_step :: "(string set \<Rightarrow> string list) \<Rightarrow> bool \<Rightarrow> fine_sys \<Rightarrow> fine_sys \<Rightarrow> bool"
  for iter :: "string set \<Rightarrow> string list" and deletewithoutmatch :: bool where
  fine_sorter: "i < length (f_sorters p) \<Longrightarrow> fine_sorter_act (f_sorters p ! i) (f_world p) = Ret (pc, w) \<Longrightarrow>
    fine_step iter deletewithoutmatch p (p\<lparr>f_world := w, f_sorters := (f_sorters p)[i := pc]\<rparr>)"
| fine_worker: "i < length (f_workers p) \<Longrightarrow> fine_worker_act (f_workers p ! i) (f_world p) = Ret (pc, w) \<Longrightarrow>
    fine_step iter deletewithoutmatch p (p\<lparr>f_world := w, f_workers := (f_workers p)[i := pc]\<rparr>)"
| fine_sorted: "f_main p = M_sort \<Longrightarrow> \<forall>pc \<in> set (f_sorters p). pc = F_done \<Longrightarrow>
    fine_step iter deletewithoutmatch p
      (p\<lparr>f_main := (if deletewithoutmatch then M_delete (iter (OFilesSet (fst (f_world p)))) else M_signal)\<rparr>)"
| fine_delete: "f_main p = M_delete (file # files) \<Longrightarrow> f_world p = (s, fs) \<Longrightarrow>
    dq_push_back (outputPrefix s @ file) (deleteQueue s) = (Ret (), q) \<Longrightarrow>
    fine_step iter deletewithoutmatch p
      (p\<lparr>f_main := M_delete files, f_world := (s\<lparr>deleteQueue := q, cdeleted := cdeleted s + 1\<rparr>, fs)\<rparr>)"
| fine_deleted: "f_main p = M_delete [] \<Longrightarrow> fine_step iter deletewithoutmatch p (p\<lparr>f_main := M_signal\<rparr>)"
| fine_signal: "f_main p = M_signal \<Longrightarrow> f_world p = (s, fs) \<Longrightarrow>
    fine_step iter deletewithoutmatch p (p\<lparr>f_main := M_join, f_world := (s\<lparr>doneStuff := True\<rparr>, fs)\<rparr>)"
| fine_join: "f_main p = M_join \<Longrightarrow> f_world p = (s, fs) \<Longrightarrow> \<forall>pc \<in> set (f_workers p). pc = At_call W_exit \<Longrightarrow>
    fine_step iter deletewithoutmatch p
      (p\<lparr>f_main := M_end, f_world := (s\<lparr>threads := 0, activeCopy := False\<rparr>, fs)\<rparr>)"

inductive_cases fine_stepE [consumes 1, case_names fine_sorter fine_worker fine_sorted fine_delete
    fine_deleted fine_signal fine_join]: "fine_step iter deletewithoutmatch p p'"

section \<open>The loop of main\<close>

text \<open>
  One line of the progress: six loads of the counters, each from the state of its moment; the order in
  which the arguments are evaluated is not specified. The line is printed while \<open>_activeCopy\<close> is set.
\<close>

definition progress_line ::
  "sync_state \<Rightarrow> sync_state \<Rightarrow> sync_state \<Rightarrow> sync_state \<Rightarrow> sync_state \<Rightarrow> sync_state \<Rightarrow>
    (64 word \<times> 64 word \<times> 64 word \<times> 64 word \<times> int) outcome" where
  "progress_line s1 s2 s3 s4 s5 s6 =
     obind (percent (bytesCopied s5) (bytesToCopy s6)) (\<lambda>p.
       Ret (filesCopied s1, filesToCopy s2, bytesCopied s3, bytesToCopy s4, p))"

definition progress_poll :: "sync_state \<Rightarrow> (bool \<times> (64 word \<times> 64 word \<times> 64 word \<times> 64 word \<times> int) option) outcome" where
  "progress_poll s =
     (if activeCopy s then obind (progress_line s s s s s s) (\<lambda>l. Ret (finished s, Some l)) else Ret (finished s, None))"

lemma wants_copy_eq:
  "wants_copy f (s, fs) = (case copy_wanted s fs f of Some go \<Rightarrow> Ret go
     | None \<Rightarrow> Throw (case file_size fs (inputPrefix s @ f) of Throw e \<Rightarrow> e
         | _ \<Rightarrow> (case file_size fs (outputPrefix s @ f) of Throw e \<Rightarrow> e | _ \<Rightarrow> Out_of_range)))"
  using file_size_cases [of fs "inputPrefix s @ f"] file_size_cases [of fs "outputPrefix s @ f"]
  by (auto simp: wants_copy_def copy_wanted_def Let_def)

section \<open>The same calls with other counters\<close>

text \<open>The fields in which the two systems may differ: the counters, and the set that sorters erase from.\<close>

definition with_counters :: "sync_state \<Rightarrow> sync_state \<Rightarrow> sync_state" where
  "with_counters x s =
     s\<lparr>OFilesSet := OFilesSet x, bytesToCopy := bytesToCopy x, filesToCopy := filesToCopy x,
       bytesCopied := bytesCopied x, filesCopied := filesCopied x\<rparr>"

lemma with_counters_fields [simp]:
  "copyQueue (with_counters x s) = copyQueue s" "deleteQueue (with_counters x s) = deleteQueue s"
  "createDirsQueue (with_counters x s) = createDirsQueue s"
  "IFilesSet (with_counters x s) = IFilesSet s" "errors (with_counters x s) = errors s"
  "inputPrefix (with_counters x s) = inputPrefix s" "outputPrefix (with_counters x s) = outputPrefix s"
  "move_flag (with_counters x s) = move_flag s" "force_flag (with_counters x s) = force_flag s"
  "overwrite_flag (with_counters x s) = overwrite_flag s" "doneStuff (with_counters x s) = doneStuff s"
  "cdeleted (with_counters x s) = cdeleted s" "activeCopy (with_counters x s) = activeCopy s"
  "OFilesSet (with_counters x s) = OFilesSet x" "filesToCopy (with_counters x s) = filesToCopy x"
  "filesCopied (with_counters x s) = filesCopied x" "bytesToCopy (with_counters x s) = bytesToCopy x"
  "bytesCopied (with_counters x s) = bytesCopied x"
  by (simp_all add: with_counters_def)

lemma with_counters_same [simp]:
  "with_counters s s = s" "with_counters (with_counters x s) t = with_counters x t"
  "with_counters x (with_counters y s) = with_counters x s"
  by (simp_all add: with_counters_def)

lemma with_counters_updates [simp]:
  "with_counters x s\<lparr>copyQueue := q\<rparr> = with_counters x (s\<lparr>copyQueue := q\<rparr>)"
  "with_counters x s\<lparr>deleteQueue := q\<rparr> = with_counters x (s\<lparr>deleteQueue := q\<rparr>)"
  "with_counters x s\<lparr>IFilesSet := q\<rparr> = with_counters x (s\<lparr>IFilesSet := q\<rparr>)"
  "with_counters x s\<lparr>errors := e\<rparr> = with_counters x (s\<lparr>errors := e\<rparr>)"
  "with_counters x s\<lparr>cdeleted := c\<rparr> = with_counters x (s\<lparr>cdeleted := c\<rparr>)"
  "with_counters x s\<lparr>doneStuff := b\<rparr> = with_counters x (s\<lparr>doneStuff := b\<rparr>)"
  "with_counters x s\<lparr>threads := n, activeCopy := b\<rparr> = with_counters x (s\<lparr>threads := n, activeCopy := b\<rparr>)"
  by (simp_all add: with_counters_def)

definition act_with :: "sync_state \<Rightarrow> ('pc \<times> world) outcome \<Rightarrow> ('pc \<times> world) outcome" where
  "act_with x = map_outcome (\<lambda>(pc, t, fs). (pc, with_counters x t, fs))"

lemma act_with_simps [simp]:
  "act_with x (Ret (pc, t, fs)) = Ret (pc, with_counters x t, fs)" "act_with x Undef = Undef" "act_with x Diverge = Diverge"
  "act_with x (Throw e) = Throw e"
  by (simp_all add: act_with_def)

lemma unlocked_with [simp]: "unlocked (with_counters x s) = unlocked s"
  by (simp add: unlocked_def)

lemma deleted_with: "deleted f (with_counters x s, fs) = apfst (with_counters x) (deleted f (s, fs))"
  by (auto simp: deleted_def pushed_error_def split: sum.splits prod.splits)

lemma worker_act_with:
  assumes "unlocked s" and "\<And>f. pc \<noteq> W_copy f"
  shows "worker_act pc (with_counters x s, fs) = act_with x (worker_act pc (s, fs))"
proof (cases pc)
  case W_pop
  have u: "\<not> flag (copyQueue s)" using assms(1) by (simp add: unlocked_def)
  then show ?thesis using W_pop by (simp add: pop_front_cases [OF u] split: list.split)
next
  case W_popd
  have u: "\<not> flag (deleteQueue s)" using assms(1) by (simp add: unlocked_def)
  then show ?thesis using W_popd by (simp add: pop_front_cases [OF u] split: list.split)
next
  case (W_delete f)
  obtain t fs' where "deleted f (s, fs) = (t, fs')" by (cases "deleted f (s, fs)")
  then show ?thesis using W_delete assms(1) by (simp add: do_delete_unlocked catch_all_def deleted_with)
qed (use assms in \<open>simp_all add: dq_empty_def guarded_free unlocked_def\<close>)


text \<open>The calls of the sorters and the file operation of the workers.\<close>

lemma fine_queue_act:
  assumes "unlocked s" and "pc \<in> {F_guard, F_pop, F_done}" and "fine_sorter_act pc (with_counters x s, fs) = Ret (pc', t, fs')"
  shows "\<exists>c u. sorter_act (case pc of F_guard \<Rightarrow> S_guard | F_pop \<Rightarrow> S_pop | _ \<Rightarrow> S_done) (s, fs) = Ret (c, u, fs') \<and>
    t = with_counters x u \<and> with_counters s u = u \<and>
    (pc', c) \<in> {(F_guard, S_guard), (F_pop, S_pop), (F_done, S_done)} \<union> range (\<lambda>f. (F_sort f, S_sort f))"
proof -
  have u: "\<not> flag (IFilesSet s)" using assms(1) by (simp add: unlocked_def)
  have keep: "with_counters s (s\<lparr>IFilesSet := q\<rparr>) = s\<lparr>IFilesSet := q\<rparr>" for q by (simp add: with_counters_def)
  from assms(2) consider "pc = F_guard" | "pc = F_pop" | "pc = F_done" by blast
  then show ?thesis
  proof cases
    case 1
    then show ?thesis using assms(3) u by (auto simp: SortFiles_guard_def dq_size_def guarded_free split: if_splits)
  next
    case 2
    then show ?thesis using assms(3) u keep by (auto simp: pop_front_cases [OF u] split: list.splits)
  next
    case 3
    then show ?thesis using assms(3) by auto
  qed
qed

lemma fine_sort_act:
  assumes "unlocked s" and "copy_wanted s fs f = Some go" and "f \<noteq> []"
  shows "fine_sorter_act (F_sort f) (s, fs) =
    (if go then Ret (F_bytes f (f \<in> OFilesSet s), s\<lparr>copyQueue := (copyQueue s)\<lparr>payload := payload (copyQueue s) @ [f]\<rparr>\<rparr>, fs)
     else Ret (F_erase f, s, fs))"
  using assms by (simp add: wants_copy_eq dq_push_back_def guarded_free unlocked_def Let_def)

lemma fine_transfer_act:
  assumes "unlocked s"
  shows "fine_transfer f (s, fs) =
    (case transfer s fs f of
       Inl c \<Rightarrow> Ret (At_call W_popd, pushed_error ''[ERROR] [Copy File] '' c s, fs)
     | Inr fs' \<Rightarrow> Ret (F_copied f, s, fs'))"
  using assms
  by (auto simp: fine_transfer_def transferred_file_def transfer_def rename_file_def copy_file_def
      record_error_unlocked catch_all_def Let_def split: sum.split)

lemma copy_wanted_with:
  "f \<in> OFilesSet x \<longleftrightarrow> f \<in> OFilesSet s \<Longrightarrow> copy_wanted (with_counters x s) fs f = copy_wanted s fs f"
  by (simp add: copy_wanted_def Let_def)

section \<open>The simulation\<close>

text \<open>Steps that are matched by at most one step of another system.\<close>

locale stepwise_simulation =
  fixes small :: "'f \<Rightarrow> 'f \<Rightarrow> bool"
    and large :: "'c \<Rightarrow> 'c \<Rightarrow> bool"
    and rel :: "'f \<Rightarrow> 'c \<Rightarrow> bool"
  assumes step_law: "rel p c \<Longrightarrow> small p p' \<Longrightarrow> rel p' c \<or> (\<exists>c'. large c c' \<and> rel p' c')"
begin

lemma runs: "small\<^sup>*\<^sup>* p p' \<Longrightarrow> rel p c \<Longrightarrow> \<exists>c'. large\<^sup>*\<^sup>* c c' \<and> rel p' c'"
proof (induction rule: rtranclp_induct)
  case (step q r)
  then obtain c' where c': "large\<^sup>*\<^sup>* c c'" "rel q c'" by blast
  with step_law [OF c'(2) step.hyps(2)] show ?case by (meson rtranclp.rtrancl_into_rtrancl)
qed blast

end

fun abs_sorter :: "fine_sorter \<Rightarrow> sorter_pc" where
  "abs_sorter F_pop = S_pop"
| "abs_sorter (F_sort f) = S_sort f"
| "abs_sorter F_done = S_done"
| "abs_sorter _ = S_guard"

fun abs_worker :: "fine_worker \<Rightarrow> worker_pc" where
  "abs_worker (At_call pc) = pc"
| "abs_worker _ = W_popd"

text \<open>What a thread still owes to the shared state: files to erase, and counts.\<close>

fun owed :: "fine_sorter \<Rightarrow> string set" where
  "owed (F_bytes f b) = (if b then {f} else {})"
| "owed (F_files f b) = (if b then {f} else {})"
| "owed (F_erase f) = {f}"
| "owed _ = {}"

fun uncounted :: "fine_sorter \<Rightarrow> nat" where
  "uncounted (F_bytes f b) = 1"
| "uncounted (F_files f b) = 1"
| "uncounted _ = 0"

fun uncopied :: "fine_worker \<Rightarrow> nat" where
  "uncopied (F_copied f) = 1"
| "uncopied _ = 0"

text \<open>How many steps a thread is away from the next place the larger steps know.\<close>

fun left_in_sorter :: "fine_sorter \<Rightarrow> nat" where
  "left_in_sorter (F_bytes f b) = 3"
| "left_in_sorter (F_files f b) = 2"
| "left_in_sorter (F_erase f) = 1"
| "left_in_sorter _ = 0"

fun left_in_worker :: "fine_worker \<Rightarrow> nat" where
  "left_in_worker (F_copied f) = 2"
| "left_in_worker (F_sized f) = 1"
| "left_in_worker _ = 0"

definition all_owed :: "fine_sorter list \<Rightarrow> string set" where
  "all_owed ths = (\<Union>pc \<in> set ths. owed pc)"

definition matches_at :: "task \<Rightarrow> sync_state \<Rightarrow> sync_state \<Rightarrow> fs \<Rightarrow> fine_sys \<Rightarrow> par_sys \<Rightarrow> bool" where
  "matches_at k x s fs p c \<longleftrightarrow> par_inv k c \<and> sorters c = map abs_sorter (f_sorters p) \<and> workers c = map abs_worker (f_workers p) \<and>
     main c = f_main p \<and> par_world c = (s, fs) \<and> f_world p = (with_counters x s, fs) \<and>
     OFilesSet s = OFilesSet x - all_owed (f_sorters p) \<and> all_owed (f_sorters p) \<subseteq> set (sorted_log c) \<and>
     unat (filesToCopy x) + sum_list (map uncounted (f_sorters p)) = unat (filesToCopy s) \<and>
     unat (filesCopied x) + sum_list (map uncopied (f_workers p)) = unat (filesCopied s)"

definition matches :: "task \<Rightarrow> fine_sys \<Rightarrow> par_sys \<Rightarrow> bool" where
  "matches k p c \<longleftrightarrow> (\<exists>x s fs. matches_at k x s fs p c)"

lemma matches_atD:
  assumes "matches_at k x s fs p c"
  shows "par_inv k c" "unlocked s"
    "sorters c = map abs_sorter (f_sorters p)" "workers c = map abs_worker (f_workers p)" "main c = f_main p"
    "par_world c = (s, fs)" "f_world p = (with_counters x s, fs)"
    "OFilesSet s = OFilesSet x - all_owed (f_sorters p)" "all_owed (f_sorters p) \<subseteq> set (sorted_log c)"
    "unat (filesToCopy x) + sum_list (map uncounted (f_sorters p)) = unat (filesToCopy s)"
    "unat (filesCopied x) + sum_list (map uncopied (f_workers p)) = unat (filesCopied s)"
proof -
  note all = assms [unfolded matches_at_def]
  then show "par_inv k c" "par_world c = (s, fs)" by simp_all
  then show "unlocked s" by (simp add: par_inv_def inv_state_def)
qed (use assms in \<open>simp_all add: matches_at_def\<close>)

lemma matchesI:
  assumes "par_inv k c" "sorters c = map abs_sorter (f_sorters p)" "workers c = map abs_worker (f_workers p)" "main c = f_main p"
    "par_world c = (s, fs)" "f_world p = (with_counters x s, fs)"
    "OFilesSet s = OFilesSet x - all_owed (f_sorters p)" "all_owed (f_sorters p) \<subseteq> set (sorted_log c)"
    "unat (filesToCopy x) + sum_list (map uncounted (f_sorters p)) = unat (filesToCopy s)"
    "unat (filesCopied x) + sum_list (map uncopied (f_workers p)) = unat (filesCopied s)"
  shows "matches k p c"
  using assms by (auto simp: matches_def matches_at_def)

lemma matches_lengths:
  "matches k p c \<Longrightarrow> length (sorters c) = length (f_sorters p) \<and> length (workers c) = length (f_workers p) \<and> main c = f_main p \<and> par_inv k c"
  by (auto simp: matches_def matches_at_def)

lemma all_owed_update: "i < length ths \<Longrightarrow> all_owed (ths[i := pc]) \<union> owed (ths ! i) = all_owed ths \<union> owed pc"
proof (induction ths arbitrary: i)
  case (Cons y ths)
  then show ?case by (cases i) (auto simp: all_owed_def)
qed simp

lemma all_owed_new [simp]: "i < length ths \<Longrightarrow> owed pc \<subseteq> all_owed (ths[i := pc])" "i < length ths \<Longrightarrow> owed (ths ! i) \<subseteq> all_owed ths"
  unfolding all_owed_def using set_update_memI [of i ths pc] nth_mem [of i ths] by blast+

text \<open>As long as there are fewer than \<open>2 ^ 64\<close> files, the counters of the larger steps do not wrap.\<close>

definition countable_task :: "task \<Rightarrow> bool" where
  "countable_task k \<longleftrightarrow> task_ok k \<and> length (all_rel k) < 2 ^ 64"

lemma counters_of:
  assumes k: "countable_task k" and inv: "par_inv k c" and W: "par_world c = (s, fs)"
  shows "unat (filesToCopy s) = size (filter_mset (rel_wanted k) (mset (sorted_log c)))"
    "unat (filesCopied s) = length (copied_log c)" "length (copied_log c) \<le> size (filter_mset (rel_wanted k) (mset (sorted_log c)))"
proof -
  have f: "mset (payload (IFilesSet s)) + held sorting (sorters c) + mset (sorted_log c) = mset (all_rel k)"
    "mset (payload (copyQueue s)) + held copying (workers c) + mset (copied_log c) = filter_mset (rel_wanted k) (mset (sorted_log c))"
    "filesToCopy s = word_of_nat (size (filter_mset (rel_wanted k) (mset (sorted_log c))))" "filesCopied s = word_of_nat (length (copied_log c))"
    using inv W by (simp_all add: par_inv_def inv_files_def Let_def)
  have log: "length (sorted_log c) \<le> length (all_rel k)" using arg_cong [OF f(1), of size] by simp
  have want: "size (filter_mset (rel_wanted k) (mset (sorted_log c))) \<le> length (sorted_log c)"
    by (metis size_filter_mset_lesseq size_mset)
  show le: "length (copied_log c) \<le> size (filter_mset (rel_wanted k) (mset (sorted_log c)))" using arg_cong [OF f(2), of size] by simp
  have "length (all_rel k) < 2 ^ 64" using k by (simp add: countable_task_def)
  then show "unat (filesToCopy s) = size (filter_mset (rel_wanted k) (mset (sorted_log c)))" "unat (filesCopied s) = length (copied_log c)"
    using f(3,4) log want le by (simp_all add: unat_of_nat)
qed

text \<open>Steps that both systems make.\<close>

abbreviation after_sorter :: "par_sys \<Rightarrow> nat \<Rightarrow> sorter_pc \<times> world \<Rightarrow> par_sys" where
  "after_sorter c i r \<equiv>
     c\<lparr>par_world := snd r, sorters := (sorters c)[i := fst r], sorted_log := sorted_log c @ sorting (sorters c ! i)\<rparr>"

abbreviation after_worker :: "par_sys \<Rightarrow> nat \<Rightarrow> worker_pc \<times> world \<Rightarrow> par_sys" where
  "after_worker c i r \<equiv>
     c\<lparr>par_world := snd r, workers := (workers c)[i := fst r], copied_log := copied_log c @ copying (workers c ! i)\<rparr>"

lemma both_sorters:
  assumes k: "task_ok k" and it: "iterates iter" and m: "matches_at k x s fs p c" and i: "i < length (f_sorters p)"
    and act: "sorter_act (sorters c ! i) (s, fs) = Ret (abs_sorter pc, u, fs')"
    and new: "OFilesSet u = OFilesSet y - all_owed ((f_sorters p)[i := pc])"
      "all_owed ((f_sorters p)[i := pc]) \<subseteq> set (sorted_log c @ sorting (sorters c ! i))"
      "unat (filesToCopy y) + sum_list (map uncounted ((f_sorters p)[i := pc])) = unat (filesToCopy u)"
      "unat (filesCopied y) + sum_list (map uncopied (f_workers p)) = unat (filesCopied u)"
  shows "\<exists>r. sorter_act (sorters c ! i) (par_world c) = Ret r \<and>
    matches k (p\<lparr>f_world := (with_counters y u, fs'), f_sorters := (f_sorters p)[i := pc]\<rparr>) (after_sorter c i r)"
proof -
  note M = matches_atD [OF m]
  let ?c = "after_sorter c i (abs_sorter pc, u, fs')"
  have "par_step iter (tdel k) c ?c"
    using act M(3,6) i par_step.step_sorter [of i c "abs_sorter pc" "(u, fs')" iter "tdel k"] by simp
  from step_keeps [OF k it M(1) this] have "par_inv k ?c" .
  then have "matches k (p\<lparr>f_world := (with_counters y u, fs'), f_sorters := (f_sorters p)[i := pc]\<rparr>) ?c"
    using M(3-5) new by (intro matchesI) (simp_all add: map_update)
  then show ?thesis using act M(6) by (intro exI [of _ "(abs_sorter pc, u, fs')"] conjI) simp_all
qed

lemma both_workers:
  assumes k: "task_ok k" and it: "iterates iter" and m: "matches_at k x s fs p c" and i: "i < length (f_workers p)"
    and act: "worker_act (workers c ! i) (s, fs) = Ret (abs_worker pc, u, fs')"
    and new: "OFilesSet u = OFilesSet y - all_owed (f_sorters p)"
      "unat (filesToCopy y) + sum_list (map uncounted (f_sorters p)) = unat (filesToCopy u)"
      "unat (filesCopied y) + sum_list (map uncopied ((f_workers p)[i := pc])) = unat (filesCopied u)"
  shows "\<exists>r. worker_act (workers c ! i) (par_world c) = Ret r \<and>
    matches k (p\<lparr>f_world := (with_counters y u, fs'), f_workers := (f_workers p)[i := pc]\<rparr>) (after_worker c i r)"
proof -
  note M = matches_atD [OF m]
  let ?c = "after_worker c i (abs_worker pc, u, fs')"
  have "par_step iter (tdel k) c ?c"
    using act M(4,6) i par_step.step_worker [of i c "abs_worker pc" "(u, fs')" iter "tdel k"] by simp
  from step_keeps [OF k it M(1) this] have "par_inv k ?c" .
  then have "matches k (p\<lparr>f_world := (with_counters y u, fs'), f_workers := (f_workers p)[i := pc]\<rparr>) ?c"
    using M(3-5,9) new by (intro matchesI) (simp_all add: map_update)
  then show ?thesis using act M(6) by (intro exI [of _ "(abs_worker pc, u, fs')"] conjI) simp_all
qed

lemma counters_kept: "with_counters s u = u \<Longrightarrow> OFilesSet u = OFilesSet s \<and> filesToCopy u = filesToCopy s \<and> filesCopied u = filesCopied s"
  by (metis with_counters_fields(14-16))

lemma both_main:
  assumes k: "task_ok k" and it: "iterates iter" and m: "matches_at k x s fs p c"
    and st: "par_step iter (tdel k) c (c\<lparr>main := mn, par_world := (u, fs')\<rparr>)" and u: "with_counters s u = u"
  shows "matches k (p\<lparr>f_main := mn, f_world := (with_counters x u, fs')\<rparr>) (c\<lparr>main := mn, par_world := (u, fs')\<rparr>)"
proof -
  note M = matches_atD [OF m]
  have "par_inv k (c\<lparr>main := mn, par_world := (u, fs')\<rparr>)" by (rule step_keeps [OF k it M(1) st])
  then show ?thesis using M counters_kept [OF u] by (intro matchesI [where s = u and x = x]) simp_all
qed

text \<open>Steps that only the smaller system makes.\<close>

lemma sorter_alone:
  assumes m: "matches_at k x s fs p c" and i: "i < length (f_sorters p)" and "abs_sorter pc = abs_sorter (f_sorters p ! i)"
    and "OFilesSet s = OFilesSet y - all_owed ((f_sorters p)[i := pc])" "all_owed ((f_sorters p)[i := pc]) \<subseteq> all_owed (f_sorters p)"
    and "unat (filesToCopy y) + sum_list (map uncounted ((f_sorters p)[i := pc])) = unat (filesToCopy s)" "filesCopied y = filesCopied x"
  shows "matches k (p\<lparr>f_world := (with_counters y s, fs), f_sorters := (f_sorters p)[i := pc]\<rparr>) c"
proof -
  have "map abs_sorter ((f_sorters p)[i := pc]) = map abs_sorter (f_sorters p)"
    using assms(3) by (metis list_update_id map_update)
  then show ?thesis
    using assms(4-) matches_atD [OF m] by (intro matchesI [where x = y and s = s and fs = fs]) (auto simp del: map_update)
qed

lemma worker_alone:
  assumes m: "matches_at k x s fs p c" and i: "i < length (f_workers p)" and "abs_worker pc = abs_worker (f_workers p ! i)"
    and "OFilesSet y = OFilesSet x" "filesToCopy y = filesToCopy x"
    and "unat (filesCopied y) + sum_list (map uncopied ((f_workers p)[i := pc])) = unat (filesCopied s)"
  shows "matches k (p\<lparr>f_world := (with_counters y s, fs), f_workers := (f_workers p)[i := pc]\<rparr>) c"
proof -
  have "map abs_worker ((f_workers p)[i := pc]) = map abs_worker (f_workers p)"
    using assms(3) by (metis list_update_id map_update)
  then show ?thesis
    using assms(4-) matches_atD [OF m] by (intro matchesI [where x = y and s = s and fs = fs]) (auto simp del: map_update)
qed

lemma counts_on: "unat n + k = unat m \<Longrightarrow> 0 < k \<Longrightarrow> unat (n + 1) = unat n + 1" for n m :: "64 word"
proof -
  assume "unat n + k = unat m" "0 < k"
  moreover have "unat m < 2 ^ 64" by (rule less_le_trans [OF unsigned_less]) simp
  ultimately have "unat n + 1 < 2 ^ 64" by simp
  then show ?thesis by (simp add: unat_word_ariths)
qed

text \<open>The steps of a sorter: its calls on the queue, the decision about a file, and the counters.\<close>

lemma queue_matched:
  assumes k: "task_ok k" and it: "iterates iter" and m: "matches_at k x s fs p c" and i: "i < length (f_sorters p)"
    and at: "f_sorters p ! i \<in> {F_guard, F_pop, F_done}" and act: "fine_sorter_act (f_sorters p ! i) (f_world p) = Ret (pc, w)"
  shows "\<exists>r. sorter_act (sorters c ! i) (par_world c) = Ret r \<and>
    matches k (p\<lparr>f_world := w, f_sorters := (f_sorters p)[i := pc]\<rparr>) (after_sorter c i r)"
proof -
  note M = matches_atD [OF m]
  obtain t fs' where w: "w = (t, fs')" by (cases w)
  obtain d v where v: "sorter_act (sorters c ! i) (s, fs) = Ret (d, v, fs')" "t = with_counters x v" "with_counters s v = v"
    "(pc, d) \<in> {(F_guard, S_guard), (F_pop, S_pop), (F_done, S_done)} \<union> range (\<lambda>f. (F_sort f, S_sort f))"
    using fine_queue_act [OF M(2) at, of x fs pc t fs'] act M(3,7) w at i by auto
  have pc: "d = abs_sorter pc" "owed pc = {}" "uncounted pc = 0" using v(4) by auto
  have old: "owed (f_sorters p ! i) = {}" "uncounted (f_sorters p ! i) = 0" "sorting (sorters c ! i) = []" using at M(3) i by auto
  show ?thesis unfolding w v(2)
    using v(1) all_owed_update [OF i, of pc] sum_update [OF i, of uncounted pc] pc old M(8-11) counters_kept [OF v(3)]
    by (intro both_sorters [OF k it m i]) simp_all
qed

lemma sort_matched:
  assumes k: "countable_task k" and it: "iterates iter" and m: "matches_at k x s fs p c" and i: "i < length (f_sorters p)"
    and at: "f_sorters p ! i = F_sort f" and act: "fine_sorter_act (F_sort f) (f_world p) = Ret (pc, w)"
  shows "\<exists>r. sorter_act (sorters c ! i) (par_world c) = Ret r \<and>
    matches k (p\<lparr>f_world := w, f_sorters := (f_sorters p)[i := pc]\<rparr>) (after_sorter c i r)"
proof -
  note M = matches_atD [OF m]
  have ok: "task_ok k" using k by (simp add: countable_task_def)
  have at': "sorters c ! i = S_sort f" "i < length (sorters c)" using at M(3) i by simp_all
  note one = sorting_one [OF ok M(1) at'(2,1) M(6)]
  have "f \<notin> all_owed (f_sorters p)" using one(2) M(9) by blast
  then have known: "f \<in> OFilesSet x \<longleftrightarrow> f \<in> OFilesSet s" using M(8) by blast
  let ?go = "rel_wanted k f"
  define v where "v = fst (judged f (s, fs))"
  have j: "judged f (s, fs) = (v, fs)" unfolding v_def judged_now [OF one(3,4)] by simp
  have v: "OFilesSet v = OFilesSet s - {f}" "filesCopied v = filesCopied s" unfolding v_def judged_now [OF one(3,4)] by simp_all
  have wanted: "copy_wanted (with_counters x s) fs f = Some ?go" using copy_wanted_with [OF known] one(3) by simp
  have "unlocked (with_counters x s)" using M(2) by simp
  from fine_sort_act [OF this wanted one(4)]
  have "fine_sorter_act (F_sort f) (with_counters x s, fs) =
      Ret (if ?go then F_bytes f (f \<in> OFilesSet x) else F_erase f, with_counters x v, fs)"
    unfolding v_def judged_now [OF one(3,4)] by (simp del: fine_sorter_act.simps add: with_counters_def)
  then have step: "pc = (if ?go then F_bytes f (f \<in> OFilesSet x) else F_erase f)" "w = (with_counters x v, fs)"
    using act M(7) by (simp_all del: fine_sorter_act.simps)
  have sact: "sorter_act (sorters c ! i) (s, fs) = Ret (abs_sorter pc, v, fs)"
    using step(1) unfolding at' j [symmetric]
    by (simp add: sort_file_unlocked [OF M(2)] catch_all_def judged_def split: option.split)
  have owed: "owed pc = {f} \<or> owed pc = {} \<and> f \<notin> OFilesSet x" "uncounted pc = (if ?go then 1 else 0)"
    "owed (f_sorters p ! i) = {}" "uncounted (f_sorters p ! i) = 0"
    using step(1) at by auto
  have "par_step iter (tdel k) c (after_sorter c i (abs_sorter pc, v, fs))"
    using sact M(6) at'(2) by (intro par_step.step_sorter) simp_all
  from counters_of(1) [OF k step_keeps [OF ok it M(1) this]] counters_of(1) [OF k M(1,6)]
  have counts: "unat (filesToCopy v) = unat (filesToCopy s) + (if ?go then 1 else 0)" using at'(1) by simp
  have N: "all_owed ((f_sorters p)[i := pc]) = all_owed (f_sorters p) \<union> owed pc" using all_owed_update [OF i, of pc] owed(3) by simp
  show ?thesis unfolding step(2)
  proof (rule both_sorters [OF ok it m i sact])
    show "OFilesSet v = OFilesSet x - all_owed ((f_sorters p)[i := pc])" unfolding N v(1) M(8) using owed(1) by blast
    show "all_owed ((f_sorters p)[i := pc]) \<subseteq> set (sorted_log c @ sorting (sorters c ! i))"
      unfolding N at' using M(9) owed(1) by auto
    show "unat (filesToCopy x) + sum_list (map uncounted ((f_sorters p)[i := pc])) = unat (filesToCopy v)"
      using sum_update [OF i, of uncounted pc] owed(2,4) M(10) counts by simp
    show "unat (filesCopied x) + sum_list (map uncopied (f_workers p)) = unat (filesCopied v)" using M(11) v(2) by simp
  qed
qed

lemma count_matched:
  assumes m: "matches_at k x s fs p c" and i: "i < length (f_sorters p)" and left: "left_in_sorter (f_sorters p ! i) \<noteq> 0"
    and act: "fine_sorter_act (f_sorters p ! i) (f_world p) = Ret (pc, w)"
  shows "matches k (p\<lparr>f_world := w, f_sorters := (f_sorters p)[i := pc]\<rparr>) c \<and> left_in_sorter pc < left_in_sorter (f_sorters p ! i)"
proof -
  note M = matches_atD [OF m]
  note owe = all_owed_update [OF i, of pc] and sum = sum_update [OF i, of uncounted pc]
  have same: "all_owed ((f_sorters p)[i := pc]) = all_owed (f_sorters p)" if "owed pc = owed (f_sorters p ! i)"
    using owe that all_owed_new [OF i] by auto
  note alone = sorter_alone [OF m i, of pc]
  consider (bytes) f b where "f_sorters p ! i = F_bytes f b" | (files) f b where "f_sorters p ! i = F_files f b"
    | (erase) f where "f_sorters p ! i = F_erase f" using left by (cases "f_sorters p ! i") auto
  then show ?thesis
  proof cases
    case (bytes f b)
    let ?y = "x\<lparr>bytesToCopy := bytesToCopy x + file_size_ec fs (inputPrefix s @ f)\<rparr>"
    have "pc = F_files f b" "w = (with_counters ?y s, fs)" using act bytes M(7) by (auto simp: with_counters_def)
    then show ?thesis using alone [of ?y] same sum M(8-11) bytes by simp
  next
    case (files f b)
    let ?y = "x\<lparr>filesToCopy := filesToCopy x + 1\<rparr>"
    have pc: "pc = (if b then F_erase f else F_guard)" "w = (with_counters ?y s, fs)"
      using act files M(7) by (auto simp: with_counters_def)
    have "uncounted pc = 0" "owed pc = owed (F_files f b)" using pc(1) by simp_all
    moreover from this have "unat (filesToCopy x + 1) = unat (filesToCopy x) + 1"
      using counts_on [OF M(10)] sum files by simp
    ultimately have "matches k (p\<lparr>f_world := (with_counters ?y s, fs), f_sorters := (f_sorters p)[i := pc]\<rparr>) c"
      using same sum M(8-11) files pc(1) by (intro alone) auto
    then show ?thesis unfolding pc(2) using files pc(1) by simp
  next
    case (erase f)
    let ?y = "x\<lparr>OFilesSet := OFilesSet x - {f}\<rparr>"
    have pc: "pc = F_guard" "w = (with_counters ?y s, fs)" using act erase M(7) by (auto simp: with_counters_def)
    then have "all_owed ((f_sorters p)[i := pc]) \<union> {f} = all_owed (f_sorters p)" using owe erase by simp
    then show ?thesis using alone [of ?y] sum M(8-11) erase pc by auto
  qed
qed

lemma sorter_matched:
  assumes k: "countable_task k" and it: "iterates iter" and m: "matches k p c" and i: "i < length (f_sorters p)"
    and act: "fine_sorter_act (f_sorters p ! i) (f_world p) = Ret (pc, w)"
  shows "if left_in_sorter (f_sorters p ! i) = 0
    then \<exists>r. sorter_act (sorters c ! i) (par_world c) = Ret r \<and>
      matches k (p\<lparr>f_world := w, f_sorters := (f_sorters p)[i := pc]\<rparr>) (after_sorter c i r)
    else matches k (p\<lparr>f_world := w, f_sorters := (f_sorters p)[i := pc]\<rparr>) c \<and>
      left_in_sorter pc < left_in_sorter (f_sorters p ! i)"
proof -
  have ok: "task_ok k" using k by (simp add: countable_task_def)
  obtain x s fs where m': "matches_at k x s fs p c" using m by (auto simp: matches_def)
  show ?thesis
  proof (cases "left_in_sorter (f_sorters p ! i) = 0")
    case True
    then consider "f_sorters p ! i \<in> {F_guard, F_pop, F_done}" | f where "f_sorters p ! i = F_sort f"
      by (cases "f_sorters p ! i") auto
    then show ?thesis using queue_matched [OF ok it m' i _ act] sort_matched [OF k it m' i] act True by cases simp_all
  next
    case False
    then show ?thesis using count_matched [OF m' i _ act] by simp
  qed
qed

text \<open>The steps of a worker.\<close>

lemma transfer_matched:
  assumes k: "countable_task k" and it: "iterates iter" and m: "matches_at k x s fs p c" and i: "i < length (f_workers p)"
    and at: "f_workers p ! i = At_call (W_copy f)" and act: "fine_transfer f (f_world p) = Ret (pc, w)"
  shows "\<exists>r. worker_act (workers c ! i) (par_world c) = Ret r \<and>
    matches k (p\<lparr>f_world := w, f_workers := (f_workers p)[i := pc]\<rparr>) (after_worker c i r)"
proof -
  note M = matches_atD [OF m]
  have ok: "task_ok k" using k by (simp add: countable_task_def)
  have w: "workers c ! i = W_copy f" "i < length (workers c)" using M(4) i at by simp_all
  have large: "worker_act (workers c ! i) (s, fs) = Ret (W_popd, copied f (s, fs))"
    unfolding w(1) by (simp add: do_copy_unlocked [OF M(2)] catch_all_def)
  note sum = sum_update [OF i, of uncopied pc]
  have same: "transfer (with_counters x s) fs f = transfer s fs f" by (simp add: transfer_def)
  have "unlocked (with_counters x s)" using M(2) by simp
  note act' = act [unfolded M(7) fine_transfer_act [OF this] same]
  show ?thesis
  proof (cases "transfer s fs f")
    case (Inl e)
    let ?v = "pushed_error ''[ERROR] [Copy File] '' e s"
    have pc: "pc = At_call W_popd" "w = (with_counters x ?v, fs)"
      using act' Inl by (auto simp: pushed_error_def)
    have "worker_act (workers c ! i) (s, fs) = Ret (abs_worker pc, ?v, fs)" using large Inl pc(1) by (simp add: copied_def)
    then show ?thesis unfolding pc(2)
      using M(8-11) sum at pc(1) by (intro both_workers [OF ok it m i]) (simp_all add: pushed_error_def)
  next
    case (Inr fs')
    let ?v = "s\<lparr>filesCopied := filesCopied s + 1, bytesCopied := bytesCopied s + file_size_ec fs' (outputPrefix s @ f)\<rparr>"
    have pc: "pc = F_copied f" "w = (with_counters x ?v, fs')" using act' Inr by (auto simp: with_counters_def)
    have v: "worker_act (workers c ! i) (s, fs) = Ret (abs_worker pc, ?v, fs')" using large Inr pc(1) by (simp add: copied_def)
    have "par_step iter (tdel k) c (after_worker c i (abs_worker pc, ?v, fs'))"
      using v M(6) w(2) by (intro par_step.step_worker) simp_all
    from counters_of(2) [OF k step_keeps [OF ok it M(1) this]] counters_of(2) [OF k M(1,6)]
    have "unat (filesCopied ?v) = unat (filesCopied s) + 1" using w(1) by simp
    then show ?thesis unfolding pc(2)
      using M(8-11) sum at pc(1) by (intro both_workers [OF ok it m i v]) simp_all
  qed
qed

lemma call_matched:
  assumes k: "task_ok k" and it: "iterates iter" and m: "matches_at k x s fs p c" and i: "i < length (f_workers p)"
    and at: "f_workers p ! i = At_call d" "\<And>f. d \<noteq> W_copy f" and act: "fine_worker_act (At_call d) (f_world p) = Ret (pc, w)"
  shows "\<exists>r. worker_act (workers c ! i) (par_world c) = Ret r \<and>
    matches k (p\<lparr>f_world := w, f_workers := (f_workers p)[i := pc]\<rparr>) (after_worker c i r)"
proof -
  note M = matches_atD [OF m]
  have "fine_worker_act (At_call d) (f_world p) =
      obind (act_with x (worker_act d (s, fs))) (\<lambda>(pc', w'). Ret (At_call pc', w'))"
  proof (cases d)
    case (W_copy f)
    then show ?thesis using at(2) by blast
  qed (use worker_act_with [OF M(2) at(2), of x fs] M(7) in simp_all)
  then obtain d' v fs' where v: "worker_act d (s, fs) = Ret (d', v, fs')" "pc = At_call d'" "w = (with_counters x v, fs')"
    using act by (cases "worker_act d (s, fs)") auto
  have "with_counters s v = v" using worker_act_with [OF M(2) at(2), of s fs] v(1) by simp
  moreover have "worker_act (workers c ! i) (s, fs) = Ret (abs_worker pc, v, fs')" using M(4) i at(1) v(1,2) by simp
  ultimately show ?thesis unfolding v(3)
    using M(8-11) sum_update [OF i, of uncopied pc] at(1) v(2) counters_kept by (intro both_workers [OF k it m i]) simp_all
qed

lemma copied_matched:
  assumes m: "matches_at k x s fs p c" and i: "i < length (f_workers p)" and left: "left_in_worker (f_workers p ! i) \<noteq> 0"
    and act: "fine_worker_act (f_workers p ! i) (f_world p) = Ret (pc, w)"
  shows "matches k (p\<lparr>f_world := w, f_workers := (f_workers p)[i := pc]\<rparr>) c \<and> left_in_worker pc < left_in_worker (f_workers p ! i)"
proof -
  note M = matches_atD [OF m] and sum = sum_update [OF i, of uncopied pc] and alone = worker_alone [OF m i, of pc]
  consider (files) f where "f_workers p ! i = F_copied f" | (bytes) f where "f_workers p ! i = F_sized f"
    using left by (cases "f_workers p ! i") auto
  then show ?thesis
  proof cases
    case (files f)
    let ?y = "x\<lparr>filesCopied := filesCopied x + 1\<rparr>"
    have pc: "pc = F_sized f" "w = (with_counters ?y s, fs)" using act files M(7) by (auto simp: with_counters_def)
    have "unat (filesCopied x + 1) = unat (filesCopied x) + 1" using counts_on [OF M(11)] sum files pc(1) by simp
    then show ?thesis unfolding pc(2) using alone [of ?y] sum M(11) files pc(1) by simp
  next
    case (bytes f)
    let ?y = "x\<lparr>bytesCopied := bytesCopied x + file_size_ec fs (outputPrefix s @ f)\<rparr>"
    have pc: "pc = At_call W_popd" "w = (with_counters ?y s, fs)" using act bytes M(7) by (auto simp: with_counters_def)
    then show ?thesis using alone [of ?y] sum M(11) bytes by simp
  qed
qed

lemma worker_matched:
  assumes k: "countable_task k" and it: "iterates iter" and m: "matches k p c" and i: "i < length (f_workers p)"
    and act: "fine_worker_act (f_workers p ! i) (f_world p) = Ret (pc, w)"
  shows "if left_in_worker (f_workers p ! i) = 0
    then \<exists>r. worker_act (workers c ! i) (par_world c) = Ret r \<and>
      matches k (p\<lparr>f_world := w, f_workers := (f_workers p)[i := pc]\<rparr>) (after_worker c i r)
    else matches k (p\<lparr>f_world := w, f_workers := (f_workers p)[i := pc]\<rparr>) c \<and>
      left_in_worker pc < left_in_worker (f_workers p ! i)"
proof -
  have ok: "task_ok k" using k by (simp add: countable_task_def)
  obtain x s fs where m': "matches_at k x s fs p c" using m by (auto simp: matches_def)
  show ?thesis
  proof (cases "left_in_worker (f_workers p ! i) = 0")
    case True
    then consider (transfer) f where "f_workers p ! i = At_call (W_copy f)"
      | (call) d where "f_workers p ! i = At_call d" "\<And>f. d \<noteq> W_copy f"
      by (cases "f_workers p ! i") auto
    then show ?thesis
    proof cases
      case (transfer f)
      then show ?thesis using transfer_matched [OF k it m' i transfer, of pc w] act by simp
    next
      case (call d)
      then show ?thesis using call_matched [OF ok it m' i call, of pc w] act by simp
    qed
  next
    case False
    then show ?thesis using copied_matched [OF m' i _ act] by simp
  qed
qed

text \<open>The steps of the main thread.\<close>

lemma all_owed_done: "\<forall>pc \<in> set ths. pc = F_done \<Longrightarrow> all_owed ths = {}"
  by (auto simp: all_owed_def)

lemma unchanged_worlds [simp]:
  "par_world c = W \<Longrightarrow> c\<lparr>main := mn, par_world := W\<rparr> = c\<lparr>main := mn\<rparr>"
  "f_world p = W \<Longrightarrow> p\<lparr>f_main := mn, f_world := W\<rparr> = p\<lparr>f_main := mn\<rparr>"
  by (cases c, simp) (cases p, simp)

lemma main_matched:
  assumes k: "task_ok k" and it: "iterates iter" and m: "matches k p c" and st: "fine_step iter (tdel k) p p'"
    and main: "f_sorters p' = f_sorters p" "f_workers p' = f_workers p" "f_main p' \<noteq> f_main p"
  shows "\<exists>c'. par_step iter (tdel k) c c' \<and> matches k p' c'"
proof -
  obtain x s fs where m': "matches_at k x s fs p c" using m by (auto simp: matches_def)
  note M = matches_atD [OF m']
  have both: "\<exists>c'. par_step iter (tdel k) c c' \<and> matches k p' c'"
    if "par_step iter (tdel k) c (c\<lparr>main := mn, par_world := (u, fs)\<rparr>)" "with_counters s u = u"
      "p' = p\<lparr>f_main := mn, f_world := (with_counters x u, fs)\<rparr>" for mn u
    using both_main [OF k it m' that(1,2)] that(1,3) by blast
  from st show ?thesis
  proof (cases rule: fine_stepE)
    case fine_sorted
    let ?mn = "if tdel k then M_delete (iter (OFilesSet (fst (par_world c)))) else M_signal"
    have "OFilesSet (fst (f_world p)) = OFilesSet (fst (par_world c))"
      using M(6-8) all_owed_done [OF fine_sorted(3)] by simp
    moreover have "par_step iter (tdel k) c (c\<lparr>main := ?mn\<rparr>)"
      using fine_sorted(2,3) M(3,5) by (intro step_sorted) auto
    ultimately show ?thesis using fine_sorted(1) M(6,7) by (intro both [where mn = ?mn and u = s]) simp_all
  next
    case (fine_delete f files t fs' q)
    have t: "t = with_counters x s" "fs' = fs" using fine_delete(3) M(7) by simp_all
    let ?u = "s\<lparr>deleteQueue := q, cdeleted := cdeleted s + 1\<rparr>"
    have "par_step iter (tdel k) c (c\<lparr>main := M_delete files, par_world := (?u, fs)\<rparr>)"
      using fine_delete(2,4) M(5) M(6) t by (intro step_delete) simp_all
    then show ?thesis using fine_delete(1) t by (intro both [where mn = "M_delete files" and u = ?u]) (simp_all add: with_counters_def)
  next
    case fine_deleted
    then have "par_step iter (tdel k) c (c\<lparr>main := M_signal\<rparr>)" using M(5) by (intro step_deleted) simp
    then show ?thesis using fine_deleted(1) M(6,7) by (intro both [where mn = M_signal and u = s]) simp_all
  next
    case (fine_signal t fs')
    have t: "t = with_counters x s" "fs' = fs" using fine_signal(3) M(7) by simp_all
    have "par_step iter (tdel k) c (c\<lparr>main := M_join, par_world := (s\<lparr>doneStuff := True\<rparr>, fs)\<rparr>)"
      using fine_signal(2) M(5) M(6) by (intro step_signal) simp_all
    then show ?thesis using fine_signal(1) t by (intro both [where mn = M_join and u = "s\<lparr>doneStuff := True\<rparr>"]) (simp_all add: with_counters_def)
  next
    case (fine_join t fs')
    have t: "t = with_counters x s" "fs' = fs" using fine_join(3) M(7) by simp_all
    let ?u = "s\<lparr>threads := 0, activeCopy := False\<rparr>"
    have "par_step iter (tdel k) c (c\<lparr>main := M_end, par_world := (?u, fs)\<rparr>)"
      using fine_join(2,4) M(4,5) M(6) by (intro step_join) auto
    then show ?thesis using fine_join(1) t by (intro both [where mn = M_end and u = ?u]) (simp_all add: with_counters_def)
  qed (use main in simp_all)
qed

lemma fine_step_matched:
  assumes k: "countable_task k" and it: "iterates iter" and m: "matches k p c" and st: "fine_step iter (tdel k) p p'"
  shows "matches k p' c \<or> (\<exists>c'. par_step iter (tdel k) c c' \<and> matches k p' c')"
proof -
  have ok: "task_ok k" using k by (simp add: countable_task_def)
  note main = main_matched [OF ok it m st]
  from st show ?thesis
  proof (cases rule: fine_stepE)
    case (fine_sorter i pc w)
    have "i < length (sorters c)" using fine_sorter(2) matches_lengths [OF m] by simp
    then show ?thesis
      using sorter_matched [OF k it m fine_sorter(2,3)] fine_sorter(1) by (auto split: if_splits intro: par_step.step_sorter)
  next
    case (fine_worker i pc w)
    have "i < length (workers c)" using fine_worker(2) matches_lengths [OF m] by simp
    then show ?thesis
      using worker_matched [OF k it m fine_worker(2,3)] fine_worker(1) by (auto split: if_splits intro: par_step.step_worker)
  qed (intro disjI2 main; simp)+
qed

interpretation counting: stepwise_simulation "fine_step iter (tdel k)" "par_step iter (tdel k)"
    "\<lambda>p c. countable_task k \<and> iterates iter \<and> matches k p c"
  for iter k
  by unfold_locales (use fine_step_matched in blast)

section \<open>The smaller steps can finish\<close>

lemma fine_sorter_moves: "unlocked s \<Longrightarrow> \<exists>r. fine_sorter_act pc (s, fs) = Ret r"
proof (cases pc)
  case F_guard
  then show "unlocked s \<Longrightarrow> ?thesis" by (simp add: SortFiles_guard_def dq_size_def guarded_free unlocked_def)
next
  case F_pop
  then show "unlocked s \<Longrightarrow> ?thesis" by (auto simp: pop_front_cases unlocked_def split: list.split)
next
  case (F_sort f)
  then show "unlocked s \<Longrightarrow> ?thesis"
    by (auto simp: wants_copy_eq Let_def dq_push_back_def guarded_free unlocked_def split: option.split)
qed simp_all

lemma fine_worker_moves: "unlocked s \<Longrightarrow> \<exists>r. fine_worker_act pc (s, fs) = Ret r"
proof (cases pc)
  case (At_call d)
  assume u: "unlocked s"
  show ?thesis
  proof (cases d)
    case (W_copy f)
    then show ?thesis using At_call by (simp add: fine_transfer_act [OF u] split: sum.split)
  qed (use At_call worker_moves [OF u, of d fs] in auto)
qed simp_all

definition settled :: "fine_sys \<Rightarrow> bool" where
  "settled p \<longleftrightarrow> (\<forall>pc \<in> set (f_sorters p). left_in_sorter pc = 0) \<and> (\<forall>pc \<in> set (f_workers p). left_in_worker pc = 0)"

definition left_over :: "fine_sys \<Rightarrow> nat" where
  "left_over p = sum_list (map left_in_sorter (f_sorters p)) + sum_list (map left_in_worker (f_workers p))"

lemma matches_unlocked: "matches k p c \<Longrightarrow> f_world p = (s, fs) \<Longrightarrow> unlocked s"
  by (auto simp: matches_def matches_at_def par_inv_def inv_state_def)

lemma settles:
  assumes k: "countable_task k" and it: "iterates iter"
  shows "matches k p c \<Longrightarrow> \<exists>p'. (fine_step iter (tdel k))\<^sup>*\<^sup>* p p' \<and> matches k p' c \<and> settled p'"
proof (induction p rule: measure_induct_rule [of left_over])
  case (less p)
  obtain s fs where W: "f_world p = (s, fs)" by (cases "f_world p")
  note u = matches_unlocked [OF less.prems W]
  have onward: ?case if "fine_step iter (tdel k) p p'" "matches k p' c" "left_over p' < left_over p" for p'
    using less.IH [OF that(3,2)] that(1) by (meson converse_rtranclp_into_rtranclp)
  consider (sorter) i where "i < length (f_sorters p)" "left_in_sorter (f_sorters p ! i) \<noteq> 0"
    | (worker) i where "i < length (f_workers p)" "left_in_worker (f_workers p ! i) \<noteq> 0" | "settled p"
    unfolding settled_def by (metis in_set_conv_nth)
  then show ?case
  proof cases
    case (sorter i)
    obtain pc w where act: "fine_sorter_act (f_sorters p ! i) (f_world p) = Ret (pc, w)"
      using fine_sorter_moves [OF u] W by (metis surj_pair)
    let ?p = "p\<lparr>f_world := w, f_sorters := (f_sorters p)[i := pc]\<rparr>"
    have "matches k ?p c" "left_in_sorter pc < left_in_sorter (f_sorters p ! i)"
      using sorter_matched [OF k it less.prems sorter(1) act] sorter(2) by simp_all
    then show ?thesis
      using fine_sorter [OF sorter(1) act] sum_update [OF sorter(1), of left_in_sorter pc]
      by (intro onward [of ?p]) (simp_all add: left_over_def)
  next
    case (worker i)
    obtain pc w where act: "fine_worker_act (f_workers p ! i) (f_world p) = Ret (pc, w)"
      using fine_worker_moves [OF u] W by (metis surj_pair)
    let ?p = "p\<lparr>f_world := w, f_workers := (f_workers p)[i := pc]\<rparr>"
    have "matches k ?p c" "left_in_worker pc < left_in_worker (f_workers p ! i)"
      using worker_matched [OF k it less.prems worker(1) act] worker(2) by simp_all
    then show ?thesis
      using fine_worker [OF worker(1) act] sum_update [OF worker(1), of left_in_worker pc]
      by (intro onward [of ?p]) (simp_all add: left_over_def)
  qed (use less.prems in blast)
qed

text \<open>Where all threads stand at places the larger steps know, every larger step is one smaller step.\<close>

lemma settled_done:
  "abs_sorter d = S_done \<Longrightarrow> left_in_sorter d = 0 \<Longrightarrow> d = F_done"
  "abs_worker pc = W_exit \<Longrightarrow> left_in_worker pc = 0 \<Longrightarrow> pc = At_call W_exit"
  by (cases d; simp) (cases pc; simp)

lemma main_refined:
  assumes k: "task_ok k" and it: "iterates iter" and m: "matches k p c" and s: "settled p" and st: "par_step iter (tdel k) c c'"
    and main: "sorters c' = sorters c" "workers c' = workers c" "main c' \<noteq> main c"
  shows "\<exists>p'. fine_step iter (tdel k) p p' \<and> matches k p' c'"
proof -
  obtain x s fs where m': "matches_at k x s fs p c" using m by (auto simp: matches_def)
  note M = matches_atD [OF m']
  have both: "\<exists>p'. fine_step iter (tdel k) p p' \<and> matches k p' c'"
    if "fine_step iter (tdel k) p (p\<lparr>f_main := mn, f_world := (with_counters x u, fs)\<rparr>)" "with_counters s u = u"
      "c' = c\<lparr>main := mn, par_world := (u, fs)\<rparr>" for mn u
    using both_main [OF k it m' st [unfolded that(3)] that(2)] that(1,3) by blast
  from st show ?thesis
  proof (cases rule: par_stepE)
    case step_sorted
    have over: "\<forall>pc \<in> set (f_sorters p). pc = F_done"
      using step_sorted(3) M(3) s settled_done(1) by (auto simp: settled_def)
    let ?mn = "if tdel k then M_delete (iter (OFilesSet (fst (f_world p)))) else M_signal"
    have "OFilesSet (fst (f_world p)) = OFilesSet (fst (par_world c))" using M(6-8) all_owed_done [OF over] by simp
    moreover have "fine_step iter (tdel k) p (p\<lparr>f_main := ?mn\<rparr>)"
      using step_sorted(2) M(5) over by (intro fine_sorted) simp_all
    ultimately show ?thesis using step_sorted(1) M(6,7) by (intro both [where mn = ?mn and u = s]) simp_all
  next
    case (step_delete f files t fs' q)
    have t: "t = s" "fs' = fs" using step_delete(3) M(6) by simp_all
    let ?u = "s\<lparr>deleteQueue := q, cdeleted := cdeleted s + 1\<rparr>"
    have "fine_step iter (tdel k) p (p\<lparr>f_main := M_delete files, f_world := (with_counters x ?u, fs)\<rparr>)"
      using fine_delete [of p f files "with_counters x s" fs q iter "tdel k"] step_delete(2,4) M(5) M(7) t
      by simp
    then show ?thesis using step_delete(1) t by (intro both [where mn = "M_delete files" and u = ?u]) (simp_all add: with_counters_def)
  next
    case step_deleted
    then have "fine_step iter (tdel k) p (p\<lparr>f_main := M_signal\<rparr>)" using M(5) by (intro fine_deleted) simp
    then show ?thesis using step_deleted(1) M(6,7) by (intro both [where mn = M_signal and u = s]) simp_all
  next
    case (step_signal t fs')
    have t: "t = s" "fs' = fs" using step_signal(3) M(6) by simp_all
    have "fine_step iter (tdel k) p (p\<lparr>f_main := M_join, f_world := (with_counters x (s\<lparr>doneStuff := True\<rparr>), fs)\<rparr>)"
      using fine_signal [of p "with_counters x s" fs iter "tdel k"] step_signal(2) M(5) M(7) by simp
    then show ?thesis using step_signal(1) t by (intro both [where mn = M_join and u = "s\<lparr>doneStuff := True\<rparr>"]) (simp_all add: with_counters_def)
  next
    case (step_join t fs')
    have t: "t = s" "fs' = fs" using step_join(3) M(6) by simp_all
    have "\<forall>pc \<in> set (f_workers p). pc = At_call W_exit"
      using step_join(4) M(4) s settled_done(2) by (auto simp: settled_def)
    then have "fine_step iter (tdel k) p (p\<lparr>f_main := M_end, f_world := (with_counters x (s\<lparr>threads := 0, activeCopy := False\<rparr>), fs)\<rparr>)"
      using fine_join [of p "with_counters x s" fs iter "tdel k"] step_join(2) M(5) M(7) by simp
    then show ?thesis using step_join(1) t
      by (intro both [where mn = M_end and u = "s\<lparr>threads := 0, activeCopy := False\<rparr>"]) (simp_all add: with_counters_def)
  qed (use main in simp_all)
qed

lemma par_step_refined:
  assumes k: "countable_task k" and it: "iterates iter" and m: "matches k p c" and s: "settled p" and st: "par_step iter (tdel k) c c'"
  shows "\<exists>p'. fine_step iter (tdel k) p p' \<and> matches k p' c'"
proof -
  have ok: "task_ok k" using k by (simp add: countable_task_def)
  obtain t fs where W: "f_world p = (t, fs)" by (cases "f_world p")
  note u = matches_unlocked [OF m W] and main = main_refined [OF ok it m s st]
  have S: "length (sorters c) = length (f_sorters p)" "length (workers c) = length (f_workers p)" using matches_lengths [OF m] by simp_all
  from st show ?thesis
  proof (cases rule: par_stepE)
    case (step_sorter i pc w)
    have i: "i < length (f_sorters p)" using step_sorter(2) S by simp
    obtain d v where act: "fine_sorter_act (f_sorters p ! i) (f_world p) = Ret (d, v)"
      using fine_sorter_moves [OF u] W by (metis surj_pair)
    have "left_in_sorter (f_sorters p ! i) = 0" using s i by (simp add: settled_def)
    then show ?thesis using sorter_matched [OF k it m i act] fine_sorter [OF i act] step_sorter by auto
  next
    case (step_worker i pc w)
    have i: "i < length (f_workers p)" using step_worker(2) S by simp
    obtain d v where act: "fine_worker_act (f_workers p ! i) (f_world p) = Ret (d, v)"
      using fine_worker_moves [OF u] W by (metis surj_pair)
    have "left_in_worker (f_workers p ! i) = 0" using s i by (simp add: settled_def)
    then show ?thesis using worker_matched [OF k it m i act] fine_worker [OF i act] step_worker by auto
  qed (intro main; simp)+
qed

lemma fine_end_reachable:
  assumes k: "countable_task k" and it: "iterates iter"
  shows "matches k p c \<Longrightarrow> \<exists>q. (fine_step iter (tdel k))\<^sup>*\<^sup>* p q \<and> f_main q = M_end"
proof (induction c arbitrary: p rule: measure_induct_rule [of weight])
  case (less c)
  have ok: "task_ok k" using k by (simp add: countable_task_def)
  obtain p' where p': "(fine_step iter (tdel k))\<^sup>*\<^sup>* p p'" "matches k p' c" "settled p'"
    using settles [OF k it less.prems] by blast
  show ?case
  proof (cases "main c = M_end")
    case True
    then show ?thesis using p'(1) matches_lengths [OF p'(2)] by auto
  next
    case False
    have "par_inv k c" using matches_lengths [OF p'(2)] by simp
    then obtain c' where c': "par_step iter (tdel k) c c'" "weight c' < weight c" using some_step_lowers [OF ok it _ False] by blast
    then obtain p2 where p2: "fine_step iter (tdel k) p' p2" "matches k p2 c'" using par_step_refined [OF k it p'(2,3)] by blast
    obtain q where "(fine_step iter (tdel k))\<^sup>*\<^sup>* p2 q" "f_main q = M_end" using less.IH [OF c'(2) p2(2)] by blast
    then show ?thesis using p'(1) p2(1) by (meson converse_rtranclp_into_rtranclp rtranclp_trans)
  qed
qed

section \<open>Properties\<close>

lemma par_reach_steps: "(par_step iter del)\<^sup>*\<^sup>* p q \<Longrightarrow> par_reach iter del p q"
  by (induction rule: rtranclp_induct) (auto intro: par_reach.intros)

lemma Copy_prepare_active: "Copy_prepare iter inp out ow force move n w = Ret w' \<Longrightarrow> activeCopy (fst w')"
  by (auto simp: Copy_prepare_def Let_def obind_eq_Ret case_prod_unfold)

lemma nothing_left: "abs_worker pc = W_exit \<Longrightarrow> uncopied pc = 0" "abs_sorter d = S_done \<Longrightarrow> uncounted d = 0"
  by (cases pc; simp) (cases d; simp)

lemma fine_start_matched:
  assumes "sync_ready fs inp out" and "iterates iter" and "del \<Longrightarrow> nothing_nested fs inp out"
    and "Copy_prepare iter inp out ow force move processors (new_functions, fs) = Ret w3"
    and few: "length (file_names fs inp) < 2 ^ 64"
  obtains fs3 where "countable_task (task_of fs fs3 inp out del ow force move)"
    "matches (task_of fs fs3 inp out del ow force move) (fine_start n w3) (par_start n w3)"
proof -
  obtain fs3 where k: "task_ok (task_of fs fs3 inp out del ow force move)"
    and inv: "par_inv (task_of fs fs3 inp out del ow force move) (par_start n w3)"
    using start_inv [OF assms(1-4)] by blast
  obtain s fs' where W: "w3 = (s, fs')" by (cases w3)
  have none: "all_owed (replicate 4 F_guard) = {}" "sum_list (map uncounted (replicate 4 F_guard)) = 0"
    "sum_list (map uncopied (replicate n (At_call W_done))) = 0"
    by (simp_all add: all_owed_def sum_list_replicate)
  have "matches (task_of fs fs3 inp out del ow force move) (fine_start n w3) (par_start n w3)"
    using inv none by (intro matchesI [where s = s and x = s and fs = fs']) (simp_all add: fine_start_def par_start_def W)
  then show thesis using that k few by (simp add: countable_task_def all_rel_def)
qed


text \<open>C5: in the small steps, too, the end can be reached from every state the threads can reach.\<close>

theorem Copy_small_steps_can_finish:
  assumes "sync_ready fs inp out" and "iterates iter" and "deletewithoutmatch \<Longrightarrow> nothing_nested fs inp out"
    and "Copy_prepare iter inp out ow force move processors (new_functions, fs) = Ret w3"
    and "length (file_names fs inp) < 2 ^ 64"
    and "(fine_step iter deletewithoutmatch)\<^sup>*\<^sup>* (fine_start n w3) p"
  shows "\<exists>q. (fine_step iter deletewithoutmatch)\<^sup>*\<^sup>* p q \<and> f_main q = M_end"
proof -
  obtain fs3 where k: "countable_task (task_of fs fs3 inp out deletewithoutmatch ow force move)"
    and m: "matches (task_of fs fs3 inp out deletewithoutmatch ow force move) (fine_start n w3) (par_start n w3)"
    using fine_start_matched [OF assms(1-5)] by blast
  let ?k = "task_of fs fs3 inp out deletewithoutmatch ow force move"
  obtain c where "matches ?k p c"
    using counting.runs [of iter ?k "fine_start n w3" p "par_start n w3"] assms(2,6) k m by auto
  from fine_end_reachable [OF k assms(2) this] show ?thesis by simp
qed

text \<open>The first line of the progress, read before a sorter has counted a file, divides by zero.\<close>

theorem first_progress_undefined:
  assumes "sync_ready fs inp out" and "iterates iter"
    and "Copy_prepare iter inp out ow force move processors (new_functions, fs) = Ret w3"
  shows "progress_poll (fst w3) = Undef"
proof -
  have "bytesToCopy (fst w3) = 0"
    using prepare_phase [OF assms(1,2), of ow force move processors] assms(3) by (auto simp: idle_def)
  then show ?thesis using Copy_prepare_active [OF assms(3)] by (simp add: progress_poll_def progress_line_def percent_def)
qed

text \<open>How far the counters of one state can be from those of a later one.\<close>

lemma sorted_grows: "(par_step iter del)\<^sup>*\<^sup>* c d \<Longrightarrow> \<exists>l. sorted_log d = sorted_log c @ l"
  by (induction rule: rtranclp_induct) (auto elim!: par_stepE)

lemma uncounted_bound: "sum_list (map uncounted ths) \<le> length ths"
proof -
  have "uncounted pc \<le> 1" for pc by (cases pc) simp_all
  from sum_bound [of uncounted, OF this] show ?thesis by simp
qed

text \<open>C6: a line of the progress whose first number was read no later than its second: the files reported
  as written are at most four more than the files reported as found, and no more than the input has.\<close>

theorem progress_counts_bounded:
  assumes "sync_ready fs inp out" and "iterates iter" and "deletewithoutmatch \<Longrightarrow> nothing_nested fs inp out"
    and "Copy_prepare iter inp out ow force move processors (new_functions, fs) = Ret w3"
    and "length (file_names fs inp) < 2 ^ 64"
    and "(fine_step iter deletewithoutmatch)\<^sup>*\<^sup>* (fine_start n w3) p" and "(fine_step iter deletewithoutmatch)\<^sup>*\<^sup>* p q"
    and "progress_line (fst (f_world p)) (fst (f_world q)) s3 s4 s5 s6 = Ret (written, counted, bytes, whole, percentage)"
  shows "unat written \<le> unat counted + 4 \<and> unat written \<le> length (file_names fs inp) \<and> unat counted \<le> length (file_names fs inp)"
proof -
  obtain fs3 where k: "countable_task (task_of fs fs3 inp out deletewithoutmatch ow force move)"
    and m: "matches (task_of fs fs3 inp out deletewithoutmatch ow force move) (fine_start n w3) (par_start n w3)"
    using fine_start_matched [OF assms(1-5)] by blast
  let ?k = "task_of fs fs3 inp out deletewithoutmatch ow force move"
  obtain c where c: "(par_step iter deletewithoutmatch)\<^sup>*\<^sup>* (par_start n w3) c" "matches ?k p c"
    using counting.runs [of iter ?k "fine_start n w3" p "par_start n w3"] assms(2,6) k m by auto
  obtain d where d: "(par_step iter deletewithoutmatch)\<^sup>*\<^sup>* c d" "matches ?k q d"
    using counting.runs [of iter ?k p q c] assms(2,7) k c(2) by auto
  let ?wanted = "\<lambda>l. size (filter_mset (rel_wanted ?k) (mset l))"
  have "\<exists>s fs. par_world c = (s, fs) \<and> unat (filesCopied (fst (f_world p))) \<le> unat (filesCopied s) \<and> par_inv ?k c"
    using c(2) by (auto simp: matches_def matches_at_def)
  then have copied: "unat (filesCopied (fst (f_world p))) \<le> ?wanted (sorted_log c)"
    using counters_of(2,3) [OF k, of c] by fastforce
  obtain t fs' where inv: "par_world d = (t, fs')" "par_inv ?k d"
    and C: "unat (filesToCopy (fst (f_world q))) + sum_list (map uncounted (f_sorters q)) = unat (filesToCopy t)"
    and S: "length (sorters d) = length (f_sorters q)"
    using d(2) by (auto simp: matches_def matches_at_def)
  note total_sorted = counters_of(1) [OF k inv(2,1)]
  have "length (f_sorters q) = 4"
    using S par_lengths [OF par_reach_steps [OF rtranclp_trans [OF c(1) d(1)]]] by (simp add: par_start_def)
  then have four: "sum_list (map uncounted (f_sorters q)) \<le> 4" using uncounted_bound [of "f_sorters q"] by simp
  obtain l where l: "sorted_log d = sorted_log c @ l" using sorted_grows [OF d(1)] by blast
  have "?wanted (sorted_log c) \<le> ?wanted (sorted_log d)" by (simp add: l)
  moreover have "?wanted (sorted_log d) \<le> length (file_names fs inp)"
  proof -
    have "mset (sorted_log d) \<subseteq># mset (all_rel ?k)"
      using inv by (metis (no_types, lifting) inv_files_def mset_subset_eq_add_right par_inv_def)
    from size_mset_mono [OF this] have "length (sorted_log d) \<le> length (file_names fs inp)" by (simp add: all_rel_def)
    then show ?thesis using size_filter_mset_lesseq [of "rel_wanted ?k" "mset (sorted_log d)"] by simp
  qed
  moreover have "written = filesCopied (fst (f_world p))" "counted = filesToCopy (fst (f_world q))"
    using assms(8) by (auto simp: progress_line_def obind_eq_Ret)
  ultimately show ?thesis using copied total_sorted four C by simp
qed

section \<open>Examples\<close>

text \<open>A run in which a worker has moved the file before the sorter reads its size.\<close>

definition one_of_each :: "world \<Rightarrow> fine_sorter \<Rightarrow> fine_worker \<Rightarrow> fine_sys" where
  "one_of_each w d pc = \<lparr>f_world = w, f_sorters = d # replicate 3 F_guard, f_workers = [pc], f_main = M_sort\<rparr>"

lemma fine_more: "fine_step iter del p q \<Longrightarrow> (fine_step iter del)\<^sup>*\<^sup>* q r \<Longrightarrow> (fine_step iter del)\<^sup>*\<^sup>* p r"
  by (rule converse_rtranclp_into_rtranclp)

lemma one_sorts: "fine_sorter_act d w = Ret (d', w') \<Longrightarrow> fine_step iter del (one_of_each w d pc) (one_of_each w' d' pc)"
  using fine_sorter [of 0 "one_of_each w d pc" d' w' iter del] by (simp add: one_of_each_def)

lemma one_works: "fine_worker_act pc w = Ret (pc', w') \<Longrightarrow> fine_step iter del (one_of_each w d pc) (one_of_each w' d pc')"
  using fine_worker [of 0 "one_of_each w d pc" pc' w' iter del] by (simp add: one_of_each_def)

lemma example_relative_names: "file_names example_fs ''/in'' = [[''a''], [''b'']]" "file_names example_fs ''/out'' = [[''b''], [''c'']]"
    "dir_names example_fs ''/in'' = []"
    "rel_name example_fs [''a''] = ''a''" "rel_name example_fs [''b''] = ''b''" "rel_name example_fs [''c''] = ''c''"
    "prefix_of example_fs ''/in'' = ''/in/''" "prefix_of example_fs ''/out'' = ''/out/''"
  unfolding file_names_def dir_names_def names_below_def example_fields rel_name_def prefix_of_def
  by (simp_all add: example_fs_def path_defs)

lemma example_moved:
  assumes ad: "after_dirs example_fs ''/in'' ''/out'' fs3"
    and s: "inputPrefix s = ''/in/''" "outputPrefix s = ''/out/''" "move_flag s"
  obtains fs4 where "transfer s fs3 ''a'' = Inr fs4" "file_size_ec fs4 ''/in/a'' = - 1" "file_size_ec fs4 ''/out/a'' = 2"
proof -
  have nodes: "node_at fs3 q = node_at example_fs q" for q using ad by (simp add: after_dirs_def example_relative_names)
  have env: "windows fs3 = False" "denied fs3 = []"
    using ad by (simp_all add: after_dirs_def same_env_def example_fs_def)
  have res: "resolve fs ''/in/a'' = [''in'', ''a'']" "resolve fs ''/out/a'' = [''out'', ''a'']" if "windows fs = False" for fs
    using that by (simp_all add: path_defs)
  have a: "node_at fs3 [''in'', ''a''] = Some (File (FileTime 5) ''xx'')" "node_at fs3 [''out'', ''a''] = None"
    "node_at fs3 [''out''] = Some Dir"
    unfolding nodes by (simp_all add: example_fs_def node_at_def)
  define fs4 where "fs4 = set_node (del_node fs3 [''in'', ''a'']) [''out'', ''a''] (File (FileTime 5) ''xx'')"
  have "transfer s fs3 ''a'' = Inr fs4"
    using a env s by (simp add: transfer_def res Let_def rename_at_def fs4_def)
  moreover have "file_size_ec fs4 ''/in/a'' = - 1" "file_size_ec fs4 ''/out/a'' = 2"
    using env by (simp_all add: file_size_ec_def res size_at_def fs4_def)
  ultimately show thesis by (rule that)
qed

definition astray_line :: "64 word \<times> 64 word \<times> 64 word \<times> 64 word \<times> int" where
  "astray_line = (1, 0, 2, - 1, 0)"

lemma astray_percent: "percent 2 (- 1) = Ret 0"
proof -
  have "unat (- 1 :: 64 word) = 18446744073709551615" by (simp add: unsigned_minus_1_eq_mask mask_eq_exp_minus_1)
  moreover have "to_float 53 18446744073709551615 = 18446744073709551616"
    by (simp add: to_float_def shift_of.simps round_even_def Let_def)
  moreover have "to_float 53 450359962737049600 = 450359962737049600"
    by (simp add: to_float_def shift_of.simps round_even_def Let_def)
  moreover have "scale_of 2 83076749736557242056487941267521536 = 115" by (simp add: scale_of.simps)
  ultimately show ?thesis by (simp add: percent_def to_float_exact Let_def round_even_def)
qed

text \<open>A sorter queues the first file; a worker takes and transfers it before the sorter goes on.\<close>

lemma first_queued:
  assumes "unlocked t" and I: "payload (IFilesSet t) = f # r" and "f \<noteq> []" "f \<notin> OFilesSet t"
  shows "(fine_step iter del)\<^sup>*\<^sup>* (one_of_each (t, fs) F_guard pc)
    (one_of_each (t\<lparr>IFilesSet := (IFilesSet t)\<lparr>payload := r\<rparr>,
        copyQueue := (copyQueue t)\<lparr>payload := payload (copyQueue t) @ [f]\<rparr>\<rparr>, fs) (F_bytes f False) pc)"
proof -
  have free: "\<not> flag (IFilesSet t)" using assms(1) by (simp add: unlocked_def)
  let ?t = "t\<lparr>IFilesSet := (IFilesSet t)\<lparr>payload := r\<rparr>\<rparr>"
  have s1: "fine_step iter del (one_of_each (t, fs) F_guard pc) (one_of_each (t, fs) F_pop pc)"
    using I free by (intro one_sorts) (simp add: SortFiles_guard_def dq_size_def guarded_free)
  have s2: "fine_step iter del (one_of_each (t, fs) F_pop pc) (one_of_each (?t, fs) (F_sort f) pc)"
    using I by (intro one_sorts) (simp add: pop_front_cases [OF free])
  have "unlocked ?t" "copy_wanted ?t fs f = Some True" using assms by (simp_all add: unlocked_def copy_wanted_def)
  from one_sorts [OF fine_sort_act [OF this assms(3), unfolded if_True], of iter del pc]
  have s3: "fine_step iter del (one_of_each (?t, fs) (F_sort f) pc)
      (one_of_each (?t\<lparr>copyQueue := (copyQueue t)\<lparr>payload := payload (copyQueue t) @ [f]\<rparr>\<rparr>, fs) (F_bytes f False) pc)"
    using assms(4) by simp
  show ?thesis by (rule fine_more [OF s1], rule fine_more [OF s2], rule r_into_rtranclp, rule s3)
qed

lemma taken_and_moved:
  assumes "unlocked t" "\<not> doneStuff t" and C: "payload (copyQueue t) = [f]" and moved: "transfer t fs f = Inr fs'"
  shows "(fine_step iter del)\<^sup>*\<^sup>* (one_of_each (t, fs) d (At_call W_done))
    (one_of_each (t\<lparr>copyQueue := (copyQueue t)\<lparr>payload := []\<rparr>, filesCopied := filesCopied t + 1,
        bytesCopied := bytesCopied t + file_size_ec fs' (outputPrefix t @ f)\<rparr>, fs') d (At_call W_popd))"
proof -
  have free: "\<not> flag (copyQueue t)" using assms(1) by (simp add: unlocked_def)
  let ?t = "t\<lparr>copyQueue := (copyQueue t)\<lparr>payload := []\<rparr>\<rparr>"
  have s1: "fine_step iter del (one_of_each (t, fs) d (At_call W_done)) (one_of_each (t, fs) d (At_call W_pop))"
    using assms(2) by (intro one_works) simp
  have s2: "fine_step iter del (one_of_each (t, fs) d (At_call W_pop)) (one_of_each (?t, fs) d (At_call (W_copy f)))"
    using C by (intro one_works) (simp add: pop_front_cases [OF free])
  have "unlocked ?t" using assms(1) by (simp add: unlocked_def)
  then have "fine_worker_act (At_call (W_copy f)) (?t, fs) = Ret (F_copied f, ?t, fs')"
    using moved by (simp add: fine_transfer_act transfer_def)
  note s3 = one_works [OF this, of iter del d]
  have s4: "fine_step iter del (one_of_each (?t, fs') d (F_copied f)) (one_of_each (?t\<lparr>filesCopied := filesCopied t + 1\<rparr>, fs') d (F_sized f))"
    by (intro one_works) simp
  have s5: "fine_step iter del (one_of_each (?t\<lparr>filesCopied := filesCopied t + 1\<rparr>, fs') d (F_sized f))
      (one_of_each (?t\<lparr>filesCopied := filesCopied t + 1,
        bytesCopied := bytesCopied t + file_size_ec fs' (outputPrefix t @ f)\<rparr>, fs') d (At_call W_popd))"
    by (intro one_works) simp
  show ?thesis
    by (rule fine_more [OF s1], rule fine_more [OF s2], rule fine_more [OF s3], rule fine_more [OF s4], rule r_into_rtranclp, rule s5)
qed

lemma example_astray:
  obtains w3 p where "Copy_prepare sorted_list_of_set ''/in'' ''/out'' False False True 1 (new_functions, example_fs) = Ret w3"
    "(fine_step sorted_list_of_set False)\<^sup>*\<^sup>* (fine_start 1 w3) p" "activeCopy (fst (f_world p))"
    "progress_line (fst (f_world p)) (fst (f_world p)) (fst (f_world p)) (fst (f_world p)) (fst (f_world p)) (fst (f_world p)) =
       Ret astray_line"
proof -
  obtain t fs3 where prep: "Copy_prepare sorted_list_of_set ''/in'' ''/out'' False False True 1 (new_functions, example_fs) = Ret (t, fs3)"
    and ad: "after_dirs example_fs ''/in'' ''/out'' fs3" and idle: "idle t"
    and t: "payload (IFilesSet t) = [''a'', ''b'']" "inputPrefix t = ''/in/''" "outputPrefix t = ''/out/''"
      "OFilesSet t = {''b'', ''c''}" "move_flag t" "\<not> doneStuff t"
    using prepare_phase [OF example_ready sorted_iterates, of False False True 1] by (auto simp: example_relative_names)
  have u: "unlocked t" "payload (copyQueue t) = []" "filesToCopy t = 0" "filesCopied t = 0" "bytesToCopy t = 0" "bytesCopied t = 0"
    using idle by (simp_all add: idle_def)
  define t2 where "t2 = t\<lparr>IFilesSet := (IFilesSet t)\<lparr>payload := [''b'']\<rparr>, copyQueue := (copyQueue t)\<lparr>payload := payload (copyQueue t) @ [''a'']\<rparr>\<rparr>"
  obtain fs4 where moved: "transfer t2 fs3 ''a'' = Inr fs4" and size: "file_size_ec fs4 ''/in/a'' = - 1" "file_size_ec fs4 ''/out/a'' = 2"
    using example_moved [OF ad, of t2] t by (auto simp: t2_def)
  define t4 where "t4 = t2\<lparr>copyQueue := (copyQueue t2)\<lparr>payload := []\<rparr>, filesCopied := 1, bytesCopied := 2\<rparr>"
  let ?r = "fine_step sorted_list_of_set False" and ?b = "F_bytes ''a'' False"
  let ?p = "one_of_each (t4\<lparr>bytesToCopy := - 1\<rparr>, fs4) (F_files ''a'' False) (At_call W_popd)"
  have "?r\<^sup>*\<^sup>* (one_of_each (t, fs3) F_guard (At_call W_done)) (one_of_each (t2, fs3) ?b (At_call W_done))"
    using first_queued [OF u(1) t(1)] t(4) unfolding t2_def by simp
  moreover have "?r\<^sup>*\<^sup>* (one_of_each (t2, fs3) ?b (At_call W_done)) (one_of_each (t4, fs4) ?b (At_call W_popd))"
  proof -
    have "unlocked t2" "\<not> doneStuff t2" "payload (copyQueue t2) = [''a'']" using u(1,2) t(6) by (simp_all add: t2_def unlocked_def)
    from taken_and_moved [OF this moved, of sorted_list_of_set False ?b] show ?thesis
      using u t(3) size(2) by (simp add: t4_def t2_def)
  qed
  moreover have "?r (one_of_each (t4, fs4) ?b (At_call W_popd)) ?p"
    using u(5) t(2) size(1) by (intro one_sorts) (simp add: t2_def t4_def)
  ultimately have "?r\<^sup>*\<^sup>* (one_of_each (t, fs3) F_guard (At_call W_done)) ?p"
    by (meson rtranclp.rtrancl_into_rtrancl rtranclp_trans)
  then have "?r\<^sup>*\<^sup>* (fine_start 1 (t, fs3)) ?p" by (simp add: fine_start_def one_of_each_def numeral_eq_Suc)
  moreover have "activeCopy t4" "filesToCopy t4 = 0" "filesCopied t4 = 1" "bytesCopied t4 = 2"
    using Copy_prepare_active [OF prep] u by (simp_all add: t2_def t4_def)
  ultimately show thesis
    using that [OF prep, of ?p] by (simp add: progress_line_def astray_percent astray_line_def one_of_each_def)
qed

text \<open>With \<open>-m\<close> the loop of \<open>main\<close> can print one file of none and two bytes of \<open>2 ^ 64 - 1\<close>: the sorter adds
  the size of the input file behind its push, and a worker may have moved that file away.\<close>

theorem progress_counts_astray:
  "\<exists>w3 p. Copy_prepare sorted_list_of_set ''/in'' ''/out'' False False True 1 (new_functions, example_fs) = Ret w3 \<and>
     (fine_step sorted_list_of_set False)\<^sup>*\<^sup>* (fine_start 1 w3) p \<and>
     progress_poll (fst (f_world p)) = Ret (finished (fst (f_world p)), Some (1, 0, 2, 2 ^ 64 - 1, 0))"
proof -
  obtain w3 p where run: "Copy_prepare sorted_list_of_set ''/in'' ''/out'' False False True 1 (new_functions, example_fs) = Ret w3"
    "(fine_step sorted_list_of_set False)\<^sup>*\<^sup>* (fine_start 1 w3) p" and s: "activeCopy (fst (f_world p))"
    "progress_line (fst (f_world p)) (fst (f_world p)) (fst (f_world p)) (fst (f_world p)) (fst (f_world p)) (fst (f_world p)) =
       Ret astray_line" by (rule example_astray)
  have "progress_poll (fst (f_world p)) = Ret (finished (fst (f_world p)), Some (1, 0, 2, 2 ^ 64 - 1, 0))"
    using s by (simp add: progress_poll_def astray_line_def)
  with run show ?thesis by (intro exI conjI)
qed

lemma example_few: "length (file_names example_fs ''/in'') < 2 ^ 64"
  by (simp add: example_relative_names)


theorem Copy_small_steps_can_finish_witness:
  "\<exists>w3 q. (fine_step sorted_list_of_set True)\<^sup>*\<^sup>* (fine_start 0 w3) q \<and> f_main q = M_end"
proof -
  obtain w3 where w3: "Copy_prepare sorted_list_of_set ''/in'' ''/out'' False False False 2 (new_functions, example_fs) = Ret w3"
    using example_prepared by blast
  from Copy_small_steps_can_finish [OF example_ready sorted_iterates example_nested w3 example_few rtranclp.rtrancl_refl]
  show ?thesis by blast
qed

theorem first_progress_undefined_witness:
  "\<exists>w3. Copy_prepare sorted_list_of_set ''/in'' ''/out'' False False False 2 (new_functions, example_fs) = Ret w3 \<and>
    progress_poll (fst w3) = Undef"
  using example_prepared first_progress_undefined [OF example_ready sorted_iterates] by blast

theorem progress_counts_bounded_witness:
  "\<exists>w3 p. (fine_step sorted_list_of_set False)\<^sup>*\<^sup>* (fine_start 1 w3) p \<and>
    filesCopied (fst (f_world p)) = 1 \<and> filesToCopy (fst (f_world p)) = 0 \<and>
    unat (filesCopied (fst (f_world p))) \<le> unat (filesToCopy (fst (f_world p))) + 4"
proof -
  obtain w3 p where run: "Copy_prepare sorted_list_of_set ''/in'' ''/out'' False False True 1 (new_functions, example_fs) = Ret w3"
    "(fine_step sorted_list_of_set False)\<^sup>*\<^sup>* (fine_start 1 w3) p"
    and l: "progress_line (fst (f_world p)) (fst (f_world p)) (fst (f_world p)) (fst (f_world p)) (fst (f_world p)) (fst (f_world p)) =
       Ret astray_line" by (rule example_astray)
  have counts: "filesCopied (fst (f_world p)) = 1" "filesToCopy (fst (f_world p)) = 0"
    using l by (auto simp: progress_line_def astray_line_def obind_eq_Ret)
  have none: "False \<Longrightarrow> nothing_nested example_fs ''/in'' ''/out''" by simp
  have "unat (1 :: 64 word) \<le> unat (0 :: 64 word) + 4 \<and> unat (1 :: 64 word) \<le> length (file_names example_fs ''/in'')"
    using progress_counts_bounded [OF example_ready sorted_iterates none run(1) example_few run(2) rtranclp.rtrancl_refl
        l [unfolded astray_line_def]] by blast
  with run(2) counts show ?thesis by (intro exI [of _ w3] exI [of _ p]) simp
qed

end
