(* ===== verification/Reconstitute.thy ===== *)
theory Reconstitute
  imports SyncResult
begin

text \<open>
  \<open>Functions::ReconstitueSymlinks\<close>: every junction below the first folder is replaced by a copy of
  the directory of the same relative name in one of the other folders. The state is a file system
  and the list of its junctions. A junction is a directory node here, and what it leads to is
  listed below it, as the iterators of the code, which follow links, show it; removing the
  junction removes this view and not its target.
\<close>

section \<open>Replacing one junction\<close>

text \<open>\<open>path::filename()\<close>.\<close>

definition filename :: "bool \<Rightarrow> string \<Rightarrow> string" where
  "filename win s = last (split_path win s)"

text \<open>\<open>remove(pth)\<close> of a junction.\<close>

definition remove_link :: "fs \<Rightarrow> path list \<Rightarrow> string \<Rightarrow> (fs \<times> path list) outcome" where
  "remove_link fs links s =
     (let p = resolve fs s
      in if p \<in> set (denied fs) then Throw (Filesystem_error Denied)
         else Ret (fs\<lparr>nodes := filter (\<lambda>(q, n). \<not> prefix p q) (nodes fs)\<rparr>, filter (\<lambda>q. \<not> prefix p q) links))"

text \<open>
  \<open>copy(from, to, recursive)\<close> into the directory the code has just created. The entries are those
  the source has at the call; a refused path in either tree throws.
\<close>

definition stamped :: "fs \<Rightarrow> node \<Rightarrow> node" where
  "stamped fs n = (case n of Dir \<Rightarrow> Dir | File t c \<Rightarrow> File (if windows fs then t else clock fs) c)"

definition copy_tree_at :: "fs \<Rightarrow> path \<Rightarrow> path \<Rightarrow> errc + fs" where
  "copy_tree_at fs src dst =
     (case node_at fs src of
        None \<Rightarrow> Inl No_entry
      | Some (File t c) \<Rightarrow> copy_file_at fs src (if node_at fs dst = Some Dir then dst @ [last src] else dst)
      | Some Dir \<Rightarrow>
          if src = dst then Inl Same_file
          else if node_at fs dst \<noteq> Some Dir then Inl Not_directory
          else if list_ex (\<lambda>d. prefix src d \<or> prefix dst d) (denied fs) then Inl Denied
          else Inr (fold (\<lambda>(p, n) fs. set_node fs p n)
                 (map (\<lambda>(p, n). (dst @ drop (length src) p, stamped fs n))
                    (filter (\<lambda>(p, n). strict_prefix src p) (nodes fs))) fs))"

definition copy_tree :: "fs \<Rightarrow> string \<Rightarrow> string \<Rightarrow> fs outcome" where
  "copy_tree fs a b =
     (case copy_tree_at fs (resolve fs a) (resolve fs b) of
        Inl e \<Rightarrow> Throw (Filesystem_error e) | Inr fs' \<Rightarrow> Ret fs')"

definition replace_dir :: "string list \<Rightarrow> string set list \<Rightarrow> string \<Rightarrow> fs \<times> path list \<Rightarrow> (fs \<times> path list) outcome" where
  "replace_dir roots dirs dir st =
     (case st of (fs, links) \<Rightarrow>
        let pth = roots ! 0 @ dir
        in if resolve fs pth \<in> set links then
             (case find (\<lambda>i. dir \<in> dirs ! i \<or> filename (windows fs) pth \<in> dirs ! i) [1..<length roots] of
                None \<Rightarrow> Ret st
              | Some i \<Rightarrow>
                  obind (remove_link fs links pth) (\<lambda>(fs1, links1).
                  obind (create_directories fs1 pth) (\<lambda>fs2.
                  obind (copy_tree fs2 (roots ! i @ dir) pth) (\<lambda>fs3. Ret (fs3, links1)))))
           else Ret st)"

text \<open>The loop over the first folder; without a folder \<open>dirs[0]\<close> is out of range.\<close>

definition ReconstitueSymlinks ::
  "(string set \<Rightarrow> string list) \<Rightarrow> string list \<Rightarrow> fs \<times> path list \<Rightarrow> (fs \<times> path list) outcome" where
  "ReconstitueSymlinks iter folders st =
     (let roots = map (\<lambda>f. f @ [preferred_separator (windows (fst st))]) folders
      in obind (ofold (\<lambda>f acc. obind (GetFilesRelative (fst st) f {} {}) (\<lambda>(files, dirs). Ret (acc @ [dirs])))
                  folders [])
           (\<lambda>dirs. case dirs of [] \<Rightarrow> Undef | d0 # _ \<Rightarrow> ofold (replace_dir roots dirs) (iter d0) st))"

section \<open>The relative names of a tree\<close>

lemma ofold_names:
  assumes "wf_fs fs" "good_root fs root" "denied fs = []"
  shows "ofold (\<lambda>(p, n) (files, dirs).
        obind (strip_prefix (word_of_nat (length (prefix_of fs root))) (entry_of fs root p)) (\<lambda>rel.
          if n = Dir then Ret (files, insert rel dirs) else Ret (insert rel files, dirs)))
      (filter (\<lambda>(p, n). strict_prefix (resolve fs root) p) (nodes fs)) (F, D) =
    Ret (rel_name fs ` set (file_names fs root) \<union> F, rel_name fs ` set (dir_names fs root) \<union> D)"
proof -
  let ?r = "resolve fs root"
  let ?g = "\<lambda>(p, n) (files, dirs). if n = Dir then (files, insert (rel_name fs (drop (length ?r) p)) dirs)
      else (insert (rel_name fs (drop (length ?r) p)) files, dirs)"
  let ?es = "filter (\<lambda>(p, n). strict_prefix ?r p) (nodes fs)"
  have strip: "strip_prefix (word_of_nat (length (prefix_of fs root))) (entry_of fs root p) = Ret (rel_name fs (drop (length ?r) p))"
    if "(p, n) \<in> set ?es" for p n
  proof -
    have in_names: "drop (length ?r) p \<in> set (names_below fs ?r (n = Dir))"
      using that by (force simp: names_below_def)
    have "(p, n) \<in> set (nodes fs)" "strict_prefix ?r p" using that by auto
    then show ?thesis using entry_of_below [OF assms(1,2)] strip_below [OF assms(1,2) in_names] by simp
  qed
  have sets: "fold ?g es (F, D) =
      (rel_name fs ` set (map (\<lambda>(p, n). drop (length ?r) p) (filter (\<lambda>(p, n). (n = Dir) = False) es)) \<union> F,
       rel_name fs ` set (map (\<lambda>(p, n). drop (length ?r) p) (filter (\<lambda>(p, n). (n = Dir) = True) es)) \<union> D)" for es
    by (induction es arbitrary: F D) (simp_all add: split_def)
  have "ofold (\<lambda>(p, n) (files, dirs).
        obind (strip_prefix (word_of_nat (length (prefix_of fs root))) (entry_of fs root p)) (\<lambda>rel.
          if n = Dir then Ret (files, insert rel dirs) else Ret (insert rel files, dirs))) ?es (F, D) =
      Ret (fold ?g ?es (F, D))"
    by (rule ofold_pure) (auto simp: strip)
  moreover have "filter (\<lambda>(p, n). (n = Dir) = b) ?es = filter (\<lambda>(p, n). strict_prefix ?r p \<and> (n = Dir) = b) (nodes fs)" for b
    by (auto intro!: filter_cong)
  from this [of True] this [of False] have "fold ?g ?es (F, D) =
      (rel_name fs ` set (file_names fs root) \<union> F, rel_name fs ` set (dir_names fs root) \<union> D)"
    unfolding sets by (simp add: file_names_def dir_names_def names_below_def)
  ultimately show ?thesis by simp
qed

lemma GetFilesRelative_finds:
  assumes "wf_fs fs" "good_root fs root" "denied fs = []"
  shows "GetFilesRelative fs root F D =
    Ret (rel_name fs ` set (file_names fs root) \<union> F, rel_name fs ` set (dir_names fs root) \<union> D)"
proof -
  have "node_at fs (resolve fs root) = Some Dir" using assms(2) by (simp add: good_root_def)
  then show ?thesis using ofold_names [OF assms, of F D] assms(3)
    by (simp add: GetFilesRelative_def exists_path_def recursive_entries_def scan_all prefix_of_def Let_def)
qed


lemma GetFilesRelative_files_finds:
  assumes "wf_fs fs" "good_root fs root" "denied fs = []"
  shows "GetFilesRelative_files fs root = Ret (rel_name fs ` set (file_names fs root))"
proof -
  let ?r = "resolve fs root" and ?F = "rel_name fs ` set (file_names fs root)"
  have dir: "node_at fs ?r = Some Dir" using assms(2) by (simp add: good_root_def)
  have "map (\<lambda>(p, n). entry_of fs root p) (filter (\<lambda>(p, n). n \<noteq> Dir) (filter (\<lambda>(p, n). strict_prefix ?r p) (nodes fs))) =
      map (\<lambda>ns. prefix_of fs root @ rel_name fs ns) (file_names fs root)"
    using entry_of_below [OF assms(1,2)]
    by (auto simp: file_names_def names_below_def filter_filter split_def intro!: map_cong filter_cong)
  moreover have "ofold (\<lambda>f A. obind (strip_prefix (word_of_nat (length (prefix_of fs root))) f) (\<lambda>rel. Ret (insert rel A)))
      (map (\<lambda>ns. prefix_of fs root @ rel_name fs ns) (file_names fs root)) {} = Ret ?F"
    using ofold_field [where mk = "\<lambda>A. A" and ins = "\<lambda>ns. insert (rel_name fs ns)" and xs = "file_names fs root"
        and A = "{}" and h = "\<lambda>ns. prefix_of fs root @ rel_name fs ns"]
    by (simp add: fold_insert_map strip_below [OF assms(1,2)] file_names_def)
  ultimately show ?thesis
    using dir assms(3)
    by (simp add: GetFilesRelative_files_def exists_path_def recursive_entries_def scan_all prefix_of_def Let_def)
qed

section \<open>The steps of a replacement\<close>

lemma keyed_nodes: "keyed fs \<Longrightarrow> (p, n) \<in> set (nodes fs) \<longleftrightarrow> p \<noteq> [] \<and> node_at fs p = Some n"
  by (force simp: keyed_def node_at_def)

lemma keyed_set: "p \<noteq> [] \<Longrightarrow> keyed fs \<Longrightarrow> keyed (set_node fs p n)"
  using same_env_set(1) [of p fs n] by (simp add: same_env_def)

text \<open>Removing a junction removes what is seen through it.\<close>

lemma removed_link:
  assumes "keyed fs" "p \<noteq> []"
  defines "fs1 \<equiv> fs\<lparr>nodes := filter (\<lambda>(q, n). \<not> prefix p q) (nodes fs)\<rparr>"
  shows "keyed fs1" and "node_at fs1 q = (if prefix p q then None else node_at fs q)"
    and "resolve fs1 = resolve fs"
proof -
  have "distinct (map fst (filter (\<lambda>(q, n). \<not> prefix p q) (nodes fs)))"
    using assms(1) by (simp add: keyed_def distinct_map_filter)
  then show "keyed fs1" using assms(1) by (auto simp: keyed_def fs1_def)
  have "map_of (filter (\<lambda>(q, n). \<not> prefix p q) xs) q = (if prefix p q then None else map_of xs q)" for xs :: "(path \<times> node) list"
    by (induction xs) auto
  then show "node_at fs1 q = (if prefix p q then None else node_at fs q)"
    using assms(2) by (auto simp: fs1_def node_at_def)
  show "resolve fs1 = resolve fs" by (simp add: fs1_def resolve_def fun_eq_iff)
qed

text \<open>Adding a list of nodes with different paths.\<close>

lemma fold_set_node:
  assumes "[] \<notin> set (map fst es)" "distinct (map fst es)"
  shows "node_at (fold (\<lambda>(p, n) fs. set_node fs p n) es fs) q =
      (case map_of es q of Some n \<Rightarrow> Some n | None \<Rightarrow> node_at fs q)"
    and "same_env fs (fold (\<lambda>(p, n) fs. set_node fs p n) es fs)"
  using assms
proof (induction es arbitrary: fs)
  case (Cons e es)
  obtain p n where e: "e = (p, n)" by (cases e)
  {
    case 1
    then have "map_of es p = None" using e by (auto simp: map_of_eq_None_iff)
    then show ?case using Cons.IH(1) [of "set_node fs p n"] 1 e by (auto split: option.split)
  next
    case 2
    then have "p \<noteq> []" using e by auto
    then have "same_env fs (set_node fs p n)" by simp
    moreover have "same_env (set_node fs p n) (fold (\<lambda>(p, n) fs. set_node fs p n) es (set_node fs p n))"
      using Cons.IH(2) [of "set_node fs p n"] 2 by simp
    ultimately show ?case using e by (simp add: same_env_trans)
  }
qed simp_all

lemma copied_tree:
  assumes k: "keyed fs" and dn: "denied fs = []" and d: "node_at fs src = Some Dir" "node_at fs dst = Some Dir"
    and sep: "\<not> prefix src dst" "\<not> prefix dst src"
  shows "\<exists>fs'. copy_tree_at fs src dst = Inr fs' \<and> same_env fs fs' \<and>
    (\<forall>q. node_at fs' q = (if strict_prefix dst q
        then (case node_at fs (src @ drop (length dst) q) of Some n \<Rightarrow> Some (stamped fs n) | None \<Rightarrow> node_at fs q)
        else node_at fs q))"
proof -
  let ?f = "\<lambda>(p, n). (dst @ drop (length src) p, stamped fs n)"
  let ?es = "map ?f (filter (\<lambda>(p, n). strict_prefix src p) (nodes fs))"
  have keys: "map fst ?es = map (\<lambda>p. dst @ drop (length src) p) (map fst (filter (\<lambda>(p, n). strict_prefix src p) (nodes fs)))"
    by (simp add: split_def)
  have dist: "distinct (map fst ?es)"
    unfolding keys using k
    by (subst distinct_map) (auto simp: keyed_def distinct_map_filter inj_on_def strict_prefix_def elim!: prefixE)
  have nonempty: "[] \<notin> set (map fst ?es)" using sep(2) by auto
  have mem: "(q, m) \<in> set ?es \<longleftrightarrow> strict_prefix dst q \<and>
      (\<exists>n. node_at fs (src @ drop (length dst) q) = Some n \<and> m = stamped fs n)" for q m
  proof
    assume "(q, m) \<in> set ?es"
    then show "strict_prefix dst q \<and> (\<exists>n. node_at fs (src @ drop (length dst) q) = Some n \<and> m = stamped fs n)"
      using k by (auto simp: keyed_nodes strict_prefix_def elim!: prefixE)
  next
    assume r: "strict_prefix dst q \<and> (\<exists>n. node_at fs (src @ drop (length dst) q) = Some n \<and> m = stamped fs n)"
    then have "dst @ drop (length dst) q = q" "drop (length dst) q \<noteq> []"
      by (auto simp: strict_prefix_def elim!: prefixE)
    with r obtain x n where x: "q = dst @ x" "x \<noteq> []" "node_at fs (src @ x) = Some n" "m = stamped fs n"
      by metis
    then have "(src @ x, n) \<in> set (filter (\<lambda>(p, n). strict_prefix src p) (nodes fs))"
      using k by (simp add: keyed_nodes strict_prefix_def)
    then have "?f (src @ x, n) \<in> set ?es" unfolding set_map by (rule imageI)
    then show "(q, m) \<in> set ?es" using x by simp
  qed
  have look: "map_of ?es q = (if strict_prefix dst q
      then map_option (stamped fs) (node_at fs (src @ drop (length dst) q)) else None)" for q
  proof (cases "map_of ?es q")
    case None
    then have "(q, m) \<notin> set ?es" for m using weak_map_of_SomeI [of q m ?es] by (metis option.distinct(1))
    then show ?thesis unfolding mem None by (cases "node_at fs (src @ drop (length dst) q)") auto
  next
    case (Some m)
    then have "(q, m) \<in> set ?es" by (rule map_of_SomeD)
    then show ?thesis unfolding mem Some by auto
  qed
  have "src \<noteq> dst" using sep by auto
  then have "copy_tree_at fs src dst = Inr (fold (\<lambda>(p, n) fs. set_node fs p n) ?es fs)"
    using d dn by (simp add: copy_tree_at_def)
  moreover note fold_set_node [OF nonempty dist, of fs]
  ultimately show ?thesis unfolding look
    by (intro exI [of _ "fold (\<lambda>(p, n) fs. set_node fs p n) ?es fs"]) (auto split: option.splits)
qed


lemma cleared_link:
  assumes wf: "wf_fs fs" and dn: "denied fs = []" and p: "resolve fs pth = p" "p \<noteq> []" "node_at fs p = Some Dir"
  shows "\<exists>fs1 fs2. remove_link fs links pth = Ret (fs1, filter (\<lambda>q. \<not> prefix p q) links) \<and>
    create_directories fs1 pth = Ret fs2 \<and> keyed fs2 \<and> denied fs2 = [] \<and> resolve fs2 = resolve fs \<and>
    stamped fs2 = stamped fs \<and>
    (\<forall>q. node_at fs2 q = (if prefix p q then if q = p then Some Dir else None else node_at fs q))"
proof -
  define fs1 where "fs1 = fs\<lparr>nodes := filter (\<lambda>(q, n). \<not> prefix p q) (nodes fs)\<rparr>"
  have k: "keyed fs" using wf by (auto simp: wf_fs_def keyed_def)
  note fs1 = removed_link [OF k p(2), folded fs1_def]
  have "node_at fs1 ([] @ take j p) \<in> {None, Some Dir}" if "j \<le> length p" for j
  proof (cases "j = length p")
    case True
    then show ?thesis by (simp add: fs1(2))
  next
    case False
    then have j: "j < length p" using that by simp
    then have np: "\<not> prefix p (take j p)" by (metis length_take min.strict_order_iff not_less prefix_length_le min.commute)
    have "prefix (take j p) p" by (rule take_is_prefix)
    moreover have "take j p \<noteq> p" using np by auto
    ultimately have "strict_prefix (take j p) p" by (simp add: strict_prefix_def)
    then show ?thesis using wf_parent [OF wf, of p "take j p"] p(3) np by (simp add: fs1(2))
  qed
  then obtain fs2 where mk: "mkdirs fs1 [] p = (None, fs2)" and env: "same_env fs1 fs2"
    and at: "\<And>q. node_at fs2 q = (if strict_prefix [] q \<and> prefix q ([] @ p) then Some Dir else node_at fs1 q)"
    using mkdirs_ok [of fs1 p "[]"] dn by (auto simp: fs1_def)
  have "remove_link fs links pth = Ret (fs1, filter (\<lambda>q. \<not> prefix p q) links)"
    using dn p(1) by (simp add: remove_link_def fs1_def Let_def)
  moreover have "create_directories fs1 pth = Ret fs2"
    using mk p(1) by (simp add: create_directories_def create_directories_ec_def fs1(3))
  moreover have "keyed fs2" using env fs1(1) by (simp add: same_env_def)
  moreover have "denied fs2 = []" "resolve fs2 = resolve fs"
    using env dn fs1(3) same_env_resolve [OF env] by (simp_all add: same_env_def fs1_def)
  moreover have "stamped fs2 = stamped fs"
    using env by (simp add: same_env_def fs1_def stamped_def fun_eq_iff split: node.split)
  moreover have "node_at fs2 q = (if prefix p q then if q = p then Some Dir else None else node_at fs q)" for q
  proof (cases "strict_prefix [] q \<and> prefix q p")
    case True
    then have "q = p \<or> node_at fs q = Some Dir"
      using wf_parent [OF wf, of p q] p(3) by (auto simp: strict_prefix_def)
    then show ?thesis using True at [of q] by (auto dest: prefix_order.antisym)
  next
    case False
    then have "q \<noteq> p" using p(2) by (auto simp: strict_prefix_def)
    moreover have "node_at fs2 q = node_at fs1 q" using False by (auto simp: at)
    moreover have "\<not> (prefix p q \<and> q = p)" using \<open>q \<noteq> p\<close> by simp
    ultimately show ?thesis using fs1(2) [of q] by simp
  qed
  ultimately show ?thesis by blast
qed

lemma filename_below:
  assumes "ns \<noteq> []" "\<forall>n \<in> set ns. valid_name (windows fs) n"
  shows "filename (windows fs) (prefix_of fs root @ rel_name fs ns) = last ns"
proof -
  have "split_path w (join_names w ns) = ns" if "ns \<noteq> []" "\<forall>n \<in> set ns. valid_name w n" for w
    using that
  proof (induction w ns rule: join_names.induct)
    case (3 w n m ns)
    then show ?case by (simp add: split_path_sep split_path_plain valid_name_def)
  qed (simp_all add: split_path_plain valid_name_def)
  then show ?thesis using assms by (simp add: filename_def prefix_of_def rel_name_def split_path_sep)
qed

text \<open>The sets of two folders, and one step of the loop on a name of the first.\<close>

lemma Reconstitue_two:
  assumes "wf_fs fs" "denied fs = []" "good_root fs a" "good_root fs b" "iterates iter"
  shows "ReconstitueSymlinks iter [a, b] (fs, links) =
    ofold (replace_dir [prefix_of fs a, prefix_of fs b]
        [rel_name fs ` set (dir_names fs a), rel_name fs ` set (dir_names fs b)])
      (iter (rel_name fs ` set (dir_names fs a))) (fs, links)"
  using GetFilesRelative_finds [OF assms(1,3,2), of "{}" "{}"] GetFilesRelative_finds [OF assms(1,4,2), of "{}" "{}"]
  by (simp add: ReconstitueSymlinks_def prefix_of_def)

lemma other_dir:
  "resolve fs (roots ! 0 @ dir) \<notin> set links \<Longrightarrow> replace_dir roots dirs dir (fs, links) = Ret (fs, links)"
  by (simp add: replace_dir_def)

lemma all_other:
  "(\<And>dir. dir \<in> set ds \<Longrightarrow> resolve fs (roots ! 0 @ dir) \<notin> set links) \<Longrightarrow>
   ofold (replace_dir roots dirs) ds (fs, links) = Ret (fs, links)"
  by (induction ds) (auto simp: other_dir)

lemma dir_name_resolves:
  assumes "wf_fs fs" "good_root fs a" "dir \<in> rel_name fs ` set (dir_names fs a)"
  shows "\<exists>ns. dir = rel_name fs ns \<and> ns \<noteq> [] \<and> (\<forall>n \<in> set ns. valid_name (windows fs) n) \<and>
    resolve fs (prefix_of fs a @ dir) = resolve fs a @ ns \<and> node_at fs (resolve fs a @ ns) = Some Dir"
proof -
  obtain ns where ns: "dir = rel_name fs ns" "ns \<in> set (names_below fs (resolve fs a) True)"
    using assms(3) by (auto simp: dir_names_def)
  then show ?thesis
    using names_below_valid [OF assms(1) ns(2)] resolve_prefix_of [OF assms(2), of ns]
    by (auto simp: set_names_below [OF assms(1)])
qed


lemma dropWhile_to: "x \<in> set xs \<Longrightarrow> dropWhile (\<lambda>d. d \<noteq> x) xs = x # tl (dropWhile (\<lambda>d. d \<noteq> x) xs)"
  by (induction xs) auto

lemma strict_prefix_parts: "strict_prefix p q \<Longrightarrow> \<exists>x. q = p @ x \<and> x \<noteq> []"
  by (auto simp: strict_prefix_def elim!: prefixE)

text \<open>The run up to the only junction, and the step there.\<close>

lemma Reconstitue_at:
  assumes wf: "wf_fs fs" and dn: "denied fs = []" and roots: "good_root fs a" "good_root fs b" and it: "iterates iter"
    and ns: "ns \<noteq> []" "node_at fs (resolve fs a @ ns) = Some Dir"
  shows "ReconstitueSymlinks iter [a, b] (fs, [resolve fs a @ ns]) =
    obind (replace_dir [prefix_of fs a, prefix_of fs b]
        [rel_name fs ` set (dir_names fs a), rel_name fs ` set (dir_names fs b)] (rel_name fs ns)
        (fs, [resolve fs a @ ns]))
      (ofold (replace_dir [prefix_of fs a, prefix_of fs b]
          [rel_name fs ` set (dir_names fs a), rel_name fs ` set (dir_names fs b)])
        (tl (dropWhile (\<lambda>d. d \<noteq> rel_name fs ns) (iter (rel_name fs ` set (dir_names fs a))))))"
proof -
  let ?D = "rel_name fs ` set (dir_names fs a)" and ?dir = "rel_name fs ns" and ?p = "resolve fs a @ ns"
  let ?step = "replace_dir [prefix_of fs a, prefix_of fs b] [?D, rel_name fs ` set (dir_names fs b)]"
  have "ns \<in> set (dir_names fs a)" using ns by (simp add: dir_names_def set_names_below [OF wf])
  then have D: "?dir \<in> ?D" by simp
  have it: "set (iter ?D) = ?D" using it by (simp add: iterates_def)
  have "?dir \<in> set (iter ?D)" using D it by simp
  then have split: "iter ?D = takeWhile (\<lambda>d. d \<noteq> ?dir) (iter ?D) @ ?dir # tl (dropWhile (\<lambda>d. d \<noteq> ?dir) (iter ?D))"
    using dropWhile_to by (metis takeWhile_dropWhile_id)
  have "ofold ?step (takeWhile (\<lambda>d. d \<noteq> ?dir) (iter ?D)) (fs, [?p]) = Ret (fs, [?p])"
  proof (rule all_other)
    fix d
    assume "d \<in> set (takeWhile (\<lambda>d. d \<noteq> ?dir) (iter ?D))"
    then have "d \<noteq> ?dir" "d \<in> ?D" using it by (auto dest: set_takeWhileD)
    then show "resolve fs ([prefix_of fs a, prefix_of fs b] ! 0 @ d) \<notin> set [?p]"
      using dir_name_resolves [OF wf roots(1), of d] by auto
  qed
  then have "ofold ?step (iter ?D) (fs, [?p]) =
      obind (?step ?dir (fs, [?p])) (ofold ?step (tl (dropWhile (\<lambda>d. d \<noteq> ?dir) (iter ?D))))"
    by (subst split) (simp add: ofold_append)
  then show ?thesis using Reconstitue_two [OF wf dn roots] assms(5) by simp
qed

section \<open>Properties\<close>

text \<open>\<open>GetFilesRelative\<close> collects exactly the relative names of the files and of the directories
  below a root, and its two overloads agree on the files.\<close>

theorem GetFilesRelative_names:
  assumes "wf_fs fs" and "good_root fs root" and "denied fs = []"
  shows "\<exists>F D. GetFilesRelative fs root {} {} = Ret (F, D) \<and> GetFilesRelative_files fs root = Ret F \<and>
    (\<forall>ns. ns \<noteq> [] \<and> (\<forall>n \<in> set ns. valid_name (windows fs) n) \<longrightarrow>
      (join_names (windows fs) ns \<in> D \<longleftrightarrow> node_at fs (resolve fs root @ ns) = Some Dir) \<and>
      (join_names (windows fs) ns \<in> F \<longleftrightarrow> (\<exists>t c. node_at fs (resolve fs root @ ns) = Some (File t c))))"
proof -
  let ?r = "resolve fs root" and ?w = "windows fs"
  let ?F = "rel_name fs ` set (file_names fs root)" and ?D = "rel_name fs ` set (dir_names fs root)"
  have in_iff: "join_names ?w ns \<in> rel_name fs ` set (names_below fs ?r b) \<longleftrightarrow> ns \<in> set (names_below fs ?r b)"
    if v: "\<forall>n \<in> set ns. valid_name ?w n" for ns b
  proof -
    have "ns = ms" if "join_names ?w ns = join_names ?w ms" "ms \<in> set (names_below fs ?r b)" for ms
      using join_inj [OF v names_below_valid(1) [OF assms(1) that(2)]] that(1) by simp
    then show ?thesis by (auto simp: rel_name_def)
  qed
  have "GetFilesRelative_files fs root = Ret ?F" using assms by (rule GetFilesRelative_files_finds)
  moreover have "GetFilesRelative fs root {} {} = Ret (?F, ?D)"
    using GetFilesRelative_finds [OF assms, of "{}" "{}"] by simp
  moreover have "(join_names ?w ns \<in> ?D \<longleftrightarrow> node_at fs (?r @ ns) = Some Dir) \<and>
      (join_names ?w ns \<in> ?F \<longleftrightarrow> (\<exists>t c. node_at fs (?r @ ns) = Some (File t c)))"
    if ns: "ns \<noteq> []" "\<forall>n \<in> set ns. valid_name ?w n" for ns
  proof -
    have "(\<exists>n. node_at fs (?r @ ns) = Some n \<and> n \<noteq> Dir) \<longleftrightarrow> (\<exists>t c. node_at fs (?r @ ns) = Some (File t c))"
      by (metis node.distinct(1) node.exhaust)
    then show ?thesis
      using in_iff [OF ns(2)] ns(1) by (simp add: file_names_def dir_names_def set_names_below [OF assms(1)])
  qed
  ultimately show ?thesis by blast
qed

text \<open>Where no junction lies below the first folder, \<open>ReconstitueSymlinks\<close> changes nothing; and
  without any folder it is undefined.\<close>

theorem ReconstitueSymlinks_keeps:
  assumes "wf_fs fs" and "denied fs = []" and "good_root fs a" and "good_root fs b" and "iterates iter"
    and "\<forall>ns. ns \<noteq> [] \<longrightarrow> resolve fs a @ ns \<notin> set links"
  shows "ReconstitueSymlinks iter [a, b] (fs, links) = Ret (fs, links) \<and>
    ReconstitueSymlinks iter [] (fs, links) = Undef"
proof -
  have "set (iter (rel_name fs ` set (dir_names fs a))) = rel_name fs ` set (dir_names fs a)"
    using assms(5) by (simp add: iterates_def)
  then have "resolve fs ([prefix_of fs a, prefix_of fs b] ! 0 @ dir) \<notin> set links"
    if "dir \<in> set (iter (rel_name fs ` set (dir_names fs a)))" for dir
    using dir_name_resolves [OF assms(1,3), of dir] that assms(6) by auto
  then show ?thesis using Reconstitue_two [OF assms(1-5)] all_other by (simp add: ReconstitueSymlinks_def)
qed


text \<open>A directory that matches a junction by its last name only makes \<open>ReconstitueSymlinks\<close> throw: the
  copy looks for the full relative name. The junction is gone by then (\<open>replace_dir\<close>), and the
  program does not catch the exception.\<close>

theorem ReconstitueSymlinks_name_only:
  assumes "wf_fs fs" and "denied fs = []" and "good_root fs a" and "good_root fs b" and "iterates iter"
    and "\<not> prefix (resolve fs a) (resolve fs b)" and "ns \<noteq> []" and "node_at fs (resolve fs a @ ns) = Some Dir"
    and "node_at fs (resolve fs b @ ns) = None" and "node_at fs (resolve fs b @ [last ns]) = Some Dir"
  shows "ReconstitueSymlinks iter [a, b] (fs, [resolve fs a @ ns]) = Throw (Filesystem_error No_entry)"
proof -
  let ?p = "resolve fs a @ ns" and ?src = "resolve fs b @ ns" and ?dir = "rel_name fs ns"
  let ?D = "\<lambda>r. rel_name fs ` set (dir_names fs r)"
  have valid: "\<forall>n \<in> set ns. valid_name (windows fs) n" using wf_names [OF assms(1), of ?p] assms(8) by auto
  have at: "resolve fs (prefix_of fs a @ ?dir) = ?p" "resolve fs (prefix_of fs b @ ?dir) = ?src"
    using resolve_prefix_of [OF assms(3) valid] resolve_prefix_of [OF assms(4) valid] by simp_all
  obtain fs1 fs2 where clear: "remove_link fs [?p] (prefix_of fs a @ ?dir) = Ret (fs1, [])"
    "create_directories fs1 (prefix_of fs a @ ?dir) = Ret fs2" and fs2: "resolve fs2 = resolve fs"
    "\<And>q. node_at fs2 q = (if prefix ?p q then if q = ?p then Some Dir else None else node_at fs q)"
    using cleared_link [OF assms(1,2) at(1) _ assms(8), of "[?p]"] assms(7) by auto
  have "?src \<noteq> ?p" using assms(8,9) by auto
  then have "copy_tree_at fs2 ?src ?p = Inl No_entry" using assms(9) by (simp add: copy_tree_at_def fs2(2))
  moreover have "[last ns] \<in> set (dir_names fs b)" using assms(10) by (simp add: dir_names_def set_names_below [OF assms(1)])
  then have "last ns \<in> ?D b" by (force simp: rel_name_def)
  ultimately have "replace_dir [prefix_of fs a, prefix_of fs b] [?D a, ?D b] ?dir (fs, [?p]) = Throw (Filesystem_error No_entry)"
    using clear at filename_below [OF assms(7) valid, of a]
    by (simp add: replace_dir_def copy_tree_def fs2(1))
  then show ?thesis using Reconstitue_at [OF assms(1-5,7,8)] by simp
qed


section \<open>Witnesses\<close>

definition linked_fs :: fs where
  "linked_fs =
     \<lparr>windows = True, cwd = [], clock = FileTime 100,
      nodes =
        [([''a''], Dir), ([''a'', ''l''], Dir), ([''a'', ''m''], Dir), ([''a'', ''m'', ''n''], Dir), ([''a'', ''f''], File (FileTime 1) ''z''),
         ([''b''], Dir), ([''b'', ''l''], Dir), ([''b'', ''l'', ''y''], File (FileTime 5) ''xx''), ([''b'', ''n''], Dir)],
      denied = []\<rparr>"

lemma linked_fields:
  "resolve linked_fs ''/a'' = [''a'']" "resolve linked_fs ''/b'' = [''b'']" "windows linked_fs = True" "denied linked_fs = []"
  by (simp_all add: linked_fs_def path_defs)

lemma linked_wf: "wf_fs linked_fs" "good_root linked_fs ''/a''" "good_root linked_fs ''/b''"
proof -
  show "wf_fs linked_fs" by (simp add: linked_fs_def wf_fs_def path_defs)
  show "good_root linked_fs ''/a''" "good_root linked_fs ''/b''"
    unfolding good_root_def short_names_def linked_fields by (simp_all add: linked_fs_def path_defs)
qed

lemma linked_nodes:
  "node_at linked_fs [''a'', ''l''] = Some Dir" "node_at linked_fs [''b'', ''l''] = Some Dir"
  "node_at linked_fs [''b'', ''l'', ''y''] = Some (File (FileTime 5) ''xx'')" "node_at linked_fs [''a'', ''m'', ''n''] = Some Dir"
  "node_at linked_fs [''b'', ''m'', ''n''] = None" "node_at linked_fs [''b'', ''n''] = Some Dir"
  "node_at linked_fs [''a'', ''f''] = Some (File (FileTime 1) ''z'')"
  by (simp_all add: linked_fs_def node_at_def)

theorem GetFilesRelative_names_witness:
  "\<exists>F D. GetFilesRelative linked_fs ''/a'' {} {} = Ret (F, D) \<and> ''f'' \<in> F \<and> [CHR ''m'', CHR 0x5C, CHR ''n''] \<in> D"
proof -
  have v: "valid_name True ''m''" "valid_name True ''n''" "valid_name True ''f''" by (simp_all add: valid_name_def is_sep_def)
  obtain F D where "GetFilesRelative linked_fs ''/a'' {} {} = Ret (F, D)" and
    r: "\<And>ns. ns \<noteq> [] \<and> (\<forall>n \<in> set ns. valid_name True n) \<Longrightarrow>
      (join_names True ns \<in> D \<longleftrightarrow> node_at linked_fs (''a'' # ns) = Some Dir) \<and>
      (join_names True ns \<in> F \<longleftrightarrow> (\<exists>t c. node_at linked_fs (''a'' # ns) = Some (File t c)))"
    using GetFilesRelative_names [OF linked_wf(1,2) linked_fields(4)] by (auto simp: linked_fields)
  moreover have "''f'' \<in> F" "[CHR ''m'', CHR 0x5C, CHR ''n''] \<in> D"
    using r [of "[''f'']"] r [of "[''m'', ''n'']"] v by (simp_all add: linked_nodes preferred_separator_def)
  ultimately show ?thesis by blast
qed

theorem ReconstitueSymlinks_keeps_witness:
  "ReconstitueSymlinks sorted_list_of_set [''/a'', ''/b''] (linked_fs, [[''b'', ''l'']]) = Ret (linked_fs, [[''b'', ''l'']]) \<and>
    ReconstitueSymlinks sorted_list_of_set [] (linked_fs, [[''b'', ''l'']]) = Undef"
  by (rule ReconstitueSymlinks_keeps [OF linked_wf(1) linked_fields(4) linked_wf(2,3) sorted_iterates])
    (simp add: linked_fields)


theorem ReconstitueSymlinks_name_only_witness:
  "ReconstitueSymlinks sorted_list_of_set [''/a'', ''/b''] (linked_fs, [[''a'', ''m'', ''n'']]) = Throw (Filesystem_error No_entry)"
  using ReconstitueSymlinks_name_only [OF linked_wf(1) linked_fields(4) linked_wf(2,3) sorted_iterates, of "[''m'', ''n'']"]
  by (simp add: linked_fields linked_nodes)

end
