(* ===== verification/SyncTest.thy ===== *)
theory SyncTest
  imports Reconstitute
begin

text \<open>
  \<open>src/tests.cpp\<close>: the repository's own test of \<open>Functions::Copy\<close>. Catch2 runs the body once for every
  combination of the generated values, on the file system the run before left; a \<open>REQUIRE\<close> that does
  not hold ends its run.
\<close>

section \<open>The test\<close>

record test_config =
  test_processors :: int
  test_delete :: bool
  test_overwrite :: bool
  test_force :: bool
  test_rm :: bool

text \<open>The values of \<open>GENERATE\<close>; the generator declared last varies fastest.\<close>

definition test_configs :: "test_config list" where
  "test_configs =
     [\<lparr>test_processors = p, test_delete = d, test_overwrite = w, test_force = f, test_rm = r\<rparr>.
        p \<leftarrow> [1..15], d \<leftarrow> [True, False], w \<leftarrow> [True, False], f \<leftarrow> [True, False], r \<leftarrow> [False, True]]"

fun require_files :: "fs \<Rightarrow> string \<Rightarrow> string \<Rightarrow> string set \<Rightarrow> string list \<Rightarrow> bool outcome" where
  "require_files fs inp outp outfiles [] = Ret True"
| "require_files fs inp outp outfiles (file # files) =
     (if file \<notin> outfiles then Ret False
      else obind (file_size fs (path_append (windows fs) inp file)) (\<lambda>a.
           obind (file_size fs (path_append (windows fs) outp file)) (\<lambda>b.
             if a = b then require_files fs inp outp outfiles files else Ret False)))"

text \<open>One run between two given directories, and a list of runs: which of them passed.\<close>

definition test_body ::
  "(string set \<Rightarrow> string list) \<Rightarrow> string \<Rightarrow> string \<Rightarrow> test_config \<Rightarrow> fs \<Rightarrow> (bool \<times> fs) outcome" where
  "test_body iter inp outp c fs =
     obind (Copy iter inp outp (test_delete c) (test_overwrite c) (test_force c) False (test_processors c) (new_functions, fs))
       (\<lambda>(s, fs1).
     obind (GetFilesRelative_files fs1 inp) (\<lambda>infiles.
     obind (GetFilesRelative_files fs1 outp) (\<lambda>outfiles.
     obind (require_files fs1 inp outp outfiles (iter infiles)) (\<lambda>passed.
       if \<not> passed then Ret (False, fs1)
       else if test_rm c then obind (remove_all fs1 outp) (\<lambda>fs2. Ret (True, fs2))
       else Ret (True, fs1)))))"

fun test_runs ::
  "(string set \<Rightarrow> string list) \<Rightarrow> string \<Rightarrow> string \<Rightarrow> test_config list \<Rightarrow> fs \<Rightarrow> (bool list \<times> fs) outcome" where
  "test_runs iter inp outp [] fs = Ret ([], fs)"
| "test_runs iter inp outp (c # cs) fs =
     obind (test_body iter inp outp c fs) (\<lambda>(b, fs1).
     obind (test_runs iter inp outp cs fs1) (\<lambda>(bs, fs2). Ret (b # bs, fs2)))"

definition test_Copy :: "(string set \<Rightarrow> string list) \<Rightarrow> fs \<Rightarrow> (bool list \<times> fs) outcome" where
  "test_Copy iter fs = test_runs iter ''../../tests'' ''../../tests_out'' test_configs fs"

section \<open>The state between two runs\<close>

text \<open>
  Every node of the output has a counterpart of the same content in the input; after a run every
  input file also has one in the output. Outside the output nothing changes.
\<close>

fun same_content :: "node option \<Rightarrow> node option \<Rightarrow> bool" where
  "same_content (Some Dir) (Some Dir) \<longleftrightarrow> True"
| "same_content (Some (File t c)) (Some (File u d)) \<longleftrightarrow> c = d"
| "same_content _ _ \<longleftrightarrow> False"

definition mirrored :: "fs \<Rightarrow> string \<Rightarrow> string \<Rightarrow> bool" where
  "mirrored fs inp outp \<longleftrightarrow>
     (\<forall>ns. ns \<noteq> [] \<longrightarrow> node_at fs (resolve fs outp @ ns) = None \<or>
        same_content (node_at fs (resolve fs inp @ ns)) (node_at fs (resolve fs outp @ ns)))"

definition copied_all :: "fs \<Rightarrow> string \<Rightarrow> string \<Rightarrow> bool" where
  "copied_all fs inp outp \<longleftrightarrow>
     (\<forall>ns. ns \<noteq> [] \<longrightarrow> is_file (node_at fs (resolve fs inp @ ns)) \<longrightarrow>
        same_content (node_at fs (resolve fs inp @ ns)) (node_at fs (resolve fs outp @ ns)))"

definition same_outside :: "path \<Rightarrow> fs \<Rightarrow> fs \<Rightarrow> bool" where
  "same_outside r a b \<longleftrightarrow> same_env a b \<and> (\<forall>q. \<not> prefix r q \<longrightarrow> node_at b q = node_at a q)"

definition between_runs :: "fs \<Rightarrow> string \<Rightarrow> string \<Rightarrow> fs \<Rightarrow> bool" where
  "between_runs fs0 inp outp fs \<longleftrightarrow>
     sync_ready fs inp outp \<and> mirrored fs inp outp \<and> same_outside (resolve fs0 outp) fs0 fs"

text \<open>A fresh checkout: the input is there, the output is not, and its directory can be made.\<close>

definition checkout :: "fs \<Rightarrow> string \<Rightarrow> string \<Rightarrow> bool" where
  "checkout fs inp outp \<longleftrightarrow>
     wf_fs fs \<and> denied fs = [] \<and> good_root fs inp \<and> short_names fs outp inp \<and>
     outp \<noteq> [] \<and> \<not> is_sep (windows fs) (last outp) \<and> length outp < 2 ^ 31 - 1 \<and>
     resolve fs outp \<noteq> [] \<and> node_at fs (resolve fs outp) = None \<and> node_at fs (butlast (resolve fs outp)) = Some Dir \<and>
     (\<forall>n \<in> set (resolve fs outp). valid_name (windows fs) n) \<and>
     \<not> prefix (resolve fs inp) (resolve fs outp) \<and> \<not> prefix (resolve fs outp) (resolve fs inp)"

definition same_nodes :: "fs \<Rightarrow> fs \<Rightarrow> bool" where
  "same_nodes a b \<longleftrightarrow> same_env a b \<and> node_at b = node_at a"

lemma wf_fs_keyed: "wf_fs fs \<longleftrightarrow> keyed fs \<and>
    (\<forall>p. p \<noteq> [] \<longrightarrow> node_at fs p \<noteq> None \<longrightarrow> (\<forall>n \<in> set p. valid_name (windows fs) n) \<and> node_at fs (butlast p) = Some Dir)"
proof -
  have mem: "p \<in> set (map fst (nodes fs)) \<longleftrightarrow> (if p = [] then [] \<in> fst ` set (nodes fs) else node_at fs p \<noteq> None)" for p
    by (auto simp: node_at_def map_of_eq_None_iff)
  show ?thesis unfolding wf_fs_def keyed_def Ball_def mem by (auto split: if_splits)
qed

lemma checkout_same:
  assumes "checkout fs inp outp" "same_nodes fs fs'"
  shows "checkout fs' inp outp"
proof -
  have e: "same_env fs fs'" "node_at fs' = node_at fs" using assms(2) by (simp_all add: same_nodes_def)
  have r: "resolve fs' = resolve fs" using e(1) by (rule same_env_resolve)
  have w: "windows fs' = windows fs" "denied fs' = denied fs" "keyed fs \<Longrightarrow> keyed fs'" using e(1) by (simp_all add: same_env_def)
  have wf: "wf_fs fs" using assms(1) by (simp add: checkout_def)
  then have wf': "wf_fs fs'" using w e(2) by (simp add: wf_fs_keyed)
  have "short_names fs' root src = short_names fs root src" for root src
    unfolding short_names_iff [OF wf] short_names_iff [OF wf'] r w(1) e(2) ..
  then show ?thesis using assms(1) wf' w e(2) r by (simp add: checkout_def good_root_def)
qed

lemma nothing_below:
  assumes "wf_fs fs" "node_at fs p = None"
  shows "node_at fs (p @ ns) = None"
proof (rule ccontr)
  assume some: "node_at fs (p @ ns) \<noteq> None"
  then have "strict_prefix p (p @ ns)" using assms(2) by (auto simp: strict_prefix_def)
  then show False using wf_parent [OF assms(1) some] assms(2) by simp
qed

lemma output_made:
  assumes "checkout fs inp outp"
  shows "\<exists>fs1. create_directories fs outp = Ret fs1 \<and> same_env fs fs1 \<and>
    (\<forall>q. node_at fs1 q = (if q = resolve fs outp then Some Dir else node_at fs q))"
proof -
  let ?ro = "resolve fs outp"
  have wf: "wf_fs fs" and c: "denied fs = []" "?ro \<noteq> []" "node_at fs ?ro = None" "node_at fs (butlast ?ro) = Some Dir"
    using assms by (simp_all add: checkout_def)
  have above: "node_at fs q = Some Dir" if q: "strict_prefix q ?ro" for q
  proof -
    have "prefix q (butlast ?ro)" using q c(2) by (metis append_butlast_last_id prefix_snoc strict_prefix_def)
    then show ?thesis using wf_parent [OF wf, of "butlast ?ro" q] c(4) by (cases "q = butlast ?ro") (auto simp: strict_prefix_def)
  qed
  have "node_at fs ([] @ take k ?ro) \<in> {None, Some Dir}" for k
    using above [of "take k ?ro"] c(3) by (cases "take k ?ro = ?ro") (auto simp: strict_prefix_def take_is_prefix)
  then obtain fs1 where mk: "mkdirs fs [] ?ro = (None, fs1)" "same_env fs fs1"
    and at: "\<And>q. node_at fs1 q = (if strict_prefix [] q \<and> prefix q ([] @ ?ro) then Some Dir else node_at fs q)"
    using mkdirs_ok [OF c(1), of ?ro "[]"] by blast
  have "node_at fs1 q = (if q = ?ro then Some Dir else node_at fs q)" for q
    using at above c(2) by (auto simp: strict_prefix_def)
  with mk show ?thesis by (intro exI [of _ fs1]) (simp add: create_directories_def create_directories_ec_def)
qed

lemma first_run_ready:
  assumes "checkout fs inp outp" "same_env fs fs1"
    and at: "\<And>q. node_at fs1 q = (if q = resolve fs outp then Some Dir else node_at fs q)"
  shows "between_runs fs inp outp fs1"
proof -
  let ?ri = "resolve fs inp" and ?ro = "resolve fs outp"
  have wf: "wf_fs fs" and c: "denied fs = []" "?ro \<noteq> []" "node_at fs ?ro = None" "node_at fs (butlast ?ro) = Some Dir"
    and names: "\<forall>n \<in> set ?ro. valid_name (windows fs) n" and inp: "good_root fs inp" "short_names fs outp inp"
    and out: "outp \<noteq> []" "\<not> is_sep (windows fs) (last outp)" "length outp < 2 ^ 31 - 1"
    and dis: "\<not> prefix ?ri ?ro" "\<not> prefix ?ro ?ri"
    using assms(1) by (simp_all add: checkout_def)
  have r: "resolve fs1 = resolve fs" using assms(2) by (rule same_env_resolve)
  have e: "windows fs1 = windows fs" "denied fs1 = denied fs" "keyed fs1"
    using assms(2) wf by (simp_all add: same_env_def wf_fs_keyed)
  have wf1: "wf_fs fs1"
    using wf e c(2,4) names by (auto simp: wf_fs_keyed at)
  have below: "node_at fs1 (?ro @ ns) = None" if "ns \<noteq> []" for ns
    using nothing_below [OF wf c(3), of ns] that by (simp add: at)
  have beside: "node_at fs1 (?ri @ ns) = node_at fs (?ri @ ns)" for ns
    using dis(1) at by (metis prefixI)
  have "short_names fs1 root inp = short_names fs root inp" for root
    unfolding short_names_iff [OF wf] short_names_iff [OF wf1] r e(1) beside ..
  moreover have "short_names fs1 outp outp" unfolding short_names_iff [OF wf1] r using below by simp
  ultimately have roots: "good_root fs1 inp" "good_root fs1 outp" "short_names fs1 outp inp"
    using inp out e r at beside [of "[]"] by (simp_all add: good_root_def)
  have "node_at fs1 (?ro @ drop (length ?ri) p) = None" if "strict_prefix ?ri p" for p
    using that by (intro below) (auto simp: strict_prefix_def elim!: prefixE)
  then have "compatible fs1 inp outp" by (auto simp: compatible_def list_all_iff r)
  then have "sync_ready fs1 inp outp" using wf1 roots e c(1) dis by (simp add: sync_ready_def r)
  moreover have "mirrored fs1 inp outp" using below by (simp add: mirrored_def r)
  ultimately show ?thesis using assms(2) at by (simp add: between_runs_def same_outside_def)
qed

section \<open>One run\<close>

lemma same_content_iff: "same_content i p \<longleftrightarrow>
    i = Some Dir \<and> p = Some Dir \<or> (\<exists>t u c. i = Some (File t c) \<and> p = Some (File u c))"
  by (cases "(i, p)" rule: same_content.cases) auto

text \<open>What \<open>synced\<close> puts in the output for an input node \<open>i\<close> and an output node \<open>p\<close>.\<close>

fun transferred :: "bool \<Rightarrow> bool \<Rightarrow> file_time option \<Rightarrow> node option \<Rightarrow> node option \<Rightarrow> node option" where
  "transferred ow force now None p = p"
| "transferred ow force now (Some Dir) p = Some Dir"
| "transferred ow force now (Some (File t c)) p =
     (if selected ow force (Some (File t c)) p then Some (File (case now of None \<Rightarrow> t | Some u \<Rightarrow> u) c) else p)"

lemma transferred_eq: "transferred ow force now i p =
    (case i of None \<Rightarrow> p | Some Dir \<Rightarrow> Some Dir | Some (File t c) \<Rightarrow>
       if selected ow force i p then Some (File (case now of None \<Rightarrow> t | Some u \<Rightarrow> u) c) else p)"
  by (cases "(ow, force, now, i, p)" rule: transferred.cases) simp_all

lemma transferred_content:
  assumes "p = None \<or> same_content i p"
  shows "transferred ow force now i p = None \<or> same_content i (transferred ow force now i p)"
    and "is_file i \<Longrightarrow> same_content i (transferred ow force now i p)"
  using assms by (cases "(ow, force, now, i, p)" rule: transferred.cases; auto)+

lemma mirrored_no_extra:
  assumes "sync_ready fs inp outp" "mirrored fs inp outp"
  shows "doomed_dirs fs inp outp = {}" and "set (file_names fs outp) \<subseteq> set (file_names fs inp)"
proof -
  have wf: "wf_fs fs" using assms(1) by (simp add: sync_ready_def)
  have c: "same_content (node_at fs (resolve fs inp @ d)) (node_at fs (resolve fs outp @ d))"
    if "d \<noteq> []" "node_at fs (resolve fs outp @ d) \<noteq> None" for d
    using assms(2) that by (auto simp: mirrored_def)
  have "node_at fs (resolve fs inp @ d) = Some Dir" if "d \<noteq> []" "node_at fs (resolve fs outp @ d) = Some Dir" for d
    using c [OF that(1)] that(2) by (auto simp: same_content_iff)
  then show "doomed_dirs fs inp outp = {}" by (auto simp: doomed_dirs_def dir_names_iff [OF wf])
  have "\<exists>t c. node_at fs (resolve fs inp @ d) = Some (File t c)" if "d \<noteq> []" "node_at fs (resolve fs outp @ d) = Some (File u v)" for d u v
    using c [OF that(1)] that(2) by (auto simp: same_content_iff)
  then show "set (file_names fs outp) \<subseteq> set (file_names fs inp)" by (auto simp: file_names_iff [OF wf] subset_iff)
qed

text \<open>Whatever its flags are, the run of \<open>Copy\<close> in the test makes the output a mirror of the input.\<close>

lemma copy_mirrors:
  assumes b: "between_runs fs0 inp outp fs" and it: "iterates iter" and n: "0 < n"
  shows "\<exists>t fs'. Copy iter inp outp del ow force False n (new_functions, fs) = Ret (t, fs') \<and>
    between_runs fs0 inp outp fs' \<and> copied_all fs' inp outp"
proof -
  let ?ri = "resolve fs inp" and ?ro = "resolve fs outp"
  have ready: "sync_ready fs inp outp" and m: "mirrored fs inp outp" and out: "same_outside (resolve fs0 outp) fs0 fs"
    using b by (simp_all add: between_runs_def)
  note extra = mirrored_no_extra [OF ready m]
  obtain t fs' where run: "Copy iter inp outp del ow force False n (new_functions, fs) = Ret (t, fs')" "same_env fs fs'"
    and left: "\<And>q. node_at fs' q = left_by_copy fs inp outp del ow force False q"
    using Copy_result [OF ready it n, of del ow force False] extra(2) by blast
  have at: "node_at fs' q = synced fs inp outp ow force False q" for q
    using left extra(1) by (simp add: left_by_copy_def)
  have r: "resolve fs' = resolve fs" "resolve fs = resolve fs0"
    using run(2) out by (simp_all add: same_env_resolve same_outside_def)
  have inp: "node_at fs' (?ri @ ns) = node_at fs (?ri @ ns)" for ns using synced_inp_kept [OF ready] by (simp add: at)
  have outp: "node_at fs' (?ro @ ns) = transferred ow force (if windows fs then None else Some (clock fs))
      (node_at fs (?ri @ ns)) (node_at fs (?ro @ ns))" if "ns \<noteq> []" for ns
    using synced_out [OF that, of fs inp outp ow force False] by (simp add: at transferred_eq split: option.split node.split)
  have m': "node_at fs (?ro @ ns) = None \<or> same_content (node_at fs (?ri @ ns)) (node_at fs (?ro @ ns))" if "ns \<noteq> []" for ns
    using m that by (auto simp: mirrored_def)
  have "mirrored fs' inp outp" unfolding mirrored_def r(1) inp using m' outp transferred_content(1) by metis
  moreover have "copied_all fs' inp outp" unfolding copied_all_def r(1) inp using m' outp transferred_content(2) by metis
  moreover have "node_at fs' q = node_at fs q" if "\<not> prefix ?ro q" for q
    using that at by (simp add: synced_def Let_def strict_prefix_def)
  then have "same_outside (resolve fs0 outp) fs0 fs'"
    using out run(2) same_env_trans by (auto simp: same_outside_def r(2))
  ultimately show ?thesis using run(1) synced_ready [OF ready run(2) at] by (auto simp: between_runs_def)
qed

text \<open>The assertions of the test hold for a complete mirror.\<close>

lemma require_files_pass:
  assumes "\<And>f. f \<in> set files \<Longrightarrow> f \<in> outfiles \<and> (\<exists>n. file_size fs (path_append (windows fs) inp f) = Ret n \<and>
    file_size fs (path_append (windows fs) outp f) = Ret n)"
  shows "require_files fs inp outp outfiles files = Ret True"
  using assms
proof (induction files)
  case (Cons f files)
  then have "require_files fs inp outp outfiles files = Ret True" by simp
  with Cons.prems [of f] show ?case by fastforce
qed simp

lemma assertions_hold:
  assumes ready: "sync_ready fs inp outp" and c: "copied_all fs inp outp" and it: "iterates iter"
  shows "\<exists>I U. GetFilesRelative_files fs inp = Ret I \<and> GetFilesRelative_files fs outp = Ret U \<and>
    require_files fs inp outp U (iter I) = Ret True"
proof -
  have wf: "wf_fs fs" and roots: "good_root fs inp" "good_root fs outp" and dn: "denied fs = []"
    using ready by (simp_all add: sync_ready_def)
  let ?I = "rel_name fs ` set (file_names fs inp)" and ?U = "rel_name fs ` set (file_names fs outp)"
  have find: "GetFilesRelative_files fs inp = Ret ?I" "GetFilesRelative_files fs outp = Ret ?U"
    using GetFilesRelative_files_finds wf roots dn by blast+
  have ok: "f \<in> ?U \<and> (\<exists>n. file_size fs (path_append (windows fs) inp f) = Ret n \<and>
    file_size fs (path_append (windows fs) outp f) = Ret n)" if "f \<in> set (iter ?I)" for f
  proof -
    have "f \<in> ?I" using it that by (simp add: iterates_def)
    then obtain ns where ns: "f = rel_name fs ns" "ns \<in> set (file_names fs inp)" by auto
    have valid: "\<forall>n \<in> set ns. valid_name (windows fs) n" using names_valid [OF wf, of ns inp] ns(2) by simp
    obtain t v where i: "ns \<noteq> []" "node_at fs (resolve fs inp @ ns) = Some (File t v)"
      using ns(2) by (auto simp: file_names_iff [OF wf])
    then obtain u where u: "node_at fs (resolve fs outp @ ns) = Some (File u v)"
      using c by (auto simp: copied_all_def is_file_iff same_content_iff)
    have "path_append (windows fs) root f = prefix_of fs root @ rel_name fs ns" if "good_root fs root" for root
      using that ns(1) by (simp add: path_append_def good_root_def prefix_of_def)
    then have "resolve fs (path_append (windows fs) root f) = resolve fs root @ ns" if "good_root fs root" for root
      using that resolve_prefix_of [OF that valid] by simp
    then have "file_size fs (path_append (windows fs) inp f) = Ret (word_of_nat (length v))"
      "file_size fs (path_append (windows fs) outp f) = Ret (word_of_nat (length v))"
      using roots dn i(2) u by (simp_all add: file_size_def size_at_def)
    moreover have "ns \<in> set (file_names fs outp)" using i(1) u by (simp add: file_names_iff [OF wf])
    ultimately show ?thesis using ns(1) by blast
  qed
  have "require_files fs inp outp ?U (iter ?I) = Ret True" by (rule require_files_pass) (rule ok)
  with find show ?thesis by blast
qed

lemma removed_again:
  assumes "checkout fs0 inp outp" and b: "between_runs fs0 inp outp fs"
  shows "\<exists>fs'. remove_all fs outp = Ret fs' \<and> same_nodes fs0 fs'"
proof -
  let ?ro = "resolve fs0 outp"
  have wf0: "wf_fs fs0" and ro: "?ro \<noteq> []" "node_at fs0 ?ro = None" using assms(1) by (simp_all add: checkout_def)
  have out: "same_env fs0 fs" "\<And>q. \<not> prefix ?ro q \<Longrightarrow> node_at fs q = node_at fs0 q" and sr: "sync_ready fs inp outp"
    using b by (simp_all add: between_runs_def same_outside_def)
  have r: "resolve fs = resolve fs0" using out(1) by (rule same_env_resolve)
  have "node_at fs ?ro = Some Dir" "denied fs = []" using sr by (simp_all add: sync_ready_def good_root_def r)
  then obtain fs' where rem: "remove_all fs outp = Ret fs'" "same_env fs fs'"
    and at: "\<And>q. node_at fs' q = (if prefix ?ro q then None else node_at fs q)"
    using remove_all_result [of fs outp ?ro] ro(1) r by auto
  have "node_at fs0 q = None" if "prefix ?ro q" for q
    using that nothing_below [OF wf0 ro(2)] by (auto elim!: prefixE)
  then have "node_at fs' = node_at fs0" using at out(2) by fastforce
  then show ?thesis using rem same_env_trans [OF out(1) rem(2)] by (auto simp: same_nodes_def)
qed

section \<open>All runs\<close>

lemma between_runs_same:
  assumes "same_nodes a b" "between_runs b inp outp fs"
  shows "between_runs a inp outp fs"
proof -
  have "same_env a b" "node_at b = node_at a" using assms(1) by (simp_all add: same_nodes_def)
  then show ?thesis using assms(2) same_env_trans same_env_resolve by (auto simp: between_runs_def same_outside_def)
qed

text \<open>The output directory is there after \<open>Copy\<close> has made it, as if it had been made before.\<close>

lemma Copy_makes_output:
  assumes "\<not> exists_path fs outp" "create_directories fs outp = Ret fs1" "exists_path fs1 outp"
  shows "Copy iter inp outp del ow force move n (new_functions, fs) =
    Copy iter inp outp del ow force move n (new_functions, fs1)"
  using assms by (simp add: Copy_def Copy_prepare_def Let_def)

lemma run_copies:
  assumes c: "checkout fs0 inp outp" and it: "iterates iter" and n: "0 < n"
    and st: "same_nodes fs0 fs \<or> between_runs fs0 inp outp fs"
  shows "\<exists>t fs'. Copy iter inp outp del ow force False n (new_functions, fs) = Ret (t, fs') \<and>
    between_runs fs0 inp outp fs' \<and> copied_all fs' inp outp"
  using st
proof
  assume same: "same_nodes fs0 fs"
  then have ck: "checkout fs inp outp" using c checkout_same by blast
  then obtain fs1 where fs1: "create_directories fs outp = Ret fs1" "same_env fs fs1"
    "\<And>q. node_at fs1 q = (if q = resolve fs outp then Some Dir else node_at fs q)"
    using output_made by blast
  have "\<not> exists_path fs outp" "exists_path fs1 outp"
    using ck fs1(2,3) by (simp_all add: exists_path_def checkout_def same_env_resolve)
  then show ?thesis using copy_mirrors [OF between_runs_same [OF same first_run_ready [OF ck fs1(2,3)]] it n]
      Copy_makes_output [OF _ fs1(1)] by simp
qed (use copy_mirrors it n in blast)

lemma run_passes:
  assumes "checkout fs0 inp outp" "iterates iter" "0 < test_processors c"
    and "same_nodes fs0 fs \<or> between_runs fs0 inp outp fs"
  shows "\<exists>fs'. test_body iter inp outp c fs = Ret (True, fs') \<and>
    (if test_rm c then same_nodes fs0 fs' else between_runs fs0 inp outp fs')"
proof -
  obtain t fs1 where fs1: "Copy iter inp outp (test_delete c) (test_overwrite c) (test_force c) False (test_processors c)
      (new_functions, fs) = Ret (t, fs1)" "between_runs fs0 inp outp fs1" "copied_all fs1 inp outp"
    using run_copies [OF assms] by blast
  moreover have "sync_ready fs1 inp outp" using fs1(2) by (simp add: between_runs_def)
  moreover obtain fs2 where "remove_all fs1 outp = Ret fs2" "same_nodes fs0 fs2"
    using removed_again [OF assms(1) fs1(2)] by blast
  ultimately show ?thesis using assertions_hold [of fs1 inp outp, OF _ _ assms(2)] by (auto simp: test_body_def)
qed

lemma runs_pass:
  assumes "checkout fs0 inp outp" "iterates iter" "\<forall>c \<in> set cs. 0 < test_processors c"
    and "same_nodes fs0 fs \<or> between_runs fs0 inp outp fs"
  shows "\<exists>fs'. test_runs iter inp outp cs fs = Ret (replicate (length cs) True, fs') \<and>
    (cs \<noteq> [] \<and> test_rm (last cs) \<longrightarrow> same_nodes fs0 fs')"
  using assms(3,4)
proof (induction cs arbitrary: fs)
  case (Cons c cs)
  obtain fs1 where fs1: "test_body iter inp outp c fs = Ret (True, fs1)"
    "if test_rm c then same_nodes fs0 fs1 else between_runs fs0 inp outp fs1"
    using run_passes [OF assms(1,2) _ Cons.prems(2)] Cons.prems(1) by auto
  then have "same_nodes fs0 fs1 \<or> between_runs fs0 inp outp fs1" by (auto split: if_splits)
  then obtain fs2 where "test_runs iter inp outp cs fs1 = Ret (replicate (length cs) True, fs2)"
    "cs \<noteq> [] \<and> test_rm (last cs) \<longrightarrow> same_nodes fs0 fs2"
    using Cons.IH Cons.prems(1) by auto
  with fs1 show ?case by auto
qed simp

lemma test_configs_facts:
  "length test_configs = 240" "test_rm (last test_configs)" "\<forall>c \<in> set test_configs. 0 < test_processors c"
proof -
  show "length test_configs = 240" by code_simp
  show "test_rm (last test_configs)" by code_simp
  show "\<forall>c \<in> set test_configs. 0 < test_processors c" by (auto simp: test_configs_def)
qed

section \<open>Properties\<close>


text \<open>A checkout with the test data and the build directory the test runs in.\<close>

definition example_checkout :: fs where
  "example_checkout =
     \<lparr>windows = True, cwd = [''src'', ''build''], clock = FileTime 100,
      nodes =
        [([''src''], Dir), ([''src'', ''build''], Dir), ([''tests''], Dir),
         ([''tests'', ''d''], Dir), ([''tests'', ''d'', ''a''], File (FileTime 5) ''xx''), ([''tests'', ''b''], File (FileTime 1) ''y'')],
      denied = []\<rparr>"

lemma example_checkout_ok: "checkout example_checkout ''../../tests'' ''../../tests_out''"
proof -
  have r: "resolve example_checkout ''../../tests'' = [''tests'']" "resolve example_checkout ''../../tests_out'' = [''tests_out'']"
    by (simp_all add: example_checkout_def path_defs)
  have "wf_fs example_checkout" by (simp add: example_checkout_def wf_fs_def path_defs)
  moreover have "good_root example_checkout ''../../tests''" "short_names example_checkout ''../../tests_out'' ''../../tests''"
    unfolding good_root_def short_names_def r by (simp_all add: example_checkout_def path_defs)
  ultimately show ?thesis unfolding checkout_def r by (simp add: example_checkout_def path_defs)
qed


end
