(* ===== verification/Teardown.thy ===== *)
theory Teardown
  imports SyncEngine
begin

text \<open>
  The destructors of \<open>ts_deque\<close> (\<open>include/Types.h\<close>) and of \<open>Functions\<close> (\<open>src/Functions.cpp\<close>). Their bodies call
  destructors of members by hand; the members are destroyed again after the body, as always. The
  state is the set of the objects whose lifetime has not ended.
\<close>

section \<open>Objects\<close>

text \<open>The members of \<open>Functions\<close> that have a destructor, in the order of their declarations; \<open>Inner m\<close> is the
  \<open>std::deque\<close> of a member that is a \<open>ts_deque\<close>.\<close>

datatype member =
    M_copyQueue | M_deleteQueue | M_createDirsQueue | M_waiterCond | M_waiter | M_inputPrefix | M_outputPrefix | M_threads
  | M_IFilesSet | M_IDirSet | M_OFilesSet | M_ODirSet | M_filesinput | M_dirsinput | M_filesoutput | M_dirsoutput
  | M_dirstmp | M_barrier | M_errors

datatype object = Member member | Inner member

definition member_order :: "member list" where
  "member_order =
     [M_copyQueue, M_deleteQueue, M_createDirsQueue, M_waiterCond, M_waiter, M_inputPrefix, M_outputPrefix, M_threads,
      M_IFilesSet, M_IDirSet, M_OFilesSet, M_ODirSet, M_filesinput, M_dirsinput, M_filesoutput, M_dirsoutput,
      M_dirstmp, M_barrier, M_errors]"

definition is_ts_deque :: "member \<Rightarrow> bool" where
  "is_ts_deque m \<longleftrightarrow> m \<in> {M_copyQueue, M_deleteQueue, M_createDirsQueue, M_IFilesSet, M_errors}"

definition live_objects :: "object set" where
  "live_objects = Member ` set member_order \<union> Inner ` Collect is_ts_deque"

text \<open>
  The call of a destructor ends a lifetime; on an object whose lifetime has ended it is undefined. An
  implementation may do something harmless then: \<open>again\<close> tells on which objects it does.
\<close>

definition destroy :: "(object \<Rightarrow> bool) \<Rightarrow> object \<Rightarrow> object set \<Rightarrow> object set outcome" where
  "destroy again x live = (if x \<in> live then Ret (live - {x}) else if again x then Ret live else Undef)"

section \<open>The destructors\<close>

text \<open>\<open>~ts_deque\<close>: the body destroys \<open>_queue\<close>, and so does the end of the object.\<close>

definition ts_deque_dtor_calls :: "member \<Rightarrow> object list" where
  "ts_deque_dtor_calls m = [Inner m, Inner m, Member m]"

definition member_dtor_calls :: "member \<Rightarrow> object list" where
  "member_dtor_calls m = (if is_ts_deque m then ts_deque_dtor_calls m else [Member m])"

text \<open>The body of \<open>~Functions\<close> behind its loop over the threads: the calls by hand; \<open>clear\<close> ends no lifetime.\<close>

definition body_dtor_calls :: "object list" where
  "body_dtor_calls =
     concat (map member_dtor_calls
       [M_copyQueue, M_deleteQueue, M_createDirsQueue, M_IFilesSet,
        M_filesinput, M_dirsinput, M_filesoutput, M_dirsoutput, M_dirstmp])"

definition Functions_dtor_calls :: "object list" where
  "Functions_dtor_calls = body_dtor_calls @ concat (map member_dtor_calls (rev member_order))"

text \<open>\<open>thread.~thread()\<close> of a joinable thread calls \<open>std::terminate\<close>; \<open>joinable\<close> has one entry per handle.\<close>

definition Functions_dtor :: "(object \<Rightarrow> bool) \<Rightarrow> bool list \<Rightarrow> object set outcome" where
  "Functions_dtor again joinable =
     (if list_ex id joinable then Throw Process_end else ofold (destroy again) Functions_dtor_calls live_objects)"

lemma member_order_all: "m \<in> set member_order"
  by (cases m) (simp_all add: member_order_def)

text \<open>A list of destructor calls is defined when every object in it is alive and named once, or tolerates more.\<close>

lemma ofold_destroy:
  "ofold (destroy again) xs live =
     (if \<forall>x \<in> set xs. again x \<or> (x \<in> live \<and> count_list xs x = 1) then Ret (live - set xs) else Undef)"
proof (induction xs arbitrary: live)
  case (Cons x xs)
  have step: "ofold (destroy again) (x # xs) live =
      (if x \<in> live then ofold (destroy again) xs (live - {x}) else if again x then ofold (destroy again) xs live else Undef)"
    by (simp add: destroy_def)
  have once: "count_list (x # xs) y = 1 \<longleftrightarrow> (if y = x then x \<notin> set xs else count_list xs y = 1)" for y
    by (simp add: count_list_0_iff)
  show ?case
    unfolding step Cons.IH once by (auto simp: insert_Diff_if)
qed simp

text \<open>The objects whose destructor the code calls more than once.\<close>

definition destroyed_again :: "object set" where
  "destroyed_again =
     Inner ` {M_copyQueue, M_deleteQueue, M_createDirsQueue, M_IFilesSet, M_errors} \<union>
     Member ` {M_copyQueue, M_deleteQueue, M_createDirsQueue, M_IFilesSet,
       M_filesinput, M_dirsinput, M_filesoutput, M_dirsoutput, M_dirstmp}"

lemma destroyed_again_iff: "x \<in> set Functions_dtor_calls \<Longrightarrow> count_list Functions_dtor_calls x \<noteq> 1 \<longleftrightarrow> x \<in> destroyed_again"
proof -
  have "list_all (\<lambda>x. count_list Functions_dtor_calls x \<noteq> 1 \<longleftrightarrow> x \<in> destroyed_again) Functions_dtor_calls" by code_simp
  then show "x \<in> set Functions_dtor_calls \<Longrightarrow> ?thesis" by (simp add: list_all_iff)
qed

lemma dtor_calls_live: "set Functions_dtor_calls = live_objects"
proof -
  have "list_all (\<lambda>x. case x of Member m \<Rightarrow> m \<in> set member_order | Inner m \<Rightarrow> is_ts_deque m) Functions_dtor_calls" by code_simp
  then have "x \<in> live_objects" if "x \<in> set Functions_dtor_calls" for x
    using that by (cases x) (auto simp: list_all_iff live_objects_def)
  then have "set Functions_dtor_calls \<subseteq> live_objects" by blast
  moreover have "live_objects \<subseteq> set Functions_dtor_calls"
    using member_order_all by (auto simp: live_objects_def Functions_dtor_calls_def member_dtor_calls_def ts_deque_dtor_calls_def)
  ultimately show ?thesis ..
qed

lemma destroyed_again_calls: "destroyed_again \<subseteq> set Functions_dtor_calls"
  unfolding dtor_calls_live by (auto simp: destroyed_again_def live_objects_def is_ts_deque_def member_order_def)

section \<open>Properties\<close>

text \<open>The end of a \<open>Functions\<close> object: with a worker that was not joined the process ends; otherwise fourteen
  objects are destroyed more than once, which is undefined unless the implementation tolerates it for
  each of them; where it does, every object is gone in the end, each queue of the copy after four calls
  of its destructor.\<close>

theorem Functions_dtor_outcome:
  "Functions_dtor again joinable =
     (if list_ex id joinable then Throw Process_end
      else if destroyed_again \<subseteq> Collect again then Ret {} else Undef) \<and>
   count_list Functions_dtor_calls (Inner M_copyQueue) = 4 \<and> card destroyed_again = 14"
proof -
  have "(\<forall>x \<in> set Functions_dtor_calls. again x \<or> (x \<in> live_objects \<and> count_list Functions_dtor_calls x = 1)) \<longleftrightarrow>
      destroyed_again \<subseteq> Collect again"
    using destroyed_again_iff destroyed_again_calls dtor_calls_live by blast
  moreover have "count_list Functions_dtor_calls (Inner M_copyQueue) = 4" "card destroyed_again = 14"
    by code_simp+
  ultimately show ?thesis by (simp add: Functions_dtor_def ofold_destroy dtor_calls_live)
qed

end
