(* ===== verification/MainProgram.thy ===== *)
theory MainProgram
  imports SyncResult Formatting Reconstitute
begin

text \<open>
  \<open>src/main.cpp\<close>: the helpers on strings, the option loop, the search, the deletion of the given
  paths, and \<open>main\<close>, which dispatches to them and to the class \<open>Functions\<close>. The locale is \<open>C\<close>, as
  the program never sets another, so a wide string has the characters of the narrow one.
  The console output that only reports progress is not modelled; what a run reports at its end is
  the type \<open>report\<close>.
\<close>

section \<open>Strings\<close>

definition tolower :: "char \<Rightarrow> char" where
  "tolower c = (if 65 \<le> (of_char c :: nat) \<and> (of_char c :: nat) \<le> 90 then char_of (of_char c + 32 :: nat) else c)"

definition ToLower :: "string \<Rightarrow> string" where
  "ToLower s = map tolower s"

definition ToLower_wide :: "string \<Rightarrow> string" where
  "ToLower_wide s = map tolower s"

definition c_str :: "string \<Rightarrow> string" where
  "c_str s = takeWhile (\<lambda>c. c \<noteq> CHR 0x00) s"

text \<open>A buffer of \<open>(wcslen + 1) * sizeof(wchar_t)\<close> zeros, filled, and returned unless it differs from \<open>""\<close>.\<close>

definition ConvertToString :: "bool \<Rightarrow> string \<Rightarrow> string option" where
  "ConvertToString win a_in =
     (let input = c_str a_in;
          size = (length input + 1) * (if win then 2 else 4);
          buf = input @ replicate (size - length input) (CHR 0x00)
      in if c_str buf \<noteq> [] then None else Some buf)"

definition ConvertToWideString :: "string \<Rightarrow> string option" where
  "ConvertToWideString a_in = (let len = length (c_str a_in) in if len = 0 then None else Some (take len (c_str a_in)))"

definition isspace :: "char \<Rightarrow> bool" where
  "isspace c \<longleftrightarrow> of_char c \<in> {9, 10, 11, 12, 13, 32 :: nat}"

text \<open>\<open>std::stoi\<close> and the reading of one word by \<open>std::cin >>\<close>.\<close>

definition stoi :: "string \<Rightarrow> int outcome" where
  "stoi s =
     (let s1 = dropWhile isspace s;
          neg = (s1 \<noteq> [] \<and> hd s1 = CHR ''-'');
          s2 = (if s1 \<noteq> [] \<and> hd s1 \<in> {CHR ''-'', CHR ''+''} then tl s1 else s1);
          ds = takeWhile is_digit s2;
          v = (if neg then - int (read_nat ds) else int (read_nat ds))
      in if ds = [] then Throw Invalid_argument
         else if v < - (2 ^ 31) \<or> 2 ^ 31 \<le> v then Throw Out_of_range
         else Ret v)"

definition read_word :: "string \<Rightarrow> string" where
  "read_word s = takeWhile (\<lambda>c. \<not> isspace c) (dropWhile isspace s)"

section \<open>Options\<close>

record options =
  opt_deletewithoutmatch :: bool
  opt_overwriteexisting :: bool
  opt_move :: bool
  opt_remove :: bool
  opt_force :: bool
  opt_processors :: int
  opt_debug :: bool
  opt_search :: bool
  opt_reconstitutesymlinks :: bool
  opt_sinodes :: "string list"

definition default_options :: options where
  "default_options =
     \<lparr>opt_deletewithoutmatch = False, opt_overwriteexisting = False, opt_move = False, opt_remove = False,
      opt_force = False, opt_processors = 1, opt_debug = False, opt_search = False,
      opt_reconstitutesymlinks = False, opt_sinodes = []\<rparr>"

text \<open>One turn of the loop: the first of the patterns that occurs anywhere in the argument decides.\<close>

definition parse_option :: "string \<Rightarrow> options \<Rightarrow> options" where
  "parse_option opt o1 =
     (if contains_sub ''--debug'' opt then o1\<lparr>opt_debug := True\<rparr>
      else if contains_sub ''-reconstitutesymlinks'' opt then o1\<lparr>opt_reconstitutesymlinks := True\<rparr>
      else if contains_sub ''-rm'' opt then o1\<lparr>opt_remove := True\<rparr>
      else if contains_sub ''-d'' opt then o1\<lparr>opt_deletewithoutmatch := True\<rparr>
      else if contains_sub ''-s'' opt then o1\<lparr>opt_search := True\<rparr>
      else if contains_sub ''-f'' opt then o1\<lparr>opt_force := True\<rparr>
      else if contains_sub ''-o'' opt then o1\<lparr>opt_overwriteexisting := True\<rparr>
      else if contains_sub ''-m'' opt then o1\<lparr>opt_move := True\<rparr>
      else (case find_sub ''-p'' opt of
              Some pos \<Rightarrow>
                (case obind (substr opt (pos + 2) (length opt - 2 - pos)) stoi of
                   Ret n \<Rightarrow> o1\<lparr>opt_processors := n\<rparr> | _ \<Rightarrow> o1)
            | None \<Rightarrow> o1\<lparr>opt_sinodes := opt_sinodes o1 @ [opt]\<rparr>))"

definition parse_args :: "string list \<Rightarrow> options" where
  "parse_args argv =
     (let o1 = fold parse_option (tl argv) default_options
      in if opt_force o1 then o1\<lparr>opt_overwriteexisting := True\<rparr> else o1)"

section \<open>Search\<close>

text \<open>An empty name makes \<open>value()\<close> throw; the iterator's constructor may throw before that.\<close>

definition Search :: "fs \<Rightarrow> string \<Rightarrow> string \<Rightarrow> string list outcome" where
  "Search fs path name =
     obind (recursive_entries fs path) (\<lambda>(es, err).
       case ConvertToWideString name of
         None \<Rightarrow> Throw Bad_optional_access
       | Some w \<Rightarrow>
           (let wname = ToLower_wide w
            in Ret (map (\<lambda>(p, n). entry_of fs path p)
                 (filter (\<lambda>(p, n). contains_sub wname (ToLower_wide (filename (windows fs) (entry_of fs path p)))) es))))"

section \<open>The given paths\<close>

text \<open>\<open>std::filesystem::absolute\<close> (on Windows it also normalises, which names the same path).\<close>

definition cwd_string :: "fs \<Rightarrow> string" where
  "cwd_string fs = (if windows fs then join_names True (cwd fs) else CHR ''/'' # join_names False (cwd fs))"

definition absolute_path :: "fs \<Rightarrow> string \<Rightarrow> string" where
  "absolute_path fs s = (if is_absolute (windows fs) s then s else path_append (windows fs) (cwd_string fs) s)"

definition given_files :: "fs \<Rightarrow> string list \<Rightarrow> string list" where
  "given_files fs sinodes =
     map (absolute_path fs) (filter (\<lambda>s. exists_path fs s \<and> \<not> is_directory fs s) sinodes)"

definition given_dirs :: "fs \<Rightarrow> string list \<Rightarrow> string list" where
  "given_dirs fs sinodes =
     map (absolute_path fs) (filter (\<lambda>s. exists_path fs s \<and> is_directory fs s) sinodes)"

text \<open>The deletions, up to the first error, which is printed.\<close>

fun delete_each :: "(fs \<Rightarrow> path \<Rightarrow> errc + fs) \<Rightarrow> string list \<Rightarrow> fs \<Rightarrow> errc option \<times> fs" where
  "delete_each del [] fs = (None, fs)"
| "delete_each del (s # ss) fs =
     (case del fs (resolve fs s) of Inl e \<Rightarrow> (Some e, fs) | Inr fs' \<Rightarrow> delete_each del ss fs')"

definition delete_given :: "string list \<Rightarrow> string list \<Rightarrow> fs \<Rightarrow> errc option \<times> fs" where
  "delete_given rfiles rdirs fs =
     (case delete_each (\<lambda>fs p. map_sum id snd (remove_at fs p)) rfiles fs of
        (Some e, fs1) \<Rightarrow> (Some e, fs1)
      | (None, fs1) \<Rightarrow> delete_each remove_all_at rdirs fs1)"

section \<open>main\<close>

text \<open>
  \<open>Summary\<close> holds the values of the last line: files copied and to copy, bytes copied and to copy,
  the percentage, and the errors. An exception that leaves the copy thread or \<open>main\<close> is the outcome
  \<open>Throw\<close>. \<open>links\<close> are the junctions of the file system.
\<close>

datatype report =
    Usage
  | No_input
  | Found "string list"
  | Aborted
  | Deleted "errc option"
  | Reconstituted "path list"
  | Summary "64 word" "64 word" "64 word" "64 word" int "(string \<times> errc) list"

definition main_copy ::
  "(string set \<Rightarrow> string list) \<Rightarrow> options \<Rightarrow> string \<Rightarrow> string \<Rightarrow> fs \<Rightarrow> (int \<times> report \<times> fs) outcome" where
  "main_copy iter o1 inp out fs =
     obind (Copy iter inp out (opt_deletewithoutmatch o1) (opt_overwriteexisting o1) (opt_force o1) (opt_move o1)
              (opt_processors o1) (new_functions, fs)) (\<lambda>(t, fs').
     obind (percent (bytesCopied t) (bytesToCopy t)) (\<lambda>p.
       Ret (0, Summary (filesCopied t) (filesToCopy t) (bytesCopied t) (bytesToCopy t) p (payload (errors t)), fs')))"

definition main_run ::
  "(string set \<Rightarrow> string list) \<Rightarrow> path list \<Rightarrow> string list \<Rightarrow> string \<Rightarrow> fs \<Rightarrow> (int \<times> report \<times> fs) outcome" where
  "main_run iter links argv stdin fs =
     (if length argv < 3 then Ret (1, Usage, fs)
      else
        let o1 = parse_args argv;
            sInput = argv ! (length argv - 2);
            rfiles = given_files fs (opt_sinodes o1);
            rdirs = given_dirs fs (opt_sinodes o1)
        in if opt_search o1 then
             (if \<not> exists_path fs sInput then Ret (1, No_input, fs)
              else obind (Search fs sInput (argv ! (length argv - 1))) (\<lambda>r. Ret (0, Found r, fs)))
           else if opt_remove o1 then
             (if ToLower (read_word stdin) \<noteq> ''y'' then Ret (0, Aborted, fs)
              else case delete_given rfiles rdirs fs of (e, fs') \<Rightarrow> Ret (0, Deleted e, fs'))
           else if opt_reconstitutesymlinks o1 then
             obind (ReconstitueSymlinks iter rdirs (fs, links)) (\<lambda>(fs', links'). Ret (0, Reconstituted links', fs'))
           else if \<not> exists_path fs sInput then Ret (1, No_input, fs)
           else main_copy iter o1 sInput (argv ! (length argv - 1)) fs)"


section \<open>Reading options\<close>

lemma no_pattern: "c \<in> set pat \<Longrightarrow> c \<notin> set s \<Longrightarrow> \<not> contains_sub pat s"
  by (auto simp: contains_sub_iff dest!: set_mono_sublist)

text \<open>An argument of only \<open>-\<close>, \<open>p\<close> and digits matches none of the other options.\<close>

lemma only_processors:
  assumes "set s \<subseteq> insert (CHR ''-'') (insert (CHR ''p'') {c. is_digit c})"
  shows "\<not> contains_sub ''--debug'' s" "\<not> contains_sub ''-reconstitutesymlinks'' s" "\<not> contains_sub ''-rm'' s"
    "\<not> contains_sub ''-d'' s" "\<not> contains_sub ''-s'' s" "\<not> contains_sub ''-f'' s" "\<not> contains_sub ''-o'' s"
    "\<not> contains_sub ''-m'' s"
proof -
  have out: "c \<notin> set s" if "c \<in> {CHR ''d'', CHR ''r'', CHR ''s'', CHR ''f'', CHR ''o'', CHR ''m''}" for c
    using assms that by (auto simp: is_digit_def)
  show "\<not> contains_sub ''--debug'' s" "\<not> contains_sub ''-reconstitutesymlinks'' s" "\<not> contains_sub ''-rm'' s"
    "\<not> contains_sub ''-d'' s" "\<not> contains_sub ''-s'' s" "\<not> contains_sub ''-f'' s" "\<not> contains_sub ''-o'' s"
    "\<not> contains_sub ''-m'' s"
    using out no_pattern [of "CHR ''d''" _ s] no_pattern [of "CHR ''r''" _ s] no_pattern [of "CHR ''s''" _ s]
      no_pattern [of "CHR ''f''" _ s] no_pattern [of "CHR ''o''" _ s] no_pattern [of "CHR ''m''" _ s] by simp_all
qed

lemma digit_not_space: "is_digit c \<Longrightarrow> \<not> isspace c" "is_digit c \<Longrightarrow> c \<notin> {CHR ''-'', CHR ''+''}"
  by (auto simp: is_digit_def isspace_def)

lemma takeWhile_digits: "takeWhile is_digit (show_nat n) = show_nat n"
  using show_nat_digits by (simp add: takeWhile_eq_all_conv)

lemma hd_show_nat: "is_digit (hd (show_nat n))"
  using show_nat_digits [of n] by (cases "show_nat n") (auto dest: arg_cong [where f = "\<lambda>x. x = []"])

lemma stoi_show_int: "stoi (show_int n) = (if - (2 ^ 31) \<le> n \<and> n < 2 ^ 31 then Ret n else Throw Out_of_range)"
proof (cases "n < 0")
  case True
  have "\<not> isspace (CHR ''-'')" by (simp add: isspace_def)
  then show ?thesis using True by (simp add: stoi_def show_int_def takeWhile_digits Let_def)
next
  case False
  let ?s = "show_nat (nat n)"
  have h: "\<not> isspace (hd ?s)" "hd ?s \<noteq> CHR ''-''" "hd ?s \<noteq> CHR ''+''"
    using digit_not_space [OF hd_show_nat] by auto
  then have "dropWhile isspace ?s = ?s" by (cases ?s) simp_all
  then show ?thesis using False h by (simp add: stoi_def show_int_def takeWhile_digits Let_def)
qed

lemma show_int_chars: "set (show_int n) \<subseteq> insert (CHR ''-'') {c. is_digit c}"
  using show_nat_digits by (auto simp: show_int_def)

lemma parse_processors:
  "parse_option (''-p'' @ show_int n) o1 =
    (if - (2 ^ 31) \<le> n \<and> n < 2 ^ 31 then o1\<lparr>opt_processors := n\<rparr> else o1)"
proof -
  let ?s = "''-p'' @ show_int n"
  have "set ?s \<subseteq> insert (CHR ''-'') (insert (CHR ''p'') {c. is_digit c})" using show_int_chars [of n] by auto
  note others = only_processors [OF this]
  have "find_sub ''-p'' ?s = Some 0" by simp
  moreover have "substr ?s (0 + 2) (length ?s - 2 - 0) = Ret (show_int n)" by (simp add: substr_def)
  ultimately show ?thesis using others stoi_show_int [of n] by (simp add: parse_option_def)
qed

text \<open>An argument without a dash is a path.\<close>

lemma parse_plain: "CHR ''-'' \<notin> set s \<Longrightarrow> parse_option s o1 = o1\<lparr>opt_sinodes := opt_sinodes o1 @ [s]\<rparr>"
  using no_pattern [of "CHR ''-''" _ s] by (simp add: parse_option_def contains_sub_def)

lemma parse_flags:
  "parse_option ''-f'' o1 = o1\<lparr>opt_force := True\<rparr>" "parse_option ''-o'' o1 = o1\<lparr>opt_overwriteexisting := True\<rparr>"
  "parse_option ''-m'' o1 = o1\<lparr>opt_move := True\<rparr>" "parse_option ''-rm'' o1 = o1\<lparr>opt_remove := True\<rparr>"
  "parse_option ''-s'' o1 = o1\<lparr>opt_search := True\<rparr>" "parse_option ''-d'' o1 = o1\<lparr>opt_deletewithoutmatch := True\<rparr>"
  by (simp_all add: parse_option_def contains_sub_def)

lemma parse_with_d:
  "sublist ''-d'' s \<Longrightarrow> \<not> sublist ''--debug'' s \<Longrightarrow> \<not> sublist ''-reconstitutesymlinks'' s \<Longrightarrow> \<not> sublist ''-rm'' s \<Longrightarrow>
   parse_option s o1 = o1\<lparr>opt_deletewithoutmatch := True\<rparr>"
  by (simp add: parse_option_def contains_sub_iff)

section \<open>Lower case\<close>

lemma tolower_idem: "tolower (tolower c) = tolower c"
proof (cases "65 \<le> (of_char c :: nat) \<and> (of_char c :: nat) \<le> 90")
  case True
  then have "of_char (char_of (of_char c + 32 :: nat) :: char) = (of_char c + 32 :: nat)" by (simp add: of_char_of)
  then show ?thesis using True by (simp add: tolower_def)
qed (auto simp: tolower_def)

lemma ToLower_idem: "ToLower (ToLower s) = ToLower s" "ToLower_wide (ToLower s) = ToLower_wide s"
  by (simp_all add: ToLower_def ToLower_wide_def tolower_idem)

lemma tolower_zero: "tolower c = CHR 0x00 \<longleftrightarrow> c = CHR 0x00"
proof (cases "65 \<le> (of_char c :: nat) \<and> (of_char c :: nat) \<le> 90")
  case True
  then have "of_char (tolower c) = (of_char c + 32 :: nat)" by (simp add: tolower_def of_char_of)
  moreover have "of_char (CHR 0x00) = (0 :: nat)" by simp
  ultimately have "tolower c \<noteq> CHR 0x00" "c \<noteq> CHR 0x00" using True by (metis add_is_0 zero_neq_numeral, metis not_numeral_le_zero)
  then show ?thesis by simp
qed (auto simp: tolower_def)


lemma c_str_ToLower: "c_str (ToLower s) = ToLower (c_str s)"
  by (induction s) (simp_all add: c_str_def ToLower_def tolower_zero)

section \<open>Searching\<close>

lemma last_entry:
  assumes "wf_fs fs" "good_root fs root" "(p, n) \<in> set (nodes fs)" "strict_prefix (resolve fs root) p"
  shows "filename (windows fs) (entry_of fs root p) = last p"
proof -
  let ?ns = "drop (length (resolve fs root)) p"
  have ns: "?ns \<in> set (names_below fs (resolve fs root) (n = Dir))" using assms(3,4) by (force simp: names_below_def)
  have "last p = last ?ns" using strict_prefix_parts [OF assms(4)] by auto
  then show ?thesis
    using filename_below [OF names_below_valid(2,1) [OF assms(1) ns], of root] entry_of_below [OF assms] by simp
qed

section \<open>The current directory\<close>

definition good_cwd :: "fs \<Rightarrow> bool" where
  "good_cwd fs \<longleftrightarrow> list_all (valid_name (windows fs)) (cwd fs) \<and> is_absolute (windows fs) (cwd_string fs)"

lemma comps_cwd: "good_cwd fs \<Longrightarrow> comps (windows fs) (cwd_string fs) = cwd fs"
proof -
  assume "good_cwd fs"
  then have v: "\<forall>n \<in> set (cwd fs). valid_name (windows fs) n" by (simp add: good_cwd_def list_all_iff)
  show ?thesis
  proof (cases "windows fs")
    case True
    then show ?thesis using v comps_join [of "cwd fs" True] by (simp add: cwd_string_def)
  next
    case False
    have "comps False ([] @ CHR ''/'' # join_names False (cwd fs)) = cwd fs"
      using v False comps_join [of "cwd fs" False] by (subst comps_sep) (simp_all add: is_sep_def comps_def)
    then show ?thesis using False by (simp add: cwd_string_def)
  qed
qed

lemma resolve_absolute: "good_cwd fs \<Longrightarrow> resolve fs (absolute_path fs s) = resolve fs s"
proof (cases "is_absolute (windows fs) s")
  case False
  assume g: "good_cwd fs"
  let ?w = "windows fs" and ?c = "cwd_string fs"
  have abs: "is_absolute ?w ?c" using g by (simp add: good_cwd_def)
  then have ne: "?c \<noteq> []" by (auto simp: is_absolute_def)
  have abs': "is_absolute ?w (?c @ x)" for x
    using abs by (cases ?c; cases "tl ?c") (auto simp: is_absolute_def)
  have v: "foldl walk [] (cwd fs) = cwd fs"
    using g foldl_walk [of "cwd fs" ?w "[]"] by (simp add: good_cwd_def list_all_iff)
  have "comps ?w (path_append ?w ?c s) = comps ?w ?c @ comps ?w s"
  proof (cases "is_sep ?w (last ?c)")
    case True
    then have "comps ?w (butlast ?c @ last ?c # x) = comps ?w (butlast ?c) @ comps ?w x" for x by (rule comps_sep)
    moreover have "butlast ?c @ last ?c # x = ?c @ x" for x
      using append_butlast_last_id [OF ne] by (metis append.assoc append_Cons append_Nil)
    ultimately have "comps ?w (?c @ x) = comps ?w (butlast ?c) @ comps ?w x" for x by metis
    from this [of s] this [of "[]"] show ?thesis using True ne by (simp add: path_append_def comps_def)
  next
    case False
    then show ?thesis using ne by (simp add: path_append_def comps_sep)
  qed
  moreover have "is_absolute ?w (path_append ?w ?c s)" using abs' by (simp add: path_append_def)
  ultimately show ?thesis using False comps_cwd [OF g] v
    by (simp add: absolute_path_def resolve_def)
qed (simp add: absolute_path_def)

lemma deletes_tree:
  assumes "wf_fs fs" and "denied fs = []" and "good_cwd fs" and "resolve fs x \<noteq> []"
  shows "\<exists>fs'. delete_given (given_files fs [x]) (given_dirs fs [x]) fs = (None, fs') \<and>
    (\<forall>q. node_at fs' q = (if prefix (resolve fs x) q then None else node_at fs q))"
proof (cases "node_at fs (resolve fs x)")
  case None
  have "node_at fs q = None" if "prefix (resolve fs x) q" for q
  proof (rule ccontr)
    assume q: "node_at fs q \<noteq> None"
    then have "strict_prefix (resolve fs x) q" using that None by (auto simp: strict_prefix_def)
    then show False using wf_parent [OF assms(1) q] None by simp
  qed
  then show ?thesis using None
    by (auto simp: delete_given_def given_files_def given_dirs_def exists_path_def)
next
  case (Some n)
  show ?thesis
  proof (cases n)
    case Dir
    have k: "keyed fs" using assms(1) by (auto simp: wf_fs_def keyed_def)
    have "delete_given (given_files fs [x]) (given_dirs fs [x]) fs =
        (None, fs\<lparr>nodes := filter (\<lambda>(q, n). \<not> prefix (resolve fs x) q) (nodes fs)\<rparr>)"
      using Some Dir assms(2,4)
      by (simp add: delete_given_def given_files_def given_dirs_def exists_path_def is_directory_def
          resolve_absolute [OF assms(3)] remove_all_at_def)
    then show ?thesis using removed_link(2) [OF k assms(4)] by auto
  next
    case (File t c)
    have "delete_given (given_files fs [x]) (given_dirs fs [x]) fs = (None, del_node fs (resolve fs x))"
      using Some File assms(2)
      by (simp add: delete_given_def given_files_def given_dirs_def exists_path_def is_directory_def
          resolve_absolute [OF assms(3)] remove_at_def)
    moreover have "node_at fs q = None" if "prefix (resolve fs x) q" "q \<noteq> (resolve fs x)" for q
      using wf_parent [OF assms(1), of q "resolve fs x"] that Some File by (cases "node_at fs q") (auto simp: strict_prefix_def)
    ultimately show ?thesis using assms(4) by auto
  qed
qed

section \<open>Properties\<close>

text \<open>C21: \<open>-p<NUM>\<close> sets the number of processors to the printed number when it fits an \<open>int\<close>, and is
  ignored otherwise.\<close>

theorem processors_roundtrip:
  "parse_option (''-p'' @ show_int n) o1 =
    (if - (2 ^ 31) \<le> n \<and> n < 2 ^ 31 then o1\<lparr>opt_processors := n\<rparr> else o1)"
  by (rule parse_processors)


text \<open>Options are looked for anywhere in an argument, so an input path that contains \<open>-d\<close> turns on the
  deletion of unmatched directories and files, although no option was given.\<close>

theorem main_path_with_dash_d:
  assumes "sublist ''-d'' inp" and "\<not> sublist ''--debug'' inp" and "\<not> sublist ''-reconstitutesymlinks'' inp"
    and "\<not> sublist ''-rm'' inp" and "CHR ''-'' \<notin> set out" and "exists_path fs inp"
  shows "main_run iter links [prog, inp, out] stdin fs =
    main_copy iter (default_options\<lparr>opt_deletewithoutmatch := True, opt_sinodes := [out]\<rparr>) inp out fs"
  using parse_with_d [OF assms(1-4)] parse_plain [OF assms(5)] assms(6)
  by (simp add: main_run_def parse_args_def default_options_def Let_def)


text \<open>\<open>Search\<close> finds exactly the entries whose file name contains the given name, whatever the case of
  either, and reads both names in lower case.\<close>

theorem Search_finds:
  assumes "wf_fs fs" and "good_root fs root" and "denied fs = []" and "c_str name \<noteq> []"
  shows "Search fs root name = Search fs root (ToLower name) \<and>
    (\<exists>r. Search fs root name = Ret r \<and> set r = entry_of fs root ` {p. strict_prefix (resolve fs root) p \<and>
      node_at fs p \<noteq> None \<and> sublist (ToLower (c_str name)) (ToLower (last p))})"
proof -
  let ?r = "resolve fs root" and ?w = "ToLower (c_str name)"
  let ?es = "filter (\<lambda>(p, n). strict_prefix ?r p) (nodes fs)"
  let ?pick = "filter (\<lambda>(p, n). contains_sub ?w (ToLower_wide (filename (windows fs) (entry_of fs root p)))) ?es"
  have dir: "node_at fs ?r = Some Dir" using assms(2) by (simp add: good_root_def)
  have wide: "ConvertToWideString name = Some (c_str name)" "ConvertToWideString (ToLower name) = Some ?w"
    using assms(4) by (simp_all add: ConvertToWideString_def c_str_ToLower) (simp_all add: ToLower_def)
  have low: "ToLower_wide (c_str name) = ?w" "ToLower_wide ?w = ?w" by (simp_all add: ToLower_wide_def ToLower_def tolower_idem)
  have run: "Search fs root x = Ret (map (\<lambda>(p, n). entry_of fs root p) ?pick)" if "x \<in> {name, ToLower name}" for x
    using that dir assms(3) wide low
    by (auto simp: Search_def recursive_entries_def scan_all Let_def)
  have pick: "(p, n) \<in> set ?pick \<longleftrightarrow> strict_prefix ?r p \<and> node_at fs p = Some n \<and> sublist ?w (ToLower (last p))" for p n
  proof (cases "(p, n) \<in> set (nodes fs) \<and> strict_prefix ?r p")
    case True
    then have "filename (windows fs) (entry_of fs root p) = last p" by (simp add: last_entry [OF assms(1,2), of p n])
    moreover have "node_at fs p = Some n" using True node_at_map_of [OF assms(1)] by simp
    ultimately show ?thesis using True by (simp add: contains_sub_iff ToLower_wide_def ToLower_def)
  next
    case False
    then show ?thesis using node_at_map_of [OF assms(1), of p n] by (auto simp: strict_prefix_def)
  qed
  have "set (map (\<lambda>(p, n). entry_of fs root p) ?pick) = entry_of fs root ` {p. strict_prefix ?r p \<and>
      node_at fs p \<noteq> None \<and> sublist ?w (ToLower (last p))}"
    unfolding set_map set_eq_iff image_iff Bex_def split_paired_Ex case_prod_conv pick by auto
  then show ?thesis using run by auto
qed

text \<open>\<open>ConvertToString\<close> fails on every text, because its final test is inverted; on the empty text it
  returns one wide character's worth of zeros.\<close>

theorem ConvertToString_fails:
  "ConvertToString win s =
    (if c_str s = [] then Some (replicate (if win then 2 else 4) (CHR 0x00)) else None)"
proof (cases "c_str s = []")
  case False
  then obtain c r where c: "c_str s = c # r" by (cases "c_str s") auto
  then have "c \<noteq> CHR 0x00" unfolding c_str_def by (metis (mono_tags, lifting) list.set_intros(1) set_takeWhileD)
  then show ?thesis using c by (simp add: ConvertToString_def Let_def) (simp add: c_str_def)
qed (simp_all add: ConvertToString_def Let_def, simp_all add: c_str_def takeWhile_eq_Nil_iff)


section \<open>Witnesses\<close>


theorem main_path_with_dash_d_witness:
  "main_run sorted_list_of_set [] [''SyncFiles'', ''/my-data'', ''/out''] []
      (set_node example_fs [''my-data''] Dir) =
    main_copy sorted_list_of_set (default_options\<lparr>opt_deletewithoutmatch := True, opt_sinodes := [''/out'']\<rparr>)
      ''/my-data'' ''/out'' (set_node example_fs [''my-data''] Dir)"
proof (rule main_path_with_dash_d)
  have c: "contains_sub ''-d'' ''/my-data''" "\<not> contains_sub ''--debug'' ''/my-data''"
    "\<not> contains_sub ''-reconstitutesymlinks'' ''/my-data''" "\<not> contains_sub ''-rm'' ''/my-data''"
    by (simp_all add: contains_sub_def)
  then show "sublist ''-d'' ''/my-data''" "\<not> sublist ''--debug'' ''/my-data''"
    "\<not> sublist ''-reconstitutesymlinks'' ''/my-data''" "\<not> sublist ''-rm'' ''/my-data''"
    by (simp_all add: contains_sub_iff)
  show "exists_path (set_node example_fs [''my-data''] Dir) ''/my-data''"
    by (simp add: exists_path_def) (simp add: example_fs_def path_defs)
qed simp


theorem Search_finds_witness:
  "Search example_fs ''/in'' ''A'' = Search example_fs ''/in'' (ToLower ''A'') \<and>
    (\<exists>r. Search example_fs ''/in'' ''A'' = Ret r \<and> set r = entry_of example_fs ''/in'' ` {p. strict_prefix [''in''] p \<and>
      node_at example_fs p \<noteq> None \<and> sublist (ToLower (c_str ''A'')) (ToLower (last p))})"
proof -
  have "wf_fs example_fs" "good_root example_fs ''/in''" "denied example_fs = []"
    using example_ready by (simp_all add: sync_ready_def)
  moreover have "c_str ''A'' \<noteq> []" by (simp add: c_str_def)
  ultimately show ?thesis using Search_finds [of example_fs "''/in''" "''A''"] unfolding example_fields by blast
qed

end
