(* ===== verification/OptContainers.thy ===== *)
theory OptContainers
  imports TsDeque
begin

text \<open>
  \<open>String\<close>, \<open>Vector\<close> and \<open>Deque\<close> of \<open>include/Types.h\<close>: a pointer to a standard container that may
  be null, behind a spin lock. The pointer is an option, an object is a \<open>locked\<close> option. Operations
  on two objects take the objects' addresses in a store, because both may be the same object; they
  take the two locks in the order of the code, their own first. References and iterators are
  positions, as in \<open>TsDeque\<close>. \<open>Deque::data\<close> and \<open>Deque::reserve\<close> are not modelled: they call member
  functions that \<open>std::deque\<close> does not have, and do not compile once used.
\<close>

type_synonym 'a box = "'a list option locked"

type_synonym 'a box_store = "nat \<Rightarrow> 'a box"

definition new_box :: "'a list option \<Rightarrow> 'a box" where
  "new_box p = \<lparr>flag = False, payload = p\<rparr>"

text \<open>\<open>SpinlockA guard(_lock); SpinlockA guardO(other._lock); ...\<close>: the guards go in reverse order.\<close>

definition with_both :: "nat \<Rightarrow> nat \<Rightarrow> ('a box_store \<Rightarrow> 'r \<times> 'a box_store) \<Rightarrow> 'a box_store \<Rightarrow> ('r \<times> 'a box_store) outcome" where
  "with_both self other body st =
     obind (SpinlockA_ctor (st self)) (\<lambda>s1.
       let st1 = st(self := s1)
       in obind (SpinlockA_ctor (st1 other)) (\<lambda>o1.
            let (r, st2) = body (st1(other := o1));
                st3 = st2(other := SpinlockA_dtor (st2 other))
            in Ret (r, st3(self := SpinlockA_dtor (st3 self)))))"

definition put :: "nat \<Rightarrow> 'a list option \<Rightarrow> 'a box_store \<Rightarrow> 'a box_store" where
  "put a p st = st(a := (st a)\<lparr>payload := p\<rparr>)"

lemma with_both_result:
  "with_both self other body st =
     (if self = other \<or> flag (st self) \<or> flag (st other) then Diverge
      else let (r, st2) = body (st(self := (st self)\<lparr>flag := True\<rparr>, other := (st other)\<lparr>flag := True\<rparr>));
               st3 = st2(other := (st2 other)\<lparr>flag := False\<rparr>)
           in Ret (r, st3(self := (st3 self)\<lparr>flag := False\<rparr>)))"
  by (cases "flag (st self)"; cases "flag (st other)")
    (auto simp: with_both_def SpinlockA_ctor_def SpinlockA_dtor_def spin_free spin_taken clear_flag_def Let_def)

section \<open>String\<close>

definition String_lock :: "char box \<Rightarrow> char box outcome" where
  "String_lock d = spin d"

definition String_unlock :: "char box \<Rightarrow> char box" where
  "String_unlock d = clear_flag d"

definition String_ctor :: "char box" where
  "String_ctor = new_box None"

definition String_ctor_str :: "string \<Rightarrow> char box" where
  "String_ctor_str str = new_box (Some str)"

definition String_ctor_move :: "string \<Rightarrow> char box" where
  "String_ctor_move str = new_box (Some str)"

text \<open>A C string ends at its first zero character.\<close>

definition String_ctor_cstr :: "string \<Rightarrow> char box" where
  "String_ctor_cstr str = new_box (Some (takeWhile (\<lambda>c. c \<noteq> CHR 0x00) str))"

definition String_ctor_fill :: "nat \<Rightarrow> char \<Rightarrow> char box" where
  "String_ctor_fill count ch = new_box (Some (replicate count ch))"

definition String_assign :: "nat \<Rightarrow> nat \<Rightarrow> char box_store \<Rightarrow> (nat \<times> char box_store) outcome" where
  "String_assign self other =
     with_both self other (\<lambda>st.
       if self = other then (self, st)
       else let st1 = (if payload (st self) \<noteq> None then put self None st else st)
            in (self, if payload (st1 other) \<noteq> None then put self (payload (st1 other)) st1 else st1))"

definition String_move_assign :: "nat \<Rightarrow> nat \<Rightarrow> char box_store \<Rightarrow> (nat \<times> char box_store) outcome" where
  "String_move_assign self other =
     with_both self other (\<lambda>st.
       if self = other then (self, st)
       else (self, put other None (put self (payload (st other)) st)))"

definition String_dtor :: "char box \<Rightarrow> unit outcome \<times> char box" where
  "String_dtor = guarded (\<lambda>_. (Ret (), None))"

definition String_reset :: "char box \<Rightarrow> unit outcome \<times> char box" where
  "String_reset = guarded (\<lambda>_. (Ret (), None))"

definition String_size :: "char box \<Rightarrow> nat outcome \<times> char box" where
  "String_size = guarded (\<lambda>b. (Ret (case b of Some s \<Rightarrow> length s | None \<Rightarrow> 0), b))"

definition String_c_str :: "char box \<Rightarrow> string outcome \<times> char box" where
  "String_c_str = guarded (\<lambda>b. (Ret (case b of Some s \<Rightarrow> takeWhile (\<lambda>c. c \<noteq> CHR 0x00) s | None \<Rightarrow> []), b))"

definition String_empty :: "char box \<Rightarrow> bool outcome \<times> char box" where
  "String_empty = guarded (\<lambda>b. (Ret (case b of Some s \<Rightarrow> s = [] | None \<Rightarrow> True), b))"

definition String_append :: "string \<Rightarrow> char box \<Rightarrow> unit outcome \<times> char box" where
  "String_append rhs = guarded (\<lambda>b. (Ret (), Some (case b of Some s \<Rightarrow> s @ rhs | None \<Rightarrow> rhs)))"

definition String_append_const :: "string \<Rightarrow> char box \<Rightarrow> unit outcome \<times> char box" where
  "String_append_const rhs = guarded (\<lambda>b. (Ret (), Some (case b of Some s \<Rightarrow> s @ rhs | None \<Rightarrow> rhs)))"

definition String_append_String :: "nat \<Rightarrow> nat \<Rightarrow> char box_store \<Rightarrow> (nat \<times> char box_store) outcome" where
  "String_append_String self rhs =
     with_both self rhs (\<lambda>st. (self,
       case (payload (st self), payload (st rhs)) of
         (Some s, Some r) \<Rightarrow> put self (Some (s @ r)) st
       | (Some s, None) \<Rightarrow> st
       | (None, Some r) \<Rightarrow> put self (Some r) st
       | (None, None) \<Rightarrow> st))"

definition String_less :: "nat \<Rightarrow> nat \<Rightarrow> char box_store \<Rightarrow> (bool \<times> char box_store) outcome" where
  "String_less self other =
     with_both self other (\<lambda>st.
       (case (payload (st self), payload (st other)) of
          (Some a, Some b) \<Rightarrow> a < b
        | (Some a, None) \<Rightarrow> True
        | (None, Some b) \<Rightarrow> False
        | (None, None) \<Rightarrow> False, st))"

definition String_greater :: "nat \<Rightarrow> nat \<Rightarrow> char box_store \<Rightarrow> (bool \<times> char box_store) outcome" where
  "String_greater self rhs st = String_less rhs self st"

definition String_le :: "nat \<Rightarrow> nat \<Rightarrow> char box_store \<Rightarrow> (bool \<times> char box_store) outcome" where
  "String_le self rhs st = map_outcome (apfst Not) (String_greater self rhs st)"

definition String_ge :: "nat \<Rightarrow> nat \<Rightarrow> char box_store \<Rightarrow> (bool \<times> char box_store) outcome" where
  "String_ge self rhs st = map_outcome (apfst Not) (String_less self rhs st)"

definition String_eq :: "nat \<Rightarrow> nat \<Rightarrow> char box_store \<Rightarrow> (bool \<times> char box_store) outcome" where
  "String_eq self rhs =
     with_both self rhs (\<lambda>st.
       (case (payload (st self), payload (st rhs)) of (Some a, Some b) \<Rightarrow> a = b | _ \<Rightarrow> False, st))"

definition String_neq :: "nat \<Rightarrow> nat \<Rightarrow> char box_store \<Rightarrow> (bool \<times> char box_store) outcome" where
  "String_neq self rhs st = map_outcome (apfst Not) (String_eq self rhs st)"

text \<open>The position one past the last character is valid: it is the terminating zero.\<close>

definition String_index :: "nat \<Rightarrow> char box \<Rightarrow> reference outcome \<times> char box" where
  "String_index idx = guarded (\<lambda>b.
     (case b of
        Some s \<Rightarrow> if idx \<le> length s then Ret (Elem idx) else Undef
      | None \<Rightarrow> Throw Out_of_range, b))"

definition String_to_string :: "char box \<Rightarrow> string outcome \<times> char box" where
  "String_to_string = guarded (\<lambda>b. (Ret (case b of Some s \<Rightarrow> s | None \<Rightarrow> []), b))"

section \<open>Vector\<close>

definition Vector_lock :: "'a box \<Rightarrow> 'a box outcome" where
  "Vector_lock d = spin d"

definition Vector_unlock :: "'a box \<Rightarrow> 'a box" where
  "Vector_unlock d = clear_flag d"

definition Vector_ctor :: "'a box" where
  "Vector_ctor = new_box None"

definition Vector_ctor_copy :: "'a list \<Rightarrow> 'a box" where
  "Vector_ctor_copy xs = new_box (Some xs)"

definition Vector_ctor_move :: "'a list \<Rightarrow> 'a box" where
  "Vector_ctor_move xs = new_box (Some xs)"

definition Vector_ctor_fill :: "(char \<Rightarrow> 'a) \<Rightarrow> nat \<Rightarrow> char \<Rightarrow> 'a box" where
  "Vector_ctor_fill conv count ch = new_box (Some (replicate count (conv ch)))"

definition Vector_assign :: "nat \<Rightarrow> nat \<Rightarrow> 'a box_store \<Rightarrow> (nat \<times> 'a box_store) outcome" where
  "Vector_assign self other =
     with_both self other (\<lambda>st.
       if self = other then (self, st)
       else let st1 = (if payload (st self) \<noteq> None then put self None st else st)
            in (self, if payload (st1 other) \<noteq> None then put self (payload (st1 other)) st1 else st1))"

definition Vector_move_assign :: "nat \<Rightarrow> nat \<Rightarrow> 'a box_store \<Rightarrow> (nat \<times> 'a box_store) outcome" where
  "Vector_move_assign self other =
     with_both self other (\<lambda>st.
       if self = other then (self, st)
       else (self, put other None (put self (payload (st other)) st)))"

definition Vector_dtor :: "'a box \<Rightarrow> unit outcome \<times> 'a box" where
  "Vector_dtor = guarded (\<lambda>_. (Ret (), None))"

definition Vector_reset :: "'a box \<Rightarrow> unit outcome \<times> 'a box" where
  "Vector_reset = guarded (\<lambda>_. (Ret (), None))"

definition Vector_size :: "'a box \<Rightarrow> nat outcome \<times> 'a box" where
  "Vector_size = guarded (\<lambda>b. (Ret (case b of Some v \<Rightarrow> length v | None \<Rightarrow> 0), b))"

text \<open>The null pointer is \<open>None\<close>; a pointer to the elements is the position 0.\<close>

definition Vector_data :: "'a box \<Rightarrow> nat option outcome \<times> 'a box" where
  "Vector_data = guarded (\<lambda>b. (Ret (case b of Some v \<Rightarrow> Some 0 | None \<Rightarrow> None), b))"

definition Vector_empty :: "'a box \<Rightarrow> bool outcome \<times> 'a box" where
  "Vector_empty = guarded (\<lambda>b. (Ret (case b of Some v \<Rightarrow> v = [] | None \<Rightarrow> True), b))"

definition Vector_clear :: "'a box \<Rightarrow> unit outcome \<times> 'a box" where
  "Vector_clear = guarded (\<lambda>b. (Ret (), case b of Some v \<Rightarrow> None | None \<Rightarrow> None))"

definition Vector_push_back :: "'a \<Rightarrow> 'a box \<Rightarrow> unit outcome \<times> 'a box" where
  "Vector_push_back x = guarded (\<lambda>b. (Ret (), Some (case b of Some v \<Rightarrow> v @ [x] | None \<Rightarrow> [] @ [x])))"

definition Vector_push_back_move :: "'a \<Rightarrow> 'a box \<Rightarrow> unit outcome \<times> 'a box" where
  "Vector_push_back_move x = guarded (\<lambda>b. (Ret (), Some (case b of Some v \<Rightarrow> v @ [x] | None \<Rightarrow> [] @ [x])))"

definition Vector_begin :: "'a box \<Rightarrow> nat outcome \<times> 'a box" where
  "Vector_begin = guarded (\<lambda>b. (Ret 0, case b of Some v \<Rightarrow> Some v | None \<Rightarrow> Some []))"

definition Vector_end :: "'a box \<Rightarrow> nat outcome \<times> 'a box" where
  "Vector_end = guarded (\<lambda>b. (case b of Some v \<Rightarrow> (Ret (length v), Some v) | None \<Rightarrow> (Ret 0, Some [])))"

definition Vector_shrink_to_fit :: "'a box \<Rightarrow> unit outcome \<times> 'a box" where
  "Vector_shrink_to_fit = guarded (\<lambda>b. (Ret (), b))"

text \<open>\<open>swap\<close> with a plain container, which the call gives back, and with another object.\<close>

definition Vector_swap_std :: "'a list \<Rightarrow> 'a box \<Rightarrow> 'a list outcome \<times> 'a box" where
  "Vector_swap_std other = guarded (\<lambda>b. (Ret (case b of Some v \<Rightarrow> v | None \<Rightarrow> []), Some other))"

definition Vector_swap :: "nat \<Rightarrow> nat \<Rightarrow> 'a box_store \<Rightarrow> (unit \<times> 'a box_store) outcome" where
  "Vector_swap self other =
     with_both self other (\<lambda>st. ((),
       case (payload (st self), payload (st other)) of
         (Some v, Some w) \<Rightarrow> put other (Some v) (put self (Some w) st)
       | (None, Some w) \<Rightarrow> put other (Some []) (put self (Some w) st)
       | (Some v, None) \<Rightarrow> put other (Some v) (put self (Some []) st)
       | (None, None) \<Rightarrow> st))"

definition Vector_reserve :: "nat \<Rightarrow> 'a box \<Rightarrow> unit outcome \<times> 'a box" where
  "Vector_reserve n = guarded (\<lambda>b. (Ret (), case b of Some v \<Rightarrow> Some v | None \<Rightarrow> Some []))"

text \<open>\<open>operator[]\<close> does not take the lock.\<close>

definition Vector_index :: "nat \<Rightarrow> 'a box \<Rightarrow> reference outcome \<times> 'a box" where
  "Vector_index idx d =
     (case payload d of
        Some v \<Rightarrow> if idx < length v then Ret (Elem idx) else Undef
      | None \<Rightarrow> Throw Out_of_range, d)"

definition Vector_to_std :: "'a box \<Rightarrow> 'a list outcome \<times> 'a box" where
  "Vector_to_std = guarded (\<lambda>b. (Ret (case b of Some v \<Rightarrow> v | None \<Rightarrow> []), b))"

section \<open>Deque\<close>

definition Deque_lock :: "'a box \<Rightarrow> 'a box outcome" where
  "Deque_lock d = spin d"

definition Deque_unlock :: "'a box \<Rightarrow> 'a box" where
  "Deque_unlock d = clear_flag d"

definition Deque_ctor :: "'a box" where
  "Deque_ctor = new_box None"

definition Deque_ctor_copy :: "'a list \<Rightarrow> 'a box" where
  "Deque_ctor_copy xs = new_box (Some xs)"

definition Deque_ctor_move :: "'a list \<Rightarrow> 'a box" where
  "Deque_ctor_move xs = new_box (Some xs)"

definition Deque_ctor_fill :: "(char \<Rightarrow> 'a) \<Rightarrow> nat \<Rightarrow> char \<Rightarrow> 'a box" where
  "Deque_ctor_fill conv count ch = new_box (Some (replicate count (conv ch)))"

definition Deque_assign :: "nat \<Rightarrow> nat \<Rightarrow> 'a box_store \<Rightarrow> (nat \<times> 'a box_store) outcome" where
  "Deque_assign self other =
     with_both self other (\<lambda>st.
       if self = other then (self, st)
       else let st1 = (if payload (st self) \<noteq> None then put self None st else st)
            in (self, if payload (st1 other) \<noteq> None then put self (payload (st1 other)) st1 else st1))"

definition Deque_move_assign :: "nat \<Rightarrow> nat \<Rightarrow> 'a box_store \<Rightarrow> (nat \<times> 'a box_store) outcome" where
  "Deque_move_assign self other =
     with_both self other (\<lambda>st.
       if self = other then (self, st)
       else (self, put other None (put self (payload (st other)) st)))"

definition Deque_dtor :: "'a box \<Rightarrow> unit outcome \<times> 'a box" where
  "Deque_dtor = guarded (\<lambda>_. (Ret (), None))"

definition Deque_reset :: "'a box \<Rightarrow> unit outcome \<times> 'a box" where
  "Deque_reset = guarded (\<lambda>_. (Ret (), None))"

definition Deque_size :: "'a box \<Rightarrow> nat outcome \<times> 'a box" where
  "Deque_size = guarded (\<lambda>b. (Ret (case b of Some v \<Rightarrow> length v | None \<Rightarrow> 0), b))"

definition Deque_empty :: "'a box \<Rightarrow> bool outcome \<times> 'a box" where
  "Deque_empty = guarded (\<lambda>b. (Ret (case b of Some v \<Rightarrow> v = [] | None \<Rightarrow> True), b))"

definition Deque_clear :: "'a box \<Rightarrow> unit outcome \<times> 'a box" where
  "Deque_clear = guarded (\<lambda>b. (Ret (), case b of Some v \<Rightarrow> None | None \<Rightarrow> None))"

definition Deque_push_back :: "'a \<Rightarrow> 'a box \<Rightarrow> unit outcome \<times> 'a box" where
  "Deque_push_back x = guarded (\<lambda>b. (Ret (), Some (case b of Some v \<Rightarrow> v @ [x] | None \<Rightarrow> [] @ [x])))"

definition Deque_push_back_move :: "'a \<Rightarrow> 'a box \<Rightarrow> unit outcome \<times> 'a box" where
  "Deque_push_back_move x = guarded (\<lambda>b. (Ret (), Some (case b of Some v \<Rightarrow> v @ [x] | None \<Rightarrow> [] @ [x])))"

definition Deque_begin :: "'a box \<Rightarrow> nat outcome \<times> 'a box" where
  "Deque_begin = guarded (\<lambda>b. (Ret 0, case b of Some v \<Rightarrow> Some v | None \<Rightarrow> Some []))"

definition Deque_end :: "'a box \<Rightarrow> nat outcome \<times> 'a box" where
  "Deque_end = guarded (\<lambda>b. (case b of Some v \<Rightarrow> (Ret (length v), Some v) | None \<Rightarrow> (Ret 0, Some [])))"

definition Deque_shrink_to_fit :: "'a box \<Rightarrow> unit outcome \<times> 'a box" where
  "Deque_shrink_to_fit = guarded (\<lambda>b. (Ret (), b))"

text \<open>\<open>swap\<close> with a plain container, which the call gives back, and with another object.\<close>

definition Deque_swap_std :: "'a list \<Rightarrow> 'a box \<Rightarrow> 'a list outcome \<times> 'a box" where
  "Deque_swap_std other = guarded (\<lambda>b. (Ret (case b of Some v \<Rightarrow> v | None \<Rightarrow> []), Some other))"

definition Deque_swap :: "nat \<Rightarrow> nat \<Rightarrow> 'a box_store \<Rightarrow> (unit \<times> 'a box_store) outcome" where
  "Deque_swap self other =
     with_both self other (\<lambda>st. ((),
       case (payload (st self), payload (st other)) of
         (Some v, Some w) \<Rightarrow> put other (Some v) (put self (Some w) st)
       | (None, Some w) \<Rightarrow> put other (Some []) (put self (Some w) st)
       | (Some v, None) \<Rightarrow> put other (Some v) (put self (Some []) st)
       | (None, None) \<Rightarrow> st))"

text \<open>\<open>std::swap\<close> of two objects of the classes.\<close>

definition std_swap_Vector :: "nat \<Rightarrow> nat \<Rightarrow> 'a box_store \<Rightarrow> (unit \<times> 'a box_store) outcome" where
  "std_swap_Vector lhs rhs = Vector_swap lhs rhs"

definition std_swap_Deque :: "nat \<Rightarrow> nat \<Rightarrow> 'a box_store \<Rightarrow> (unit \<times> 'a box_store) outcome" where
  "std_swap_Deque lhs rhs = Deque_swap lhs rhs"

text \<open>\<open>operator[]\<close> does not take the lock.\<close>

definition Deque_index :: "nat \<Rightarrow> 'a box \<Rightarrow> reference outcome \<times> 'a box" where
  "Deque_index idx d =
     (case payload d of
        Some v \<Rightarrow> if idx < length v then Ret (Elem idx) else Undef
      | None \<Rightarrow> Throw Out_of_range, d)"

definition Deque_to_std :: "'a box \<Rightarrow> 'a list outcome \<times> 'a box" where
  "Deque_to_std = guarded (\<lambda>b. (Ret (case b of Some v \<Rightarrow> v | None \<Rightarrow> []), b))"

section \<open>The contract of the nullable containers\<close>

text \<open>
  What a client relies on: behind the lock sits a list, where null counts as empty. Each call gives
  the result the plain container would give, and leaves the list the plain container would have.
\<close>

definition contents :: "'a box \<Rightarrow> 'a list" where
  "contents d = (case payload d of Some v \<Rightarrow> v | None \<Rightarrow> [])"

datatype 'a list_call = L_size | L_empty | L_clear | L_reset | L_push_back 'a | L_begin | L_end | L_shrink | L_swap "'a list" | L_copy

datatype 'a list_result = R_none | R_number nat | R_truth bool | R_list "'a list"

fun list_spec :: "'a list_call \<Rightarrow> 'a list \<Rightarrow> 'a list_result \<times> 'a list" where
  "list_spec L_size v = (R_number (length v), v)"
| "list_spec L_empty v = (R_truth (v = []), v)"
| "list_spec L_clear v = (R_none, [])"
| "list_spec L_reset v = (R_none, [])"
| "list_spec (L_push_back x) v = (R_none, v @ [x])"
| "list_spec L_begin v = (R_number 0, v)"
| "list_spec L_end v = (R_number (length v), v)"
| "list_spec L_shrink v = (R_none, v)"
| "list_spec (L_swap w) v = (R_list v, w)"
| "list_spec L_copy v = (R_list v, v)"

fun run_spec :: "'a list_call list \<Rightarrow> 'a list \<Rightarrow> 'a list_result list \<times> 'a list" where
  "run_spec [] v = ([], v)"
| "run_spec (op # ops) v = (let (r, v1) = list_spec op v; (rs, v2) = run_spec ops v1 in (r # rs, v2))"

fun run_calls ::
  "('a list_call \<Rightarrow> 'a box \<Rightarrow> 'a list_result outcome \<times> 'a box) \<Rightarrow> 'a list_call list \<Rightarrow> 'a box \<Rightarrow>
   ('a list_result list \<times> 'a box) outcome" where
  "run_calls exec [] d = Ret ([], d)"
| "run_calls exec (op # ops) d =
     (case exec op d of
        (Ret r, d1) \<Rightarrow> obind (run_calls exec ops d1) (\<lambda>(rs, d2). Ret (r # rs, d2))
      | (Throw e, d1) \<Rightarrow> Throw e
      | (Undef, d1) \<Rightarrow> Undef
      | (Diverge, d1) \<Rightarrow> Diverge)"

locale nullable_container =
  fixes exec :: "'a list_call \<Rightarrow> 'a box \<Rightarrow> 'a list_result outcome \<times> 'a box"
  assumes exec_law: "\<not> flag d \<Longrightarrow>
    \<exists>d1. exec op d = (Ret (fst (list_spec op (contents d))), d1) \<and> \<not> flag d1 \<and> contents d1 = snd (list_spec op (contents d))"
begin

lemma runs_as_list:
  "\<not> flag d \<Longrightarrow> \<exists>d1. run_calls exec ops d = Ret (fst (run_spec ops (contents d)), d1) \<and>
     \<not> flag d1 \<and> contents d1 = snd (run_spec ops (contents d))"
proof (induction ops arbitrary: d)
  case (Cons op ops)
  obtain d1 where d1: "exec op d = (Ret (fst (list_spec op (contents d))), d1)" "\<not> flag d1"
    "contents d1 = snd (list_spec op (contents d))" using exec_law [OF Cons.prems] by blast
  obtain d2 where "run_calls exec ops d1 = Ret (fst (run_spec ops (contents d1)), d2)" "\<not> flag d2"
    "contents d2 = snd (run_spec ops (contents d1))" using Cons.IH [OF d1(2)] by blast
  with d1 show ?case by (simp add: split_beta Let_def)
qed simp

end

fun Vector_exec :: "'a list_call \<Rightarrow> 'a box \<Rightarrow> 'a list_result outcome \<times> 'a box" where
  "Vector_exec L_size d = apfst (map_outcome R_number) (Vector_size d)"
| "Vector_exec L_empty d = apfst (map_outcome R_truth) (Vector_empty d)"
| "Vector_exec L_clear d = apfst (map_outcome (\<lambda>_. R_none)) (Vector_clear d)"
| "Vector_exec L_reset d = apfst (map_outcome (\<lambda>_. R_none)) (Vector_reset d)"
| "Vector_exec (L_push_back x) d = apfst (map_outcome (\<lambda>_. R_none)) (Vector_push_back x d)"
| "Vector_exec L_begin d = apfst (map_outcome R_number) (Vector_begin d)"
| "Vector_exec L_end d = apfst (map_outcome R_number) (Vector_end d)"
| "Vector_exec L_shrink d = apfst (map_outcome (\<lambda>_. R_none)) (Vector_shrink_to_fit d)"
| "Vector_exec (L_swap w) d = apfst (map_outcome R_list) (Vector_swap_std w d)"
| "Vector_exec L_copy d = apfst (map_outcome R_list) (Vector_to_std d)"

fun Deque_exec :: "'a list_call \<Rightarrow> 'a box \<Rightarrow> 'a list_result outcome \<times> 'a box" where
  "Deque_exec L_size d = apfst (map_outcome R_number) (Deque_size d)"
| "Deque_exec L_empty d = apfst (map_outcome R_truth) (Deque_empty d)"
| "Deque_exec L_clear d = apfst (map_outcome (\<lambda>_. R_none)) (Deque_clear d)"
| "Deque_exec L_reset d = apfst (map_outcome (\<lambda>_. R_none)) (Deque_reset d)"
| "Deque_exec (L_push_back x) d = apfst (map_outcome (\<lambda>_. R_none)) (Deque_push_back x d)"
| "Deque_exec L_begin d = apfst (map_outcome R_number) (Deque_begin d)"
| "Deque_exec L_end d = apfst (map_outcome R_number) (Deque_end d)"
| "Deque_exec L_shrink d = apfst (map_outcome (\<lambda>_. R_none)) (Deque_shrink_to_fit d)"
| "Deque_exec (L_swap w) d = apfst (map_outcome R_list) (Deque_swap_std w d)"
| "Deque_exec L_copy d = apfst (map_outcome R_list) (Deque_to_std d)"

interpretation vector_box: nullable_container Vector_exec
proof unfold_locales
  fix d :: "'a box" and op
  assume "\<not> flag d"
  then show "\<exists>d1. Vector_exec op d = (Ret (fst (list_spec op (contents d))), d1) \<and> \<not> flag d1 \<and>
      contents d1 = snd (list_spec op (contents d))"
    by (cases op) (auto simp: guarded_free contents_def Vector_size_def Vector_empty_def Vector_clear_def Vector_reset_def
        Vector_push_back_def Vector_begin_def Vector_end_def Vector_shrink_to_fit_def Vector_swap_std_def Vector_to_std_def
        split: option.splits)
qed

interpretation deque_box: nullable_container Deque_exec
proof unfold_locales
  fix d :: "'a box" and op
  assume "\<not> flag d"
  then show "\<exists>d1. Deque_exec op d = (Ret (fst (list_spec op (contents d))), d1) \<and> \<not> flag d1 \<and>
      contents d1 = snd (list_spec op (contents d))"
    by (cases op) (auto simp: guarded_free contents_def Deque_size_def Deque_empty_def Deque_clear_def Deque_reset_def
        Deque_push_back_def Deque_begin_def Deque_end_def Deque_shrink_to_fit_def Deque_swap_std_def Deque_to_std_def
        split: option.splits)
qed

section \<open>Two objects\<close>

lemmas pair_defs = with_both_result put_def Let_def fun_upd_twist

lemma String_pair_results:
  assumes "a \<noteq> b" "\<not> flag (st a)" "\<not> flag (st b)"
  shows "String_assign a b st = Ret (a, st(a := (st a)\<lparr>payload := payload (st b)\<rparr>))"
    and "String_move_assign a b st = Ret (a, st(a := (st a)\<lparr>payload := payload (st b)\<rparr>, b := (st b)\<lparr>payload := None\<rparr>))"
    and "String_less a b st = Ret (case (payload (st a), payload (st b)) of
          (Some x, Some y) \<Rightarrow> x < y | (Some x, None) \<Rightarrow> True | _ \<Rightarrow> False, st)"
    and "String_eq a b st = Ret (case (payload (st a), payload (st b)) of (Some x, Some y) \<Rightarrow> x = y | _ \<Rightarrow> False, st)"
proof -
  have same: "st(a := st a\<lparr>flag := False\<rparr>, b := st b\<lparr>flag := False\<rparr>) = st"
    using assms by (intro ext) simp
  show "String_assign a b st = Ret (a, st(a := (st a)\<lparr>payload := payload (st b)\<rparr>))"
    using assms by (auto simp: String_assign_def pair_defs fun_eq_iff split: option.splits)
  show "String_move_assign a b st = Ret (a, st(a := (st a)\<lparr>payload := payload (st b)\<rparr>, b := (st b)\<lparr>payload := None\<rparr>))"
    using assms by (auto simp: String_move_assign_def pair_defs fun_eq_iff)
  show "String_less a b st = Ret (case (payload (st a), payload (st b)) of
          (Some x, Some y) \<Rightarrow> x < y | (Some x, None) \<Rightarrow> True | _ \<Rightarrow> False, st)"
    using assms same by (auto simp: String_less_def pair_defs fun_eq_iff split: option.splits)
  show "String_eq a b st = Ret (case (payload (st a), payload (st b)) of (Some x, Some y) \<Rightarrow> x = y | _ \<Rightarrow> False, st)"
    using assms same by (auto simp: String_eq_def pair_defs fun_eq_iff split: option.splits)
qed

text \<open>
  Two threads, each in an operation on two objects: a thread takes the locks it \<open>wants\<close> in order,
  spinning while one is taken, and when it has them all it does its work and gives them back.
\<close>

record pair_sys =
  taken :: "nat \<Rightarrow> bool"
  wants :: "nat \<Rightarrow> nat list"
  owns :: "nat \<Rightarrow> nat list"

inductive pair_step :: "pair_sys \<Rightarrow> pair_sys \<Rightarrow> bool" where
  take_lock: "wants s t = l # ls \<Longrightarrow> \<not> taken s l \<Longrightarrow>
    pair_step s (s\<lparr>taken := (taken s)(l := True), wants := (wants s)(t := ls), owns := (owns s)(t := l # owns s t)\<rparr>)"
| give_back: "wants s t = [] \<Longrightarrow> owns s t = l # ls \<Longrightarrow>
    pair_step s (s\<lparr>taken := (taken s)(l := False), owns := (owns s)(t := ls)\<rparr>)"

definition pair_start :: "nat \<Rightarrow> nat \<Rightarrow> pair_sys" where
  "pair_start a b = \<lparr>taken = (\<lambda>_. False), wants = (\<lambda>t. if t = 0 then [a, b] else if t = 1 then [b, a] else []), owns = (\<lambda>_. [])\<rparr>"

inductive_cases pair_stepE: "pair_step s u"

section \<open>Properties\<close>


text \<open>\<open>swap\<close> of two different unlocked objects exchanges their contents, null counting as empty,
  and leaves them unlocked and every other object alone.\<close>

theorem wrapped_swap_exchanges:
  assumes "a \<noteq> b" and "\<not> flag (st a)" and "\<not> flag (st b)"
  shows "\<exists>st'. std_swap_Vector a b st = Ret ((), st') \<and> std_swap_Deque a b st = Ret ((), st') \<and>
    contents (st' a) = contents (st b) \<and> contents (st' b) = contents (st a) \<and>
    \<not> flag (st' a) \<and> \<not> flag (st' b) \<and> (\<forall>c. c \<noteq> a \<longrightarrow> c \<noteq> b \<longrightarrow> st' c = st c)"
  using assms
  by (cases "payload (st a)"; cases "payload (st b)")
    (simp_all add: std_swap_Vector_def std_swap_Deque_def Vector_swap_def Deque_swap_def pair_defs contents_def)

text \<open>The comparisons of two different unlocked strings: two non-null strings compare as their
  values do, a non-null string is below a null one, and two null strings are each at most the other
  although they do not compare equal.\<close>

theorem String_comparisons:
  assumes "a \<noteq> b" and "\<not> flag (st a)" and "\<not> flag (st b)"
  shows "(String_less a b st = Ret (True, st) \<longleftrightarrow>
       payload (st a) \<noteq> None \<and> (payload (st b) = None \<or> the (payload (st a)) < the (payload (st b)))) \<and>
    String_greater a b st = String_less b a st \<and>
    (String_le a b st = Ret (True, st) \<and> String_ge a b st = Ret (True, st) \<longleftrightarrow> payload (st a) = payload (st b)) \<and>
    (String_eq a b st = Ret (True, st) \<longleftrightarrow> payload (st a) = payload (st b) \<and> payload (st a) \<noteq> None)"
proof -
  have "b \<noteq> a" using assms(1) by simp
  note results = String_pair_results [OF assms] String_pair_results [OF this assms(3,2)]
  show ?thesis
    by (cases "payload (st a)"; cases "payload (st b)")
      (auto simp: results String_greater_def String_le_def String_ge_def)
qed

text \<open>Every operation on two objects hangs when both are the same object: the second guard waits
  for the lock the first one holds, before the test \<open>this == &other\<close>.\<close>

theorem self_operations_hang:
  "String_assign a a st = Diverge \<and> String_move_assign a a st = Diverge \<and> String_append_String a a st = Diverge \<and>
   String_less a a st = Diverge \<and> String_le a a st = Diverge \<and> String_eq a a st = Diverge \<and> String_neq a a st = Diverge \<and>
   Vector_assign a a st' = Diverge \<and> Vector_move_assign a a st' = Diverge \<and> Vector_swap a a st' = Diverge \<and>
   Deque_assign a a st' = Diverge \<and> Deque_move_assign a a st' = Diverge \<and> Deque_swap a a st' = Diverge"
  by (simp add: with_both_result String_assign_def String_move_assign_def String_append_String_def String_less_def
      String_le_def String_greater_def String_eq_def String_neq_def Vector_assign_def Vector_move_assign_def Vector_swap_def
      Deque_assign_def Deque_move_assign_def Deque_swap_def)

text \<open>One thread in \<open>a = b\<close> and one in \<open>b = a\<close> can block each other for good: a state is reachable
  in which both wait for a lock and no step is possible.\<close>

theorem crossed_assignments_deadlock:
  assumes "a \<noteq> b"
  shows "\<exists>s. pair_step\<^sup>*\<^sup>* (pair_start a b) s \<and> wants s 0 = [b] \<and> wants s 1 = [a] \<and> (\<nexists>u. pair_step s u)"
proof -
  let ?s0 = "pair_start a b"
  let ?s1 = "?s0\<lparr>taken := (taken ?s0)(a := True), wants := (wants ?s0)(0 := [b]), owns := (owns ?s0)(0 := a # owns ?s0 0)\<rparr>"
  let ?s2 = "?s1\<lparr>taken := (taken ?s1)(b := True), wants := (wants ?s1)(1 := [a]), owns := (owns ?s1)(1 := b # owns ?s1 1)\<rparr>"
  have "pair_step ?s0 ?s1" by (rule take_lock) (simp_all add: pair_start_def)
  moreover have "pair_step ?s1 ?s2" by (rule take_lock) (use assms in \<open>simp_all add: pair_start_def\<close>)
  moreover have "\<nexists>u. pair_step ?s2 u"
    by (auto elim!: pair_stepE simp: pair_start_def split: if_splits)
  ultimately show ?thesis
    by (intro exI [of _ ?s2] conjI rtranclp.rtrancl_into_rtrancl [OF rtranclp.rtrancl_into_rtrancl [OF rtranclp.rtrancl_refl]])
      (simp_all add: pair_start_def)
qed

section \<open>Examples\<close>

definition example_boxes :: "char box_store" where
  "example_boxes = (\<lambda>_. new_box None)(0 := new_box (Some ''ab''), 1 := new_box (Some ''b''))"

lemma example_boxes_free: "\<not> flag (example_boxes a)"
  by (simp add: example_boxes_def new_box_def)


theorem wrapped_swap_exchanges_witness:
  "\<exists>st'. std_swap_Vector 0 5 example_boxes = Ret ((), st') \<and> contents (st' 5) = ''ab'' \<and> contents (st' 0) = ''''"
  using wrapped_swap_exchanges [where a = 0 and b = 5 and st = example_boxes, OF _ example_boxes_free example_boxes_free]
  by (auto simp: example_boxes_def new_box_def contents_def)

theorem String_comparisons_witness:
  "String_less 0 1 example_boxes = Ret (True, example_boxes) \<and>
   String_le 5 6 example_boxes = Ret (True, example_boxes) \<and> String_eq 5 6 example_boxes \<noteq> Ret (True, example_boxes)"
proof -
  have n: "(0::nat) \<noteq> 1" "(5::nat) \<noteq> 6" by simp_all
  have p: "payload (example_boxes 0) = Some ''ab''" "payload (example_boxes 1) = Some ''b''"
    "payload (example_boxes 5) = None" "payload (example_boxes 6) = None"
    by (simp_all add: example_boxes_def new_box_def)
  have "''ab'' < ''b''" by simp
  then show ?thesis
    using String_comparisons [where st = example_boxes, OF n(1) example_boxes_free example_boxes_free]
      String_comparisons [where st = example_boxes, OF n(2) example_boxes_free example_boxes_free] p by simp
qed

theorem crossed_assignments_deadlock_witness:
  "\<exists>s. pair_step\<^sup>*\<^sup>* (pair_start 0 1) s \<and> wants s 0 = [1] \<and> (\<nexists>u. pair_step s u)"
  using crossed_assignments_deadlock [of 0 1] by auto

end
