(* ===== verification/SafeVars.thy ===== *)
theory SafeVars
  imports Spinlock
begin

text \<open>
  The small protected classes: \<open>ThreadSafeVar\<close> and \<open>ThreadSafeVarVector\<close> of \<open>include/Types.h\<close>,
  \<open>TSQueue\<close> and \<open>ts_set\<close> of \<open>include/ThreadSafe.h\<close>. The first three set and clear their flag by
  hand (\<open>flag_section\<close>), \<open>ts_set\<close> uses a \<open>SpinlockA\<close> guard. A \<open>std::set\<close> is the sorted list of its
  elements and an iterator is a position in it. The constructors of \<open>ts_set\<close> from ranges and
  initialiser lists are not modelled: they apply \<open>->\<close> to the set itself and do not compile once used.
\<close>

section \<open>ThreadSafeVar\<close>

definition var_Get :: "'a locked \<Rightarrow> 'a outcome \<times> 'a locked" where
  "var_Get = flag_section (\<lambda>v. (Ret v, v))"

definition var_Set :: "'a \<Rightarrow> 'a locked \<Rightarrow> unit outcome \<times> 'a locked" where
  "var_Set x = flag_section (\<lambda>_. (Ret (), x))"

definition var_Increment :: "'a::plus \<Rightarrow> 'a locked \<Rightarrow> unit outcome \<times> 'a locked" where
  "var_Increment x = flag_section (\<lambda>v. (Ret (), v + x))"

definition var_Decrement :: "'a::minus \<Rightarrow> 'a locked \<Rightarrow> unit outcome \<times> 'a locked" where
  "var_Decrement x = flag_section (\<lambda>v. (Ret (), v - x))"

datatype 'a var_call = Var_get | Var_set 'a | Var_increment 'a | Var_decrement 'a

fun var_exec :: "'a::ab_group_add var_call \<Rightarrow> 'a locked \<Rightarrow> 'a option outcome \<times> 'a locked" where
  "var_exec Var_get d = apfst (map_outcome Some) (var_Get d)"
| "var_exec (Var_set x) d = apfst (map_outcome (\<lambda>_. None)) (var_Set x d)"
| "var_exec (Var_increment x) d = apfst (map_outcome (\<lambda>_. None)) (var_Increment x d)"
| "var_exec (Var_decrement x) d = apfst (map_outcome (\<lambda>_. None)) (var_Decrement x d)"

definition var_body :: "'a::ab_group_add var_call \<Rightarrow> 'a \<Rightarrow> 'a option outcome \<times> 'a" where
  "var_body op v = apsnd payload (var_exec op \<lparr>flag = False, payload = v\<rparr>)"

lemmas var_defs = var_Get_def var_Set_def var_Increment_def var_Decrement_def

lemma var_body_simps [simp]:
  "var_body Var_get v = (Ret (Some v), v)" "var_body (Var_set x) v = (Ret None, x)"
  "var_body (Var_increment x) v = (Ret None, v + x)" "var_body (Var_decrement x) v = (Ret None, v - x)"
  by (simp_all add: var_body_def var_defs flag_section_free)

text \<open>What a history of increments and decrements adds up to.\<close>

fun var_change :: "'a::ab_group_add var_call \<Rightarrow> 'a" where
  "var_change (Var_increment x) = x"
| "var_change (Var_decrement x) = - x"
| "var_change _ = 0"

definition var_counts :: "'a var_call \<Rightarrow> bool" where
  "var_counts op \<longleftrightarrow> (case op of Var_set _ \<Rightarrow> False | _ \<Rightarrow> True)"

lemma replay_counts:
  "replay var_body v h = Some v' \<Longrightarrow> \<forall>(t, op, r) \<in> set h. var_counts op \<Longrightarrow>
     v' = v + sum_list (map (\<lambda>(t, op, r). var_change op) h)"
proof (induction h arbitrary: v)
  case (Cons x h)
  obtain t op r where x: "x = (t, op, r)" by (cases x)
  with Cons.prems(1) have h: "replay var_body (snd (var_body op v)) h = Some v'"
    by (simp add: split_beta split: if_splits)
  have "snd (var_body op v) = v + var_change op"
    using Cons.prems(2) x by (cases op) (simp_all add: var_counts_def)
  then show ?case using Cons.IH [OF h] Cons.prems(2) x by (simp add: add.assoc)
qed simp

section \<open>ThreadSafeVarVector\<close>

text \<open>
  \<open>Get\<close> outside the vector returns a default-initialised \<open>T\<close>, the parameter \<open>dflt\<close>; for a scalar
  type that is an indeterminate value. \<open>pop_back\<close> of an empty vector is undefined.
\<close>

definition vec_Get :: "'a \<Rightarrow> nat \<Rightarrow> 'a list locked \<Rightarrow> 'a outcome \<times> 'a list locked" where
  "vec_Get dflt index = flag_section (\<lambda>v. (Ret (if length v > index then v ! index else dflt), v))"

definition vec_Set :: "'a \<Rightarrow> nat \<Rightarrow> 'a list locked \<Rightarrow> unit outcome \<times> 'a list locked" where
  "vec_Set x index = flag_section (\<lambda>v. (Ret (), if length v > index then v[index := x] else v))"

definition vec_Push :: "'a \<Rightarrow> 'a list locked \<Rightarrow> unit outcome \<times> 'a list locked" where
  "vec_Push x = flag_section (\<lambda>v. (Ret (), v @ [x]))"

definition vec_Pop :: "'a list locked \<Rightarrow> unit outcome \<times> 'a list locked" where
  "vec_Pop = flag_section (\<lambda>v. (if v = [] then Undef else Ret (), butlast v))"

definition vec_Size :: "'a list locked \<Rightarrow> nat outcome \<times> 'a list locked" where
  "vec_Size = flag_section (\<lambda>v. (Ret (length v), v))"

section \<open>TSQueue\<close>

text \<open>\<open>Pop\<close> reads the front element into a local variable, drops it, and returns nothing; on an
  empty queue it calls \<open>pop\<close> all the same.\<close>

definition tsq_Push :: "'a \<Rightarrow> 'a list locked \<Rightarrow> unit outcome \<times> 'a list locked" where
  "tsq_Push x = flag_section (\<lambda>q. (Ret (), q @ [x]))"

definition tsq_Pop :: "'a list locked \<Rightarrow> unit outcome \<times> 'a list locked" where
  "tsq_Pop = flag_section (\<lambda>q. (if q = [] then Undef else Ret (), tl q))"

definition tsq_Empty :: "'a list locked \<Rightarrow> bool outcome \<times> 'a list locked" where
  "tsq_Empty = flag_section (\<lambda>q. (Ret (q = []), q))"

definition tsq_Size :: "'a list locked \<Rightarrow> nat outcome \<times> 'a list locked" where
  "tsq_Size = flag_section (\<lambda>q. (Ret (length q), q))"

text \<open>Checking first does not help when another thread may take the element in between.\<close>

definition tsq_pop_if_any :: "'a list locked \<Rightarrow> 'a list locked \<Rightarrow> unit outcome" where
  "tsq_pop_if_any before after =
     (case fst (tsq_Empty before) of Ret False \<Rightarrow> fst (tsq_Pop after) | Ret True \<Rightarrow> Ret ()
      | Throw e \<Rightarrow> Throw e | Undef \<Rightarrow> Undef | Diverge \<Rightarrow> Diverge)"

section \<open>ts_set\<close>

definition tss_ctor :: "'a list locked" where
  "tss_ctor = \<lparr>flag = False, payload = []\<rparr>"

definition tss_begin :: "'a list locked \<Rightarrow> nat outcome \<times> 'a list locked" where
  "tss_begin = guarded (\<lambda>s. (Ret 0, s))"

definition tss_end :: "'a list locked \<Rightarrow> nat outcome \<times> 'a list locked" where
  "tss_end = guarded (\<lambda>s. (Ret (length s), s))"

text \<open>A reverse iterator is the position it was made from: \<open>rbegin\<close> from \<open>end\<close>, \<open>rend\<close> from \<open>begin\<close>.\<close>

definition tss_rbegin :: "'a list locked \<Rightarrow> nat outcome \<times> 'a list locked" where
  "tss_rbegin = guarded (\<lambda>s. (Ret (length s), s))"

definition tss_rend :: "'a list locked \<Rightarrow> nat outcome \<times> 'a list locked" where
  "tss_rend = guarded (\<lambda>s. (Ret 0, s))"

definition tss_empty :: "'a list locked \<Rightarrow> bool outcome \<times> 'a list locked" where
  "tss_empty = guarded (\<lambda>s. (Ret (s = []), s))"

definition tss_size :: "'a list locked \<Rightarrow> nat outcome \<times> 'a list locked" where
  "tss_size = guarded (\<lambda>s. (Ret (length s), s))"

definition tss_max_size :: "nat \<Rightarrow> 'a list locked \<Rightarrow> nat outcome \<times> 'a list locked" where
  "tss_max_size limit = guarded (\<lambda>s. (Ret limit, s))"

definition tss_clear :: "'a list locked \<Rightarrow> unit outcome \<times> 'a list locked" where
  "tss_clear = guarded (\<lambda>_. (Ret (), []))"

definition tss_insert :: "'a::linorder \<Rightarrow> 'a list locked \<Rightarrow> unit outcome \<times> 'a list locked" where
  "tss_insert x = guarded (\<lambda>s. (Ret (), insort_insert x s))"

definition tss_insert_move :: "'a::linorder \<Rightarrow> 'a list locked \<Rightarrow> unit outcome \<times> 'a list locked" where
  "tss_insert_move x = guarded (\<lambda>s. (Ret (), insort_insert x s))"

text \<open>The position is a hint: it changes how long the insertion takes, not where the element goes.\<close>

definition tss_insert_hint :: "nat \<Rightarrow> 'a::linorder \<Rightarrow> 'a list locked \<Rightarrow> unit outcome \<times> 'a list locked" where
  "tss_insert_hint pos x = guarded (\<lambda>s. (Ret (), insort_insert x s))"

definition tss_insert_list :: "'a::linorder list \<Rightarrow> 'a list locked \<Rightarrow> unit outcome \<times> 'a list locked" where
  "tss_insert_list xs = guarded (\<lambda>s. (Ret (), fold insort_insert xs s))"

datatype 'a set_call = Set_size | Set_empty | Set_clear | Set_insert 'a | Set_insert_list "'a list"

fun tss_exec :: "'a::linorder set_call \<Rightarrow> 'a list locked \<Rightarrow> nat option outcome \<times> 'a list locked" where
  "tss_exec Set_size d = apfst (map_outcome Some) (tss_size d)"
| "tss_exec Set_empty d = apfst (map_outcome (\<lambda>b. Some (if b then 1 else 0))) (tss_empty d)"
| "tss_exec Set_clear d = apfst (map_outcome (\<lambda>_. None)) (tss_clear d)"
| "tss_exec (Set_insert x) d = apfst (map_outcome (\<lambda>_. None)) (tss_insert x d)"
| "tss_exec (Set_insert_list xs) d = apfst (map_outcome (\<lambda>_. None)) (tss_insert_list xs d)"

definition tss_body :: "'a::linorder set_call \<Rightarrow> 'a list \<Rightarrow> nat option outcome \<times> 'a list" where
  "tss_body op s = apsnd payload (tss_exec op \<lparr>flag = False, payload = s\<rparr>)"

lemmas tss_defs = tss_size_def tss_empty_def tss_clear_def tss_insert_def tss_insert_list_def

lemma tss_body_simps [simp]:
  "tss_body Set_size s = (Ret (Some (length s)), s)"
  "tss_body Set_empty s = (Ret (Some (if s = [] then 1 else 0)), s)"
  "tss_body Set_clear s = (Ret None, [])"
  "tss_body (Set_insert x) s = (Ret None, insort_insert x s)"
  "tss_body (Set_insert_list xs) s = (Ret None, fold insort_insert xs s)"
  by (simp_all add: tss_body_def tss_defs guarded_free)

lemma fold_insort_insert:
  "sorted s \<and> distinct s \<Longrightarrow> sorted (fold insort_insert xs s) \<and> distinct (fold insort_insert xs s)"
  by (induction xs arbitrary: s) (auto simp: sorted_insort_insert distinct_insort_insert)

interpretation tss_obj: protected_object tss_body "\<lambda>_. True" "\<lambda>s. sorted s \<and> distinct s"
proof unfold_locales
  fix op :: "'a set_call" and q :: "'a list"
  assume "sorted q \<and> distinct q"
  then show "sorted (snd (tss_body op q)) \<and> distinct (snd (tss_body op q))"
    using fold_insort_insert by (cases op) (auto simp: sorted_insort_insert distinct_insort_insert)
qed

text \<open>The set after a history: the last \<open>clear\<close> decides which insertions count.\<close>

fun set_after :: "'a set \<Rightarrow> 'a set_call list \<Rightarrow> 'a set" where
  "set_after A [] = A"
| "set_after A (Set_clear # ops) = set_after {} ops"
| "set_after A (Set_insert x # ops) = set_after (insert x A) ops"
| "set_after A (Set_insert_list xs # ops) = set_after (A \<union> set xs) ops"
| "set_after A (_ # ops) = set_after A ops"

lemma set_fold_insort: "set (fold insort_insert xs s) = set s \<union> set xs"
  by (induction xs arbitrary: s) (auto simp: set_insort_insert)

lemma replay_set:
  "replay tss_body s h = Some s' \<Longrightarrow> set s' = set_after (set s) (map (\<lambda>(t, op, r). op) h)"
proof (induction h arbitrary: s)
  case (Cons x h)
  obtain t op r where x: "x = (t, op, r)" by (cases x)
  with Cons.prems have h: "replay tss_body (snd (tss_body op s)) h = Some s'"
    by (simp add: split_beta split: if_splits)
  then show ?case using Cons.IH [OF h] x
    by (cases op) (simp_all add: set_insort_insert set_fold_insort)
qed simp

section \<open>Properties\<close>

text \<open>C25: no update of a shared \<open>ThreadSafeVar\<close> is lost: when threads only read, increment and
  decrement it, its value is the initial one plus everything added so far, whatever the order.\<close>

theorem ThreadSafeVar_no_lost_update:
  assumes "spin_reach var_body (spin_init v0 prog) s"
    and "\<forall>t. \<forall>op \<in> set (prog t). var_counts op"
  shows "payload (ob s) = v0 + sum_list (map (\<lambda>(t, op, r). var_change op) (hist s))"
proof -
  have inv: "spin_inv var_body v0 prog s" using spin_reach_inv [OF assms(1) refl] .
  then have "replay var_body v0 (hist s) = Some (payload (ob s))" by (simp add: spin_inv_def)
  moreover from inv have "\<forall>(t, op, r) \<in> set (hist s). var_counts op"
    using hist_in_program assms(2) by fast
  ultimately show ?thesis by (rule replay_counts)
qed

text \<open>A \<open>ts_set\<close> used by any number of threads stays sorted and free of duplicates, and holds
  exactly what the calls made so far leave in it, in the order in which they took the lock.\<close>

theorem ts_set_concurrent:
  assumes "spin_reach tss_body (spin_init s0 prog) s" and "sorted s0" and "distinct s0"
  shows "sorted (payload (ob s)) \<and> distinct (payload (ob s)) \<and>
    set (payload (ob s)) = set_after (set s0) (map (\<lambda>(t, op, r). op) (hist s))"
proof -
  have "replay tss_body s0 (hist s) = Some (payload (ob s))"
    using spin_reach_inv [OF assms(1) refl] by (simp add: spin_inv_def)
  then show ?thesis using tss_obj.reachable_keeps [OF assms(1)] assms(2,3) replay_set by blast
qed

text \<open>The hand-written sections release the flag on the ways that return, and \<open>Pop\<close> of an empty
  \<open>TSQueue\<close> or \<open>ThreadSafeVarVector\<close> is undefined, even after a check that the queue was not empty.\<close>

theorem pop_of_empty_undefined:
  "fst (tsq_Pop \<lparr>flag = False, payload = []\<rparr>) = Undef \<and> fst (vec_Pop \<lparr>flag = False, payload = []\<rparr>) = Undef \<and>
   fst (tsq_Pop \<lparr>flag = False, payload = x # q\<rparr>) = Ret () \<and>
   snd (tsq_Pop \<lparr>flag = False, payload = x # q\<rparr>) = \<lparr>flag = False, payload = q\<rparr> \<and>
   tsq_pop_if_any \<lparr>flag = False, payload = [x]\<rparr> (snd (tsq_Pop \<lparr>flag = False, payload = [x]\<rparr>)) = Undef"
  by (simp add: tsq_Pop_def vec_Pop_def tsq_Empty_def tsq_pop_if_any_def flag_section_free)

text \<open>A \<open>ThreadSafeVarVector\<close> gives back at an index what was last stored there; a \<open>Set\<close> outside
  the vector stores nothing, and every call leaves the flag clear.\<close>

theorem ThreadSafeVarVector_roundtrip:
  "let v1 = snd (vec_Set x i \<lparr>flag = False, payload = v\<rparr>)
   in \<not> flag v1 \<and> length (payload v1) = length v \<and>
      fst (vec_Get dflt j v1) =
        Ret (if j \<ge> length v then dflt else if j = i then x else v ! j) \<and>
      fst (vec_Get dflt (length v) (snd (vec_Push x v1))) = Ret x"
  by (simp add: vec_Get_def vec_Set_def vec_Push_def flag_section_free nth_append)

section \<open>Examples\<close>

definition example_adding :: "nat \<Rightarrow> 8 word var_call list" where
  "example_adding t = (if t < 2 then [Var_increment 200] else [])"

definition example_added :: "(8 word var_call, 8 word option outcome, 8 word) spin_sys" where
  "example_added =
     \<lparr>ob = \<lparr>flag = True, payload = 44\<rparr>, pcs = (\<lambda>_. Outside)(0 := Written (Var_increment 200) (Ret None)),
      todo = example_adding(0 := []), hist = [(0, Var_increment 200, Ret None)]\<rparr>"

lemma one_call_reach:
  fixes body :: "'op \<Rightarrow> 'q \<Rightarrow> 'r \<times> 'q"
  assumes "prog 0 = [op]" "body op q0 = (r, q1)"
  shows "spin_reach body (spin_init q0 prog)
    \<lparr>ob = \<lparr>flag = True, payload = q1\<rparr>, pcs = (\<lambda>_. Outside)(0 := Written op r), todo = prog(0 := []), hist = [(0, op, r)]\<rparr>"
proof -
  let ?s = "spin_init q0 prog :: ('op, 'r, 'q) spin_sys"
  let ?a = "?s\<lparr>pcs := (pcs ?s)(0 := Spinning op), todo := (todo ?s)(0 := [])\<rparr>"
  let ?b = "?a\<lparr>ob := (ob ?a)\<lparr>flag := True\<rparr>, pcs := (pcs ?a)(0 := Entered op)\<rparr>"
  let ?c = "?b\<lparr>pcs := (pcs ?b)(0 := Read op r q1)\<rparr>"
  have a: "spin_step body ?s ?a" by (rule call) (simp_all add: spin_init_def assms)
  have b: "spin_step body ?a ?b" by (rule enter) (simp_all add: spin_init_def test_and_set_def)
  have c: "spin_step body ?b ?c" by (rule read) (simp_all add: spin_init_def assms)
  have "spin_step body ?c (?c\<lparr>ob := (ob ?c)\<lparr>payload := q1\<rparr>, pcs := (pcs ?c)(0 := Written op r), hist := hist ?c @ [(0, op, r)]\<rparr>)"
    by (rule store) simp
  then have d: "spin_step body ?c \<lparr>ob = \<lparr>flag = True, payload = q1\<rparr>, pcs = (\<lambda>_. Outside)(0 := Written op r), todo = prog(0 := []), hist = [(0, op, r)]\<rparr>"
    by (simp add: spin_init_def)
  show ?thesis
    using spin_reach.spin_more [OF spin_reach.spin_more [OF spin_reach.spin_more [OF spin_reach.spin_more
        [OF spin_reach.spin_start a] b] c] d] .
qed

theorem ThreadSafeVar_no_lost_update_witness: "payload (ob example_added) = (100 + 200 :: 8 word)"
proof -
  have r: "spin_reach var_body (spin_init 100 example_adding) example_added"
    unfolding example_added_def by (rule one_call_reach) (simp_all add: example_adding_def)
  have "\<forall>t. \<forall>op \<in> set (example_adding t). var_counts op" by (simp add: example_adding_def var_counts_def)
  from ThreadSafeVar_no_lost_update [OF r this] show ?thesis by (simp add: example_added_def)
qed

definition example_inserting :: "nat \<Rightarrow> nat set_call list" where
  "example_inserting t = (if t = 0 then [Set_insert_list [5, 1, 5]] else [Set_clear])"

theorem ts_set_concurrent_witness:
  "\<exists>s. spin_reach tss_body (spin_init [3 :: nat] example_inserting) s \<and> payload (ob s) = [1, 3, 5] \<and>
     sorted (payload (ob s)) \<and> set (payload (ob s)) = {1, 3, 5}"
proof -
  let ?s = "\<lparr>ob = \<lparr>flag = True, payload = [1, 3, 5]\<rparr>, pcs = (\<lambda>_. Outside)(0 := Written (Set_insert_list [5, 1, 5]) (Ret None)),
      todo = example_inserting(0 := []), hist = [(0, Set_insert_list [5, 1, 5], Ret None)]\<rparr>"
  have "spin_reach tss_body (spin_init [3] example_inserting) ?s"
    by (rule one_call_reach) (simp_all add: example_inserting_def insort_insert_key_def)
  then show ?thesis using ts_set_concurrent [of "[3]" example_inserting ?s] by (intro exI [of _ ?s]) auto
qed

end
