(* ===== verification/StableDeque.thy ===== *)
theory StableDeque
  imports TsDeque
begin

text \<open>
  The second class \<open>ts_deque\<close>, of \<open>include/ThreadSafe.h\<close>. Its text repeats that of \<open>Types.h\<close> but for the
  destructor; here it is modelled with the identity of the elements, which the first model leaves
  out: an element keeps its number until the deque gives up its address, references and iterators
  name such numbers, and the rules of the standard for \<open>std::deque\<close> say which of them a call leaves
  valid. An iterator is valid while no call has changed \<open>epoch\<close> (past the end: \<open>end_epoch\<close> too).
\<close>

section \<open>std::deque\<close>

record 'a cells =
  slots :: "(nat \<times> 'a) list"
  next_slot :: nat
  epoch :: nat
  end_epoch :: nat

datatype iter = At_slot nat nat | Past_end nat nat

definition no_cells :: "'a cells" where
  "no_cells = \<lparr>slots = [], next_slot = 0, epoch = 0, end_epoch = 0\<rparr>"

definition values_of :: "'a cells \<Rightarrow> 'a list" where
  "values_of q = map snd (slots q)"

definition new_slots :: "nat \<Rightarrow> 'a list \<Rightarrow> (nat \<times> 'a) list" where
  "new_slots n vs = zip [n..<n + length vs] vs"

definition slot_pos :: "nat \<Rightarrow> (nat \<times> 'a) list \<Rightarrow> nat option" where
  "slot_pos k xs = (let i = length (takeWhile (\<lambda>s. fst s \<noteq> k) xs) in if i < length xs then Some i else None)"

definition read_ref :: "nat \<Rightarrow> 'a cells \<Rightarrow> 'a outcome" where
  "read_ref k q = (case map_of (slots q) k of Some v \<Rightarrow> Ret v | None \<Rightarrow> Undef)"

definition iter_at :: "nat \<Rightarrow> 'a cells \<Rightarrow> iter" where
  "iter_at i q = (if i < length (slots q) then At_slot (epoch q) (fst (slots q ! i)) else Past_end (epoch q) (end_epoch q))"

fun iter_pos :: "iter \<Rightarrow> 'a cells \<Rightarrow> nat option" where
  "iter_pos (At_slot e k) q = (if e = epoch q then slot_pos k (slots q) else None)"
| "iter_pos (Past_end e f) q = (if e = epoch q \<and> f = end_epoch q then Some (length (slots q)) else None)"

text \<open>
  All elements at new addresses; elements put in at a position: at either end the other elements stay
  where they are and only the iterators go, in the middle everything does; elements taken out:
  at the front or the back only what names them goes, and the end with the last one.
\<close>

definition renewed :: "'a list \<Rightarrow> 'a cells \<Rightarrow> 'a cells" where
  "renewed vs q =
     \<lparr>slots = new_slots (next_slot q) vs, next_slot = next_slot q + length vs,
      epoch = Suc (epoch q), end_epoch = Suc (end_epoch q)\<rparr>"

definition put_in :: "nat \<Rightarrow> 'a list \<Rightarrow> 'a cells \<Rightarrow> 'a cells" where
  "put_in i vs q =
     (if i = 0 \<or> i = length (slots q) then
        q\<lparr>slots := take i (slots q) @ new_slots (next_slot q) vs @ drop i (slots q),
          next_slot := next_slot q + length vs, epoch := Suc (epoch q)\<rparr>
      else renewed (take i (values_of q) @ vs @ drop i (values_of q)) q)"

definition take_out :: "nat \<Rightarrow> nat \<Rightarrow> 'a cells \<Rightarrow> 'a cells" where
  "take_out i j q =
     (if i = j then q
      else if i = 0 \<or> j = length (slots q) then
        q\<lparr>slots := take i (slots q) @ drop j (slots q),
          end_epoch := (if j = length (slots q) then Suc (end_epoch q) else end_epoch q)\<rparr>
      else renewed (take i (values_of q) @ drop j (values_of q)) q)"

definition sized :: "nat \<Rightarrow> 'a \<Rightarrow> 'a cells \<Rightarrow> 'a cells" where
  "sized n v q =
     (if n \<le> length (slots q) then take_out n (length (slots q)) q
      else put_in (length (slots q)) (replicate (n - length (slots q)) v) q)"

section \<open>The class\<close>

type_synonym 'a sd_deque = "'a cells locked"

definition sd_lock :: "'a sd_deque \<Rightarrow> 'a sd_deque outcome" where
  "sd_lock d = spin d"

definition sd_unlock :: "'a sd_deque \<Rightarrow> 'a sd_deque" where
  "sd_unlock d = clear_flag d"

definition sd_data :: "'a sd_deque \<Rightarrow> 'a cells" where
  "sd_data d = payload d"

definition sd_fresh :: "'a sd_deque" where
  "sd_fresh = \<lparr>flag = False, payload = no_cells\<rparr>"

text \<open>The constructors assign a new \<open>std::deque\<close> to the empty one; the allocators change nothing here.\<close>

definition sd_ctor :: "unit outcome \<times> 'a sd_deque" where
  "sd_ctor = guarded (\<lambda>q. (Ret (), renewed [] q)) sd_fresh"

definition sd_ctor_count :: "'a \<Rightarrow> nat \<Rightarrow> unit outcome \<times> 'a sd_deque" where
  "sd_ctor_count dflt count = guarded (\<lambda>q. (Ret (), renewed (replicate count dflt) q)) sd_fresh"

definition sd_ctor_fill :: "nat \<Rightarrow> 'a \<Rightarrow> unit outcome \<times> 'a sd_deque" where
  "sd_ctor_fill count v = guarded (\<lambda>q. (Ret (), renewed (replicate count v) q)) sd_fresh"

definition sd_ctor_range :: "'a list \<Rightarrow> unit outcome \<times> 'a sd_deque" where
  "sd_ctor_range xs = guarded (\<lambda>q. (Ret (), renewed xs q)) sd_fresh"

definition sd_ctor_deque :: "'a list \<Rightarrow> unit outcome \<times> 'a sd_deque" where
  "sd_ctor_deque other = guarded (\<lambda>q. (Ret (), renewed other q)) sd_fresh"

definition sd_ctor_init :: "'a list \<Rightarrow> unit outcome \<times> 'a sd_deque" where
  "sd_ctor_init ilist = guarded (\<lambda>q. (Ret (), renewed ilist q)) sd_fresh"

text \<open>The copy and move constructors: the new deque and the other, which keeps its elements.\<close>

definition sd_ctor_copy :: "'a sd_deque \<Rightarrow> ('a sd_deque \<times> 'a sd_deque) outcome" where
  "sd_ctor_copy other =
     obind (Spinlock_ctor sd_fresh) (\<lambda>self1.
     obind (sd_lock other) (\<lambda>other1.
       let self2 = self1\<lparr>payload := renewed (values_of (sd_data other1)) (payload self1)\<rparr>
       in Ret (Spinlock_dtor self2, sd_unlock other1)))"

text \<open>\<open>swap\<close> of two objects of a store: references keep naming their elements, now in the other deque; the
  iterators past the end go.\<close>

definition ends_lost :: "'a cells \<Rightarrow> 'a cells" where
  "ends_lost q = q\<lparr>end_epoch := Suc (end_epoch q)\<rparr>"

definition sd_swap :: "nat \<Rightarrow> nat \<Rightarrow> (nat \<Rightarrow> 'a sd_deque) \<Rightarrow> (nat \<Rightarrow> 'a sd_deque) outcome" where
  "sd_swap self other st =
     obind (Spinlock_ctor (st self)) (\<lambda>s1.
       let st1 = st(self := s1)
       in obind (sd_lock (st1 other)) (\<lambda>o1.
            let st2 = st1(other := o1);
                qs = sd_data (st2 self); qo = sd_data (st2 other);
                st3 = st2(other := (st2 other)\<lparr>payload := ends_lost qs\<rparr>);
                st4 = st3(self := (st3 self)\<lparr>payload := ends_lost qo\<rparr>);
                st5 = st4(other := sd_unlock (st4 other))
            in Ret (st5(self := Spinlock_dtor (st5 self)))))"

section \<open>Member functions\<close>

text \<open>A position is an iterator; one that is not valid makes the call undefined.\<close>

definition at_iter :: "iter \<Rightarrow> (nat \<Rightarrow> 'a cells \<Rightarrow> 'r outcome \<times> 'a cells) \<Rightarrow> 'a cells \<Rightarrow> 'r outcome \<times> 'a cells" where
  "at_iter it f q = (case iter_pos it q of None \<Rightarrow> (Undef, q) | Some i \<Rightarrow> f i q)"

definition sd_assign_fill :: "nat \<Rightarrow> 'a \<Rightarrow> 'a sd_deque \<Rightarrow> unit outcome \<times> 'a sd_deque" where
  "sd_assign_fill count v = guarded (\<lambda>q. (Ret (), renewed (replicate count v) q))"

definition sd_assign_range :: "'a list \<Rightarrow> 'a sd_deque \<Rightarrow> unit outcome \<times> 'a sd_deque" where
  "sd_assign_range xs = guarded (\<lambda>q. (Ret (), renewed xs q))"

definition sd_assign_init :: "'a list \<Rightarrow> 'a sd_deque \<Rightarrow> unit outcome \<times> 'a sd_deque" where
  "sd_assign_init ilist = guarded (\<lambda>q. (Ret (), renewed ilist q))"

definition sd_at :: "nat \<Rightarrow> 'a sd_deque \<Rightarrow> nat outcome \<times> 'a sd_deque" where
  "sd_at pos = guarded (\<lambda>q. (if pos < length (slots q) then Ret (fst (slots q ! pos)) else Throw Out_of_range, q))"

definition sd_index :: "nat \<Rightarrow> 'a sd_deque \<Rightarrow> nat outcome \<times> 'a sd_deque" where
  "sd_index pos = guarded (\<lambda>q. (if pos < length (slots q) then Ret (fst (slots q ! pos)) else Undef, q))"

definition sd_front :: "'a sd_deque \<Rightarrow> nat outcome \<times> 'a sd_deque" where
  "sd_front = guarded (\<lambda>q. (case slots q of [] \<Rightarrow> Undef | s # rest \<Rightarrow> Ret (fst s), q))"

definition sd_get_pop_front :: "'a sd_deque \<Rightarrow> 'a outcome \<times> 'a sd_deque" where
  "sd_get_pop_front = guarded (\<lambda>q.
     case slots q of [] \<Rightarrow> (Throw Out_of_range, q) | elem # rest \<Rightarrow> (Ret (snd elem), take_out 0 1 q))"

definition sd_back :: "'a sd_deque \<Rightarrow> nat outcome \<times> 'a sd_deque" where
  "sd_back = guarded (\<lambda>q. (if slots q = [] then Undef else Ret (fst (last (slots q))), q))"

text \<open>\<open>begin\<close> and \<open>cbegin\<close>, \<open>end\<close> and \<open>cend\<close>; a reverse iterator is kept by its base: \<open>rbegin\<close> and \<open>crbegin\<close>
  hold the end, \<open>rend\<close> and \<open>crend\<close> the begin.\<close>

definition sd_begin :: "'a sd_deque \<Rightarrow> iter outcome \<times> 'a sd_deque" where
  "sd_begin = guarded (\<lambda>q. (Ret (iter_at 0 q), q))"

definition sd_end :: "'a sd_deque \<Rightarrow> iter outcome \<times> 'a sd_deque" where
  "sd_end = guarded (\<lambda>q. (Ret (iter_at (length (slots q)) q), q))"

definition sd_rbegin :: "'a sd_deque \<Rightarrow> iter outcome \<times> 'a sd_deque" where
  "sd_rbegin = guarded (\<lambda>q. (Ret (iter_at (length (slots q)) q), q))"

definition sd_rend :: "'a sd_deque \<Rightarrow> iter outcome \<times> 'a sd_deque" where
  "sd_rend = guarded (\<lambda>q. (Ret (iter_at 0 q), q))"

definition sd_empty :: "'a sd_deque \<Rightarrow> bool outcome \<times> 'a sd_deque" where
  "sd_empty = guarded (\<lambda>q. (Ret (slots q = []), q))"

definition sd_size :: "'a sd_deque \<Rightarrow> nat outcome \<times> 'a sd_deque" where
  "sd_size = guarded (\<lambda>q. (Ret (length (slots q)), q))"

definition sd_shrink_to_fit :: "'a sd_deque \<Rightarrow> unit outcome \<times> 'a sd_deque" where
  "sd_shrink_to_fit = guarded (\<lambda>q. (Ret (), renewed (values_of q) q))"

definition sd_clear :: "'a sd_deque \<Rightarrow> unit outcome \<times> 'a sd_deque" where
  "sd_clear = guarded (\<lambda>q. (Ret (), renewed [] q))"

definition sd_emplace :: "iter \<Rightarrow> 'a \<Rightarrow> 'a sd_deque \<Rightarrow> iter outcome \<times> 'a sd_deque" where
  "sd_emplace pos v = guarded (at_iter pos (\<lambda>i q. (Undef, put_in i [v] q)))"

definition sd_emplace_back :: "'a \<Rightarrow> 'a sd_deque \<Rightarrow> nat outcome \<times> 'a sd_deque" where
  "sd_emplace_back v = guarded (\<lambda>q. (Undef, put_in (length (slots q)) [v] q))"

definition sd_emplace_front :: "'a \<Rightarrow> 'a sd_deque \<Rightarrow> nat outcome \<times> 'a sd_deque" where
  "sd_emplace_front v = guarded (\<lambda>q. (Undef, put_in 0 [v] q))"

definition sd_push_back :: "'a \<Rightarrow> 'a sd_deque \<Rightarrow> unit outcome \<times> 'a sd_deque" where
  "sd_push_back v = guarded (\<lambda>q. (Ret (), put_in (length (slots q)) [v] q))"

definition sd_pop_back :: "'a sd_deque \<Rightarrow> unit outcome \<times> 'a sd_deque" where
  "sd_pop_back = guarded (\<lambda>q.
     if slots q = [] then (Undef, q) else (Ret (), take_out (length (slots q) - 1) (length (slots q)) q))"

definition sd_push_front :: "'a \<Rightarrow> 'a sd_deque \<Rightarrow> unit outcome \<times> 'a sd_deque" where
  "sd_push_front v = guarded (\<lambda>q. (Ret (), put_in 0 [v] q))"

definition sd_pop_front :: "'a sd_deque \<Rightarrow> unit outcome \<times> 'a sd_deque" where
  "sd_pop_front = guarded (\<lambda>q. if slots q = [] then (Undef, q) else (Ret (), take_out 0 1 q))"

definition sd_resize :: "'a \<Rightarrow> nat \<Rightarrow> 'a sd_deque \<Rightarrow> unit outcome \<times> 'a sd_deque" where
  "sd_resize dflt count = guarded (\<lambda>q. (Ret (), sized count dflt q))"

definition sd_resize_fill :: "nat \<Rightarrow> 'a \<Rightarrow> 'a sd_deque \<Rightarrow> unit outcome \<times> 'a sd_deque" where
  "sd_resize_fill count v = guarded (\<lambda>q. (Ret (), sized count v q))"

definition sd_erase :: "iter \<Rightarrow> 'a sd_deque \<Rightarrow> iter outcome \<times> 'a sd_deque" where
  "sd_erase pos = guarded (at_iter pos (\<lambda>i q.
     if i < length (slots q) then (let q' = take_out i (Suc i) q in (Ret (iter_at i q'), q')) else (Undef, q)))"

definition sd_erase_range :: "iter \<Rightarrow> iter \<Rightarrow> 'a sd_deque \<Rightarrow> iter outcome \<times> 'a sd_deque" where
  "sd_erase_range from till = guarded (at_iter from (\<lambda>i. at_iter till (\<lambda>j q.
     if i \<le> j then (let q' = take_out i j q in (Ret (iter_at i q'), q')) else (Undef, q))))"

definition sd_insert :: "iter \<Rightarrow> 'a \<Rightarrow> 'a sd_deque \<Rightarrow> iter outcome \<times> 'a sd_deque" where
  "sd_insert pos v = guarded (at_iter pos (\<lambda>i q. let q' = put_in i [v] q in (Ret (iter_at i q'), q')))"

definition sd_insert_fill :: "iter \<Rightarrow> nat \<Rightarrow> 'a \<Rightarrow> 'a sd_deque \<Rightarrow> iter outcome \<times> 'a sd_deque" where
  "sd_insert_fill pos count v =
     guarded (at_iter pos (\<lambda>i q. let q' = put_in i (replicate count v) q in (Ret (iter_at i q'), q')))"

definition sd_insert_range :: "iter \<Rightarrow> 'a list \<Rightarrow> 'a sd_deque \<Rightarrow> iter outcome \<times> 'a sd_deque" where
  "sd_insert_range pos xs = guarded (at_iter pos (\<lambda>i q. let q' = put_in i xs q in (Ret (iter_at i q'), q')))"

text \<open>\<open>ts_front\<close> and \<open>ts_back\<close> name the element they take out.\<close>

definition sd_ts_front :: "'a sd_deque \<Rightarrow> nat outcome \<times> 'a sd_deque" where
  "sd_ts_front = guarded (\<lambda>q.
     case slots q of [] \<Rightarrow> (Throw Out_of_range, q) | s # rest \<Rightarrow> (Ret (fst s), take_out 0 1 q))"

definition sd_ts_back :: "'a sd_deque \<Rightarrow> nat outcome \<times> 'a sd_deque" where
  "sd_ts_back = guarded (\<lambda>q.
     if slots q = [] then (Throw Out_of_range, q)
     else (Ret (fst (last (slots q))), take_out (length (slots q) - 1) (length (slots q)) q))"

section \<open>The class as a set of calls\<close>

datatype 'a sd_call =
    SAssign "'a list" | SAt nat | SIndex nat | SFront | SGet_pop_front | SBack | SBegin | SEnd | SEmpty | SSize
  | SShrink | SClear | SEmplace iter 'a | SEmplace_back 'a | SEmplace_front 'a
  | SPush_back 'a | SPop_back | SPush_front 'a | SPop_front | SResize nat | SResize_fill nat 'a
  | SErase iter | SErase_range iter iter | SInsert iter 'a | SInsert_range iter "'a list" | STs_front | STs_back

datatype 'a sd_result = SNo_value | STruth bool | SNumber nat | SRefers nat | SIterator iter | SElement 'a

fun sd_exec :: "'a \<Rightarrow> 'a sd_call \<Rightarrow> 'a sd_deque \<Rightarrow> 'a sd_result outcome \<times> 'a sd_deque" where
  "sd_exec dflt (SAssign xs) d = apfst (map_outcome (\<lambda>_. SNo_value)) (sd_assign_range xs d)"
| "sd_exec dflt (SAt i) d = apfst (map_outcome SRefers) (sd_at i d)"
| "sd_exec dflt (SIndex i) d = apfst (map_outcome SRefers) (sd_index i d)"
| "sd_exec dflt SFront d = apfst (map_outcome SRefers) (sd_front d)"
| "sd_exec dflt SGet_pop_front d = apfst (map_outcome SElement) (sd_get_pop_front d)"
| "sd_exec dflt SBack d = apfst (map_outcome SRefers) (sd_back d)"
| "sd_exec dflt SBegin d = apfst (map_outcome SIterator) (sd_begin d)"
| "sd_exec dflt SEnd d = apfst (map_outcome SIterator) (sd_end d)"
| "sd_exec dflt SEmpty d = apfst (map_outcome STruth) (sd_empty d)"
| "sd_exec dflt SSize d = apfst (map_outcome SNumber) (sd_size d)"
| "sd_exec dflt SShrink d = apfst (map_outcome (\<lambda>_. SNo_value)) (sd_shrink_to_fit d)"
| "sd_exec dflt SClear d = apfst (map_outcome (\<lambda>_. SNo_value)) (sd_clear d)"
| "sd_exec dflt (SEmplace i v) d = apfst (map_outcome SIterator) (sd_emplace i v d)"
| "sd_exec dflt (SEmplace_back v) d = apfst (map_outcome SRefers) (sd_emplace_back v d)"
| "sd_exec dflt (SEmplace_front v) d = apfst (map_outcome SRefers) (sd_emplace_front v d)"
| "sd_exec dflt (SPush_back v) d = apfst (map_outcome (\<lambda>_. SNo_value)) (sd_push_back v d)"
| "sd_exec dflt SPop_back d = apfst (map_outcome (\<lambda>_. SNo_value)) (sd_pop_back d)"
| "sd_exec dflt (SPush_front v) d = apfst (map_outcome (\<lambda>_. SNo_value)) (sd_push_front v d)"
| "sd_exec dflt SPop_front d = apfst (map_outcome (\<lambda>_. SNo_value)) (sd_pop_front d)"
| "sd_exec dflt (SResize n) d = apfst (map_outcome (\<lambda>_. SNo_value)) (sd_resize dflt n d)"
| "sd_exec dflt (SResize_fill n v) d = apfst (map_outcome (\<lambda>_. SNo_value)) (sd_resize_fill n v d)"
| "sd_exec dflt (SErase i) d = apfst (map_outcome SIterator) (sd_erase i d)"
| "sd_exec dflt (SErase_range i j) d = apfst (map_outcome SIterator) (sd_erase_range i j d)"
| "sd_exec dflt (SInsert i v) d = apfst (map_outcome SIterator) (sd_insert i v d)"
| "sd_exec dflt (SInsert_range i xs) d = apfst (map_outcome SIterator) (sd_insert_range i xs d)"
| "sd_exec dflt STs_front d = apfst (map_outcome SRefers) (sd_ts_front d)"
| "sd_exec dflt STs_back d = apfst (map_outcome SRefers) (sd_ts_back d)"

lemmas sd_defs =
  sd_assign_range_def sd_at_def sd_index_def sd_front_def sd_get_pop_front_def sd_back_def
  sd_begin_def sd_end_def sd_empty_def sd_size_def sd_shrink_to_fit_def sd_clear_def sd_emplace_def
  sd_emplace_back_def sd_emplace_front_def sd_push_back_def sd_pop_back_def sd_push_front_def
  sd_pop_front_def sd_resize_def sd_resize_fill_def sd_erase_def sd_erase_range_def sd_insert_def
  sd_insert_range_def sd_ts_front_def sd_ts_back_def

text \<open>The same call on the other class: iterators become positions, and so do the results.\<close>

fun call_of :: "'a cells \<Rightarrow> 'a sd_call \<Rightarrow> 'a dq_call option" where
  "call_of q (SAssign xs) = Some (Assign xs)"
| "call_of q (SAt i) = Some (At i)"
| "call_of q (SIndex i) = Some (Index i)"
| "call_of q SFront = Some Front"
| "call_of q SGet_pop_front = Some Get_pop_front"
| "call_of q SBack = Some Back"
| "call_of q SBegin = Some Begin"
| "call_of q SEnd = Some End"
| "call_of q SEmpty = Some Empty"
| "call_of q SSize = Some Size"
| "call_of q SShrink = Some Shrink"
| "call_of q SClear = Some Clear"
| "call_of q (SEmplace i v) = map_option (\<lambda>n. Emplace n v) (iter_pos i q)"
| "call_of q (SEmplace_back v) = Some (Emplace_back v)"
| "call_of q (SEmplace_front v) = Some (Emplace_front v)"
| "call_of q (SPush_back v) = Some (Push_back v)"
| "call_of q SPop_back = Some Pop_back"
| "call_of q (SPush_front v) = Some (Push_front v)"
| "call_of q SPop_front = Some Pop_front"
| "call_of q (SResize n) = Some (Resize n)"
| "call_of q (SResize_fill n v) = Some (Resize_fill n v)"
| "call_of q (SErase i) = map_option Erase (iter_pos i q)"
| "call_of q (SErase_range i j) =
     (case iter_pos i q of None \<Rightarrow> None | Some n \<Rightarrow> map_option (Erase_range n) (iter_pos j q))"
| "call_of q (SInsert i v) = map_option (\<lambda>n. Insert n v) (iter_pos i q)"
| "call_of q (SInsert_range i xs) = map_option (\<lambda>n. Insert_range n xs) (iter_pos i q)"
| "call_of q STs_front = Some Ts_front"
| "call_of q STs_back = Some Ts_back"

definition place_of :: "nat \<Rightarrow> 'a cells \<Rightarrow> reference" where
  "place_of k q = (case slot_pos k (slots q) of Some i \<Rightarrow> Elem i | None \<Rightarrow> Dangling)"

fun result_of :: "'a cells \<Rightarrow> 'a sd_result \<Rightarrow> 'a dq_result outcome" where
  "result_of q SNo_value = Ret No_value"
| "result_of q (STruth b) = Ret (Truth b)"
| "result_of q (SNumber n) = Ret (Number n)"
| "result_of q (SRefers k) = Ret (Refers (place_of k q))"
| "result_of q (SIterator it) = (case iter_pos it q of Some i \<Rightarrow> Ret (Number i) | None \<Rightarrow> Undef)"
| "result_of q (SElement v) = Ret (Element v)"

definition sd_body :: "'a \<Rightarrow> 'a sd_call \<Rightarrow> 'a cells \<Rightarrow> 'a sd_result outcome \<times> 'a cells" where
  "sd_body dflt op q = apsnd payload (sd_exec dflt op \<lparr>flag = False, payload = q\<rparr>)"

section \<open>The cells\<close>

named_theorems cell_simps \<open>values and identities of the cells after an operation\<close>

definition wf_cells :: "'a cells \<Rightarrow> bool" where
  "wf_cells q \<longleftrightarrow> distinct (map fst (slots q)) \<and> (\<forall>k \<in> fst ` set (slots q). k < next_slot q)"

lemma length_values [cell_simps]: "length (values_of q) = length (slots q)"
  by (simp add: values_of_def)

lemma new_slots_simps [cell_simps]:
  "map snd (new_slots n vs) = vs" "map fst (new_slots n vs) = [n..<n + length vs]" "length (new_slots n vs) = length vs"
  by (simp_all add: new_slots_def)

lemma new_slots_fst: "fst ` set (new_slots n vs) = {n..<n + length vs}"
  by (metis new_slots_simps(2) list.set_map set_upt)

lemma values_simps [cell_simps]:
  "values_of (renewed vs q) = vs"
  "i \<le> length (slots q) \<Longrightarrow> values_of (put_in i vs q) = take i (values_of q) @ vs @ drop i (values_of q)"
  "i \<le> j \<Longrightarrow> j \<le> length (slots q) \<Longrightarrow> values_of (take_out i j q) = take i (values_of q) @ drop j (values_of q)"
proof -
  show r: "values_of (renewed vs q) = vs" for vs
    by (simp add: values_of_def renewed_def new_slots_simps)
  show "i \<le> length (slots q) \<Longrightarrow> values_of (put_in i vs q) = take i (values_of q) @ vs @ drop i (values_of q)"
    by (auto simp: put_in_def r) (auto simp: values_of_def new_slots_simps take_map drop_map)
  show "i \<le> j \<Longrightarrow> j \<le> length (slots q) \<Longrightarrow> values_of (take_out i j q) = take i (values_of q) @ drop j (values_of q)"
    by (auto simp: take_out_def r) (auto simp: values_of_def take_map drop_map)
qed

lemma values_sized [cell_simps]:
  "values_of (sized n v q) = take n (values_of q) @ replicate (n - length (slots q)) v"
  by (simp add: sized_def cell_simps)

lemma length_slots [cell_simps]:
  "length (slots (renewed vs q)) = length vs"
  "i \<le> length (slots q) \<Longrightarrow> length (slots (put_in i vs q)) = length (slots q) + length vs"
  "i \<le> j \<Longrightarrow> j \<le> length (slots q) \<Longrightarrow> length (slots (take_out i j q)) = length (slots q) - (j - i)"
  unfolding length_values [symmetric] by (simp_all add: values_simps length_values)

text \<open>The identities: new ones are fresh, the others are those of before.\<close>

lemma wf_renewed [cell_simps]: "wf_cells (renewed vs q)"
  by (auto simp: wf_cells_def renewed_def new_slots_simps new_slots_fst)

lemma wf_sub:
  assumes "wf_cells q" "slots q' = take i (slots q) @ new_slots (next_slot q) vs @ drop j (slots q)" "i \<le> j"
    "next_slot q' = next_slot q + length vs"
  shows "wf_cells q'"
proof -
  let ?ids = "map fst (slots q)"
  have d: "distinct ?ids" and less: "\<forall>k \<in> set ?ids. k < next_slot q" using assms(1) by (auto simp: wf_cells_def)
  have dis: "set (take i ?ids) \<inter> set (drop j ?ids) = {}" using d assms(3) by (rule set_take_disj_set_drop_if_distinct)
  have low: "k \<in> set (take i ?ids) \<Longrightarrow> k < next_slot q" "k \<in> set (drop j ?ids) \<Longrightarrow> k < next_slot q" for k
    using less by (metis in_set_takeD, metis in_set_dropD)
  have "map fst (slots q') = take i ?ids @ [next_slot q..<next_slot q + length vs] @ drop j ?ids"
    by (simp add: assms(2) new_slots_simps take_map drop_map)
  moreover have "distinct \<dots>" using d dis by (auto dest: low)
  moreover have "\<forall>k \<in> set (take i ?ids @ [next_slot q..<next_slot q + length vs] @ drop j ?ids). k < next_slot q'"
    by (auto simp: assms(4) dest!: low)
  ultimately show ?thesis unfolding wf_cells_def by (metis list.set_map)
qed

lemma wf_put_in [cell_simps]:
  assumes "wf_cells q" shows "wf_cells (put_in i vs q)"
proof (cases "i = 0 \<or> i = length (slots q)")
  case True
  then show ?thesis using assms by - (rule wf_sub [of q _ i vs i], simp_all add: put_in_def)
qed (simp add: put_in_def wf_renewed)

lemma wf_take_out [cell_simps]:
  assumes "wf_cells q" "i \<le> j" shows "wf_cells (take_out i j q)"
proof (cases "i = 0 \<or> j = length (slots q)")
  case True
  then show ?thesis using assms by - (rule wf_sub [of q _ i "[]" j], simp_all add: take_out_def new_slots_def)
qed (simp add: take_out_def wf_renewed assms)

lemma wf_sized [cell_simps]: "wf_cells q \<Longrightarrow> wf_cells (sized n v q)"
  by (simp add: sized_def wf_put_in wf_take_out)

section \<open>Positions\<close>

lemma slot_pos_nth:
  "distinct (map fst xs) \<Longrightarrow> i < length xs \<Longrightarrow> slot_pos (fst (xs ! i)) xs = Some i"
proof (induction xs arbitrary: i)
  case (Cons x xs)
  show ?case
  proof (cases i)
    case (Suc j)
    with Cons.prems have "fst x \<noteq> fst (xs ! j)" by (auto simp: image_iff dest: nth_mem)
    with Suc Cons.IH [of j] Cons.prems show ?thesis by (auto simp: slot_pos_def Let_def split: if_splits)
  qed (simp add: slot_pos_def)
qed simp

lemma slot_pos_None: "k \<notin> fst ` set xs \<Longrightarrow> slot_pos k xs = None"
proof -
  assume "k \<notin> fst ` set xs"
  then have all: "takeWhile (\<lambda>s. fst s \<noteq> k) xs = xs" by (auto simp: takeWhile_eq_all_conv)
  show ?thesis unfolding slot_pos_def Let_def all by simp
qed

lemma slot_pos_less: "slot_pos k xs = Some i \<Longrightarrow> i < length xs"
  by (auto simp: slot_pos_def Let_def split: if_splits)

lemma iter_pos_le: "iter_pos it q = Some i \<Longrightarrow> i \<le> length (slots q)"
  by (cases it) (auto dest: slot_pos_less split: if_splits)

lemma iter_pos_at [cell_simps]: "wf_cells q \<Longrightarrow> i \<le> length (slots q) \<Longrightarrow> iter_pos (iter_at i q) q = Some i"
  by (auto simp: iter_at_def wf_cells_def slot_pos_nth)

lemma place_of_nth [cell_simps]: "wf_cells q \<Longrightarrow> i < length (slots q) \<Longrightarrow> place_of (fst (slots q ! i)) q = Elem i"
  by (simp add: place_of_def wf_cells_def slot_pos_nth)

text \<open>The element taken out at either end is not named any more.\<close>

lemma place_of_gone [cell_simps]:
  assumes "wf_cells q" "slots q \<noteq> []"
  shows "place_of (fst (hd (slots q))) (take_out 0 1 q) = Dangling"
    and "place_of (fst (last (slots q))) (take_out (length (slots q) - 1) (length (slots q)) q) = Dangling"
proof -
  obtain x xs where x: "slots q = x # xs" using assms(2) by (cases "slots q") auto
  then have "fst x \<notin> fst ` set xs" using assms(1) by (auto simp: wf_cells_def)
  with x show "place_of (fst (hd (slots q))) (take_out 0 1 q) = Dangling"
    by (simp add: place_of_def take_out_def slot_pos_None)
  obtain ys y where y: "slots q = ys @ [y]" using assms(2) by (cases "slots q" rule: rev_cases) auto
  then have "fst y \<notin> fst ` set ys" using assms(1) by (auto simp: wf_cells_def)
  with y show "place_of (fst (last (slots q))) (take_out (length (slots q) - 1) (length (slots q)) q) = Dangling"
    by (simp add: place_of_def take_out_def slot_pos_None)
qed

section \<open>One call on both classes\<close>

definition agrees :: "'a dq_result outcome \<times> 'a list \<Rightarrow> 'a sd_result outcome \<times> 'a cells \<Rightarrow> bool" where
  "agrees a b \<longleftrightarrow> a = (obind (fst b) (result_of (snd b)), values_of (snd b)) \<and> wf_cells (snd b)"

lemma sd_body_undef:
  "call_of q op = None \<Longrightarrow> sd_body dflt op q = (Undef, q)"
  by (cases op) (auto simp: sd_body_def sd_defs guarded_free at_iter_def split: option.splits)

lemma values_ends [cell_simps]:
  "values_of q = [] \<longleftrightarrow> slots q = []"
  "butlast (values_of q) = take (length (slots q) - 1) (values_of q)"
  "tl (values_of q) = drop 1 (values_of q)"
  by (simp_all add: values_of_def butlast_conv_take drop_Suc)

lemma place_of_last [cell_simps]:
  "wf_cells q \<Longrightarrow> slots q \<noteq> [] \<Longrightarrow> place_of (fst (last (slots q))) q = Elem (length (slots q) - 1)"
  by (simp add: last_conv_nth place_of_nth)

lemma sd_body_agrees:
  assumes wf: "wf_cells q" and c: "call_of q op = Some op'"
  shows "agrees (dq_body dflt op' (values_of q)) (sd_body dflt op q)"
proof -
  note body = dq_body_def dq_defs sd_body_def sd_defs guarded_free agrees_def at_iter_def Let_def
  have Cons: "slots q = [] \<Longrightarrow> values_of q = []" "slots q = x # xs \<Longrightarrow> values_of q = snd x # map snd xs" for x xs
    by (simp_all add: values_of_def)
  have gone: "wf_cells (take_out 0 1 q)" "wf_cells (take_out (length (slots q) - 1) (length (slots q)) q)"
    using wf by (simp_all add: wf_take_out)
  show ?thesis
  proof (cases op)
    case SFront
    with c wf show ?thesis by (cases "slots q") (auto simp: body cell_simps values_of_def place_of_def slot_pos_def)
  next
    case SGet_pop_front
    with c wf gone Cons show ?thesis by (cases "slots q") (auto simp: body values_simps)
  next
    case STs_front
    with c wf gone Cons place_of_gone(1) [OF wf] show ?thesis by (cases "slots q") (auto simp: body values_simps)
  next
    case SPop_front
    with c wf gone Cons show ?thesis by (cases "slots q") (auto simp: body values_simps)
  next
    case (SEmplace i v)
    with c wf show ?thesis by (auto simp: body cell_simps dest: iter_pos_le)
  next
    case (SErase i)
    with c wf show ?thesis by (auto simp: body cell_simps dest: iter_pos_le)
  next
    case (SErase_range i j)
    with c wf show ?thesis by (auto simp: body cell_simps dest: iter_pos_le split: option.splits)
  next
    case (SInsert i v)
    with c wf show ?thesis by (auto simp: body cell_simps dest: iter_pos_le)
  next
    case (SInsert_range i vs)
    with c wf show ?thesis by (auto simp: body cell_simps dest: iter_pos_le)
  qed (use c wf gone in \<open>auto simp: body cell_simps place_of_gone [OF wf, simplified]\<close>)
qed

section \<open>References\<close>

text \<open>The calls that take no element away and move none.\<close>

fun adding_call :: "'a sd_call \<Rightarrow> bool" where
  "adding_call (SPush_back v) = True"
| "adding_call (SPush_front v) = True"
| "adding_call (SEmplace_back v) = True"
| "adding_call (SEmplace_front v) = True"
| "adding_call op = (op \<in> {SFront, SBack, SBegin, SEnd, SEmpty, SSize} \<or> (\<exists>i. op = SAt i \<or> op = SIndex i))"

text \<open>A number keeps its value or goes; the numbers given out later are larger.\<close>

definition refs_kept :: "'a cells \<Rightarrow> 'a cells \<Rightarrow> bool" where
  "refs_kept q q' \<longleftrightarrow> (\<forall>s \<in> set (slots q'). s \<in> set (slots q) \<or> next_slot q \<le> fst s) \<and> next_slot q \<le> next_slot q'"

lemma refs_kept_refl [simp]: "refs_kept q q"
  by (simp add: refs_kept_def)

lemma in_new_slots: "s \<in> set (new_slots n vs) \<Longrightarrow> n \<le> fst s"
  by (cases s) (auto simp: new_slots_def dest: set_zip_leftD)

lemma refs_kept_ops:
  "refs_kept q (renewed vs q)" "refs_kept q (put_in i vs q)" "refs_kept q (take_out i j q)" "refs_kept q (sized n v q)"
  by (auto simp: refs_kept_def renewed_def put_in_def take_out_def sized_def dest: in_new_slots in_set_takeD in_set_dropD)

lemma sd_body_refs: "refs_kept q (snd (sd_body dflt op q))"
  by (cases op)
    (auto simp: sd_body_def sd_defs guarded_free at_iter_def Let_def refs_kept_ops split: option.split list.split)

lemma sd_body_wf:
  assumes "wf_cells q"
  shows "wf_cells (snd (sd_body dflt op q))"
proof (cases "call_of q op")
  case (Some op')
  then show ?thesis using sd_body_agrees [OF assms] by (simp add: agrees_def)
qed (simp add: sd_body_undef assms)

lemma adding_keeps:
  assumes "adding_call op" "s \<in> set (slots q)"
  shows "s \<in> set (slots (snd (sd_body dflt op q)))"
  using assms by (cases op) (auto simp: sd_body_def sd_defs guarded_free put_in_def)

lemma read_ref_iff:
  assumes "wf_cells q"
  shows "read_ref k q = Ret v \<longleftrightarrow> (k, v) \<in> set (slots q)"
proof -
  have "read_ref k q = Ret v \<longleftrightarrow> map_of (slots q) k = Some v" by (auto simp: read_ref_def split: option.split)
  also have "\<dots> \<longleftrightarrow> (k, v) \<in> set (slots q)" using assms by (intro map_of_eq_Some_iff) (simp add: wf_cells_def)
  finally show ?thesis .
qed

text \<open>What the threads keep: the cells are well formed, an old number has its old value or none.\<close>

definition ref_inv :: "nat \<Rightarrow> 'a \<Rightarrow> 'a cells \<Rightarrow> bool" where
  "ref_inv k v q \<longleftrightarrow> wf_cells q \<and> k < next_slot q \<and> (\<forall>w. (k, w) \<in> set (slots q) \<longrightarrow> w = v)"

definition ref_held :: "nat \<Rightarrow> 'a \<Rightarrow> 'a cells \<Rightarrow> bool" where
  "ref_held k v q \<longleftrightarrow> wf_cells q \<and> (k, v) \<in> set (slots q)"

interpretation sd_ref: protected_object "sd_body dflt" "\<lambda>op. True" "ref_inv k v" for dflt k v
proof unfold_locales
  fix op q
  assume i: "ref_inv k v q"
  then have "refs_kept q (snd (sd_body dflt op q))" "wf_cells (snd (sd_body dflt op q))"
    using sd_body_refs sd_body_wf by (auto simp: ref_inv_def)
  with i show "ref_inv k v (snd (sd_body dflt op q))" by (fastforce simp: ref_inv_def refs_kept_def)
qed

interpretation sd_held: protected_object "sd_body dflt" adding_call "ref_held k v" for dflt k v
  by unfold_locales (use sd_body_wf adding_keeps in \<open>auto simp: ref_held_def\<close>)

section \<open>Runs\<close>

text \<open>A list of calls: their results, read as positions when the call returns, and the deque they leave; the
  same calls for the other class, when every iterator is valid at its call.\<close>

fun sd_run :: "'a \<Rightarrow> 'a sd_call list \<Rightarrow> 'a sd_deque \<Rightarrow> 'a dq_result outcome list \<times> 'a sd_deque" where
  "sd_run dflt [] d = ([], d)"
| "sd_run dflt (op # ops) d =
     (case sd_exec dflt op d of (r, d1) \<Rightarrow> apfst (Cons (obind r (result_of (payload d1)))) (sd_run dflt ops d1))"

fun dq_run :: "'a \<Rightarrow> 'a dq_call list \<Rightarrow> 'a ts_deque \<Rightarrow> 'a dq_result outcome list \<times> 'a ts_deque" where
  "dq_run dflt [] d = ([], d)"
| "dq_run dflt (op # ops) d = (case dq_exec dflt op d of (r, d1) \<Rightarrow> apfst (Cons r) (dq_run dflt ops d1))"

fun calls_along :: "'a \<Rightarrow> 'a sd_call list \<Rightarrow> 'a sd_deque \<Rightarrow> 'a dq_call list option" where
  "calls_along dflt [] d = Some []"
| "calls_along dflt (op # ops) d =
     (case call_of (payload d) op of
        None \<Rightarrow> None
      | Some c \<Rightarrow> map_option (Cons c) (calls_along dflt ops (snd (sd_exec dflt op d))))"

lemma sd_exec_free:
  "\<not> flag d \<Longrightarrow> sd_exec dflt op d =
     (fst (sd_body dflt op (payload d)), d\<lparr>payload := snd (sd_body dflt op (payload d))\<rparr>)"
  by (cases op) (simp_all add: sd_body_def sd_defs guarded_free split: list.split)

section \<open>Properties\<close>

text \<open>C24: the two classes \<open>ts_deque\<close> agree: any calls on one, with every iterator valid when it is used, give
  the results, exceptions and elements of the same calls on the other.\<close>

theorem ts_deque_copies_agree:
  assumes "\<not> flag d" and "wf_cells (payload d)" and "calls_along dflt ops d = Some calls"
  shows "dq_run dflt calls \<lparr>flag = False, payload = values_of (payload d)\<rparr> =
    (case sd_run dflt ops d of (rs, d') \<Rightarrow> (rs, \<lparr>flag = False, payload = values_of (payload d')\<rparr>))"
  using assms
proof (induction ops arbitrary: d calls)
  case (Cons op ops)
  let ?b = "sd_body dflt op (payload d)"
  obtain c cs where c: "call_of (payload d) op = Some c" "calls = c # cs"
    "calls_along dflt ops (snd (sd_exec dflt op d)) = Some cs"
    using Cons.prems(3) by (auto split: option.splits)
  have e: "sd_exec dflt op d = (fst ?b, d\<lparr>payload := snd ?b\<rparr>)" using Cons.prems(1) by (rule sd_exec_free)
  have a: "agrees (dq_body dflt c (values_of (payload d))) ?b" using Cons.prems(2) c(1) by (rule sd_body_agrees)
  then have "dq_exec dflt c \<lparr>flag = False, payload = values_of (payload d)\<rparr> =
      (obind (fst ?b) (result_of (snd ?b)), \<lparr>flag = False, payload = values_of (snd ?b)\<rparr>)"
    by (simp add: dq_exec_free agrees_def)
  moreover have "dq_run dflt cs \<lparr>flag = False, payload = values_of (snd ?b)\<rparr> =
    (case sd_run dflt ops (d\<lparr>payload := snd ?b\<rparr>) of (rs, d') \<Rightarrow> (rs, \<lparr>flag = False, payload = values_of (payload d')\<rparr>))"
    using Cons.IH [of "d\<lparr>payload := snd ?b\<rparr>" cs] Cons.prems(1) c(3) a by (simp add: e agrees_def)
  ultimately show ?case using c(2) e by (simp split: prod.split)
qed simp

text \<open>C14: whatever other threads do to the deque, a reference obtained before reads the element it was
  obtained for, or nothing that is defined: never another element. As long as the threads only add
  elements at the ends and look at the deque, it stays valid.\<close>

theorem ts_deque_references:
  assumes "spin_reach (sd_body dflt) (spin_init q0 prog) s" and "wf_cells q0" and "read_ref k q0 = Ret v"
  shows "read_ref k (payload (ob s)) \<in> {Ret v, Undef} \<and>
    ((\<forall>t. \<forall>op \<in> set (prog t). adding_call op) \<longrightarrow> read_ref k (payload (ob s)) = Ret v)"
proof -
  have held: "ref_held k v q0" using assms(2,3) by (simp add: ref_held_def read_ref_iff)
  then have "ref_inv k v q0" by (auto simp: ref_held_def ref_inv_def wf_cells_def dest: eq_key_imp_eq_value)
  then have i: "ref_inv k v (payload (ob s))" by (rule sd_ref.reachable_keeps [OF assms(1) TrueI])
  then have "read_ref k (payload (ob s)) = Undef \<or> (\<exists>w. read_ref k (payload (ob s)) = Ret w \<and> (k, w) \<in> set (slots (payload (ob s))))"
    by (auto simp: read_ref_def dest: map_of_SomeD split: option.split)
  then have "read_ref k (payload (ob s)) \<in> {Ret v, Undef}" using i by (auto simp: ref_inv_def)
  moreover have "read_ref k (payload (ob s)) = Ret v" if "\<forall>t. \<forall>op \<in> set (prog t). adding_call op"
    using sd_held.reachable_keeps [OF assms(1) _ held] that by (auto simp: ref_held_def read_ref_iff)
  ultimately show ?thesis by blast
qed

text \<open>An example: two elements; an iterator obtained before a push is not valid behind it.\<close>

definition example_cells :: "nat cells" where
  "example_cells = \<lparr>slots = [(4, 10), (7, 20)], next_slot = 8, epoch = 3, end_epoch = 1\<rparr>"

definition example_sd :: "nat sd_deque" where
  "example_sd = \<lparr>flag = False, payload = example_cells\<rparr>"

lemma example_cells_wf: "wf_cells example_cells"
  by (simp add: wf_cells_def example_cells_def)

lemmas run_simps = sd_defs guarded_free at_iter_def slot_pos_def Let_def put_in_def take_out_def renewed_def
  new_slots_def values_of_def iter_at_def place_of_def example_sd_def example_cells_def upt_rec

lemma example_iterators:
  "fst (sd_run 0 [SPush_back 30, SInsert (At_slot 3 7) 5] example_sd) = [Ret No_value, Undef]"
  "fst (sd_run 0 [SInsert (At_slot 3 7) 5, SPop_front, STs_back] example_sd) = [Ret (Number 1), Ret No_value, Ret (Refers Dangling)]"
  by (simp_all add: run_simps)

theorem ts_deque_copies_agree_witness:
  "dq_run (0 :: nat) [Insert 1 5, Front, Erase_range 0 2] \<lparr>flag = False, payload = [10, 20]\<rparr> =
     ([Ret (Number 1), Ret (Refers (Elem 0)), Ret (Number 0)], \<lparr>flag = False, payload = [20]\<rparr>)"
proof -
  let ?ops = "[SInsert (At_slot 3 7) 5, SFront, SErase_range (At_slot 4 8) (At_slot 4 10)]"
  have "calls_along 0 ?ops example_sd = Some [Insert 1 5, Front, Erase_range 0 2]"
    by (simp add: run_simps)
  moreover have "sd_run 0 ?ops example_sd = ([Ret (Number 1), Ret (Refers (Elem 0)), Ret (Number 0)],
      \<lparr>flag = False, payload = \<lparr>slots = [(10, 20)], next_slot = 11, epoch = 4, end_epoch = 2\<rparr>\<rparr>)"
    by (simp add: run_simps)
  moreover have "\<not> flag example_sd" "payload example_sd = example_cells" "values_of example_cells = [10, 20]"
    by (simp_all add: example_sd_def example_cells_def values_of_def)
  ultimately show ?thesis using ts_deque_copies_agree [of example_sd 0 ?ops] example_cells_wf
    by (simp add: values_of_def)
qed

text \<open>Thread 0 completes its first call while the others have not begun.\<close>

lemma first_call_reach:
  fixes body :: "'op \<Rightarrow> 'q \<Rightarrow> 'r \<times> 'q"
  assumes "prog 0 = op # ops"
  shows "\<exists>s. spin_reach body (spin_init q0 prog) s \<and> payload (ob s) = snd (body op q0)"
proof -
  let ?s = "spin_init q0 prog :: ('op, 'r, 'q) spin_sys"
  let ?a = "?s\<lparr>pcs := (pcs ?s)(0 := Spinning op), todo := (todo ?s)(0 := ops)\<rparr>"
  let ?b = "?a\<lparr>ob := (ob ?a)\<lparr>flag := True\<rparr>, pcs := (pcs ?a)(0 := Entered op)\<rparr>"
  let ?c = "?b\<lparr>pcs := (pcs ?b)(0 := Read op (fst (body op q0)) (snd (body op q0)))\<rparr>"
  have a: "spin_step body ?s ?a" by (rule call) (simp_all add: spin_init_def assms)
  have b: "spin_step body ?a ?b" by (rule enter) (simp_all add: spin_init_def test_and_set_def)
  have c: "spin_step body ?b ?c" by (rule read) (simp_all add: spin_init_def)
  have d: "spin_step body ?c (?c\<lparr>ob := (ob ?c)\<lparr>payload := snd (body op q0)\<rparr>,
      pcs := (pcs ?c)(0 := Written op (fst (body op q0))), hist := hist ?c @ [(0, op, fst (body op q0))]\<rparr>)"
    by (rule store) simp
  from spin_more [OF spin_more [OF spin_more [OF spin_more [OF spin_start a] b] c] d] show ?thesis by fastforce
qed

theorem ts_deque_references_witness:
  "\<exists>s. spin_reach (sd_body 0) (spin_init example_cells (\<lambda>t. [SPush_front 1])) s \<and>
    slots (payload (ob s)) = [(8, 1), (4, 10), (7, 20)] \<and> read_ref 4 (payload (ob s)) = Ret (10 :: nat)"
proof -
  obtain s where s: "spin_reach (sd_body 0) (spin_init example_cells (\<lambda>t. [SPush_front 1])) s"
    "payload (ob s) = snd (sd_body 0 (SPush_front 1) example_cells)"
    using first_call_reach [of "\<lambda>t. [SPush_front (1 :: nat)]" "SPush_front 1" "[]" "sd_body 0" example_cells] by auto
  have "read_ref 4 example_cells = Ret (10 :: nat)" by (simp add: read_ref_def example_cells_def)
  from ts_deque_references [OF s(1) example_cells_wf this] have "read_ref 4 (payload (ob s)) = Ret 10" by simp
  moreover have "slots (payload (ob s)) = [(8, 1), (4, 10), (7, 20)]"
    unfolding s(2) by (simp add: sd_body_def sd_push_front_def guarded_free put_in_def new_slots_def example_cells_def)
  ultimately show ?thesis using s(1) by blast
qed

end
