(* ===== verification/CrashBase.thy ===== *)
theory CrashBase
  imports Formatting FileSys
begin

text \<open>
  What the parts of the crash handler (\<open>src/CrashHandler/\<close>) share: their state and calls on it, the
  memory of the crashed process, and the number formats of \<open>fmt\<close>. The crash handler is Windows
  code; the Windows, DIA and Zydis functions it calls are parameters of the definitions.
\<close>

section \<open>State and calls\<close>

text \<open>
  The static variables of \<open>PdbHandler.cpp\<close> and the balance of \<open>CoInitializeEx\<close> and \<open>CoUninitialize\<close> calls.
  A call gives an outcome and the state it leaves, so that what happened before an exception
  stays. The messages of the default logger are not modelled.
\<close>

record crash_state =
  hr :: "32 word"
  symcacheChecked :: bool
  symcacheValid :: bool
  com_balance :: int

type_synonym ('s, 'a) call = "'s \<Rightarrow> 'a outcome \<times> 's"

type_synonym 'a crash = "(crash_state, 'a) call"

definition fresh_crash :: crash_state where
  "fresh_crash = \<lparr>hr = - 1, symcacheChecked = False, symcacheValid = False, com_balance = 0\<rparr>"

definition cret :: "'a \<Rightarrow> ('s, 'a) call" where
  "cret a s = (Ret a, s)"

definition coutcome :: "'a outcome \<Rightarrow> ('s, 'a) call" where
  "coutcome r s = (r, s)"

definition cbind :: "('s, 'a) call \<Rightarrow> ('a \<Rightarrow> ('s, 'b) call) \<Rightarrow> ('s, 'b) call" where
  "cbind m f s =
     (case m s of
        (Ret a, t) \<Rightarrow> f a t
      | (Throw e, t) \<Rightarrow> (Throw e, t)
      | (Undef, t) \<Rightarrow> (Undef, t)
      | (Diverge, t) \<Rightarrow> (Diverge, t))"

text \<open>The report adds the lines of the crash log to the state; the calls that only look up symbols act on
  its first part.\<close>

record report_state =
  pdb :: crash_state
  log_lines :: "string list"

type_synonym 'a reporting = "(report_state, 'a) call"

definition on_pdb :: "'a crash \<Rightarrow> 'a reporting" where
  "on_pdb m s = (case m (pdb s) of (r, t) \<Rightarrow> (r, s\<lparr>pdb := t\<rparr>))"

definition say :: "string \<Rightarrow> unit reporting" where
  "say l s = (Ret (), s\<lparr>log_lines := log_lines s @ [l]\<rparr>)"

text \<open>\<open>catch (...)\<close>, on calls and on bare outcomes, and what \<open>noexcept\<close> functions and the parallel algorithms
  do with an exception: it ends the process.\<close>

definition ccatch :: "('s, 'a) call \<Rightarrow> (exn \<Rightarrow> ('s, 'a) call) \<Rightarrow> ('s, 'a) call" where
  "ccatch m h s = (case m s of (Throw e, t) \<Rightarrow> if e = Process_end then (Throw e, t) else h e t | r \<Rightarrow> r)"

definition ocatch :: "'a outcome \<Rightarrow> 'a outcome \<Rightarrow> 'a outcome" where
  "ocatch m h = (case m of Throw e \<Rightarrow> if e = Process_end then m else h | r \<Rightarrow> r)"

definition noexcept_call :: "('s, 'a) call \<Rightarrow> ('s, 'a) call" where
  "noexcept_call m = ccatch m (\<lambda>e s. (Throw Process_end, s))"

fun cmap :: "('a \<Rightarrow> ('s, 'b) call) \<Rightarrow> 'a list \<Rightarrow> ('s, 'b list) call" where
  "cmap f [] = cret []"
| "cmap f (x # xs) = cbind (f x) (\<lambda>y. cbind (cmap f xs) (\<lambda>ys. cret (y # ys)))"

fun ceach :: "('a \<Rightarrow> ('s, unit) call) \<Rightarrow> 'a list \<Rightarrow> ('s, unit) call" where
  "ceach f [] = cret ()"
| "ceach f (x # xs) = cbind (f x) (\<lambda>_. ceach f xs)"

named_theorems crash_simps \<open>sequencing of calls of the crash handler\<close>

lemma cbind_simps [simp, crash_simps]:
  "cbind (cret a) f = f a"
  "cbind (coutcome (Ret a)) f = f a"
  "cbind (coutcome (Throw e)) f = coutcome (Throw e)"
  "cbind (coutcome Undef) f = coutcome Undef"
  "cbind (coutcome Diverge) f = coutcome Diverge"
  by (simp_all add: cbind_def cret_def coutcome_def fun_eq_iff)

lemma cbind_run: "m s = (Ret a, t) \<Longrightarrow> cbind m f s = f a t"
  by (simp add: cbind_def)

lemma cret_run [simp, crash_simps]: "cret a s = (Ret a, s)" "coutcome r s = (r, s)"
  "say l t = (Ret (), t\<lparr>log_lines := log_lines t @ [l]\<rparr>)"
  by (simp_all add: cret_def coutcome_def say_def)

lemma cbind_say [simp, crash_simps]: "cbind (say l) f s = f () (s\<lparr>log_lines := log_lines s @ [l]\<rparr>)"
  by (simp add: cbind_def)

lemma cbind_eq_Ret: "cbind m f s = (Ret b, u) \<longleftrightarrow> (\<exists>a t. m s = (Ret a, t) \<and> f a t = (Ret b, u))"
  by (auto simp: cbind_def split: prod.split outcome.split)

lemma ccatch_simps [simp, crash_simps]:
  "m s = (Ret a, t) \<Longrightarrow> ccatch m h s = (Ret a, t)"
  "m s = (Undef, t) \<Longrightarrow> ccatch m h s = (Undef, t)"
  "m s = (Diverge, t) \<Longrightarrow> ccatch m h s = (Diverge, t)"
  "m s = (Throw e, t) \<Longrightarrow> e \<noteq> Process_end \<Longrightarrow> ccatch m h s = h e t"
  "m s = (Throw Process_end, t) \<Longrightarrow> ccatch m h s = (Throw Process_end, t)"
  by (simp_all add: ccatch_def)

lemma ocatch_simps [simp, crash_simps]:
  "ocatch (Ret a) h = Ret a" "ocatch Undef h = Undef" "ocatch Diverge h = Diverge"
  "e \<noteq> Process_end \<Longrightarrow> ocatch (Throw e) h = h" "ocatch (Throw Process_end) h = Throw Process_end"
  by (simp_all add: ocatch_def)

lemma on_pdb_cret [simp, crash_simps]: "on_pdb (cret a) = cret a" "on_pdb (coutcome r) = coutcome r"
  by (simp_all add: on_pdb_def cret_def coutcome_def fun_eq_iff)

lemma on_pdb_run: "m (pdb s) = (r, t) \<Longrightarrow> on_pdb m s = (r, s\<lparr>pdb := t\<rparr>)"
  by (simp add: on_pdb_def)

text \<open>A sequence of calls that all return: their results and the lines they log, in order.\<close>

lemma cmap_run:
  assumes "\<And>x s. x \<in> set xs \<Longrightarrow> f x s = (Ret (g x), s)"
  shows "cmap f xs s = (Ret (map g xs), s)"
  using assms by (induction xs) (simp_all add: cbind_def)

lemma cmap_length: "cmap f xs s = (Ret ys, t) \<Longrightarrow> length ys = length xs"
  by (induction xs arbitrary: s ys) (auto simp: cbind_eq_Ret)

lemma ceach_say: "ceach (\<lambda>x. say (g x)) xs s = (Ret (), s\<lparr>log_lines := log_lines s @ map g xs\<rparr>)"
  by (induction xs arbitrary: s) simp_all

lemma cmap_append:
  "cmap f (xs @ ys) = cbind (cmap f xs) (\<lambda>us. cbind (cmap f ys) (\<lambda>vs. cret (us @ vs)))"
proof (induction xs)
  case Nil
  then show ?case by (simp add: cbind_def fun_eq_iff split: outcome.split prod.split)
next
  case (Cons x xs)
  then show ?case by (simp add: cbind_def fun_eq_iff split: outcome.split prod.split)
qed

section \<open>Number formats\<close>

definition hex_char :: "nat \<Rightarrow> char" where
  "hex_char d = char_of (if d < 10 then 48 + d else 55 + d)"

definition hex_value :: "char \<Rightarrow> nat" where
  "hex_value c = (if of_char c < (65 :: nat) then of_char c - 48 else of_char c - 55)"

text \<open>\<open>{:X}\<close>\<close>

fun show_hex :: "nat \<Rightarrow> string" where
  "show_hex n = (if n < 16 then [hex_char n] else show_hex (n div 16) @ [hex_char (n mod 16)])"

declare show_hex.simps [simp del]

definition read_hex :: "string \<Rightarrow> nat" where
  "read_hex s = foldl (\<lambda>acc c. 16 * acc + hex_value c) 0 s"

text \<open>\<open>{:0wX}\<close>, \<open>{:>w}\<close> (\<open>setw\<close> of the prelude) and \<open>{:<w}\<close>\<close>

definition zero_pad :: "nat \<Rightarrow> string \<Rightarrow> string" where
  "zero_pad w s = replicate (w - length s) (CHR ''0'') @ s"

definition left_align :: "nat \<Rightarrow> string \<Rightarrow> string" where
  "left_align w s = s @ replicate (w - length s) (CHR '' '')"

lemma hex_roundtrip: "d < 16 \<Longrightarrow> hex_value (hex_char d) = d"
  by (auto simp: hex_value_def hex_char_def)

lemma read_hex_snoc: "read_hex (s @ [c]) = 16 * read_hex s + hex_value c"
  by (simp add: read_hex_def)

lemma read_show_hex [simp]: "read_hex (show_hex n) = n"
proof (induction n rule: show_hex.induct)
  case (1 n)
  show ?case
  proof (cases "n < 16")
    case True
    then show ?thesis by (subst show_hex.simps) (simp add: read_hex_def hex_roundtrip)
  next
    case False
    with "1" show ?thesis by (subst show_hex.simps) (simp add: read_hex_snoc hex_roundtrip)
  qed
qed

lemma show_hex_length: "n < 16 ^ k \<Longrightarrow> 0 < k \<Longrightarrow> length (show_hex n) \<le> k"
proof (induction k arbitrary: n)
  case (Suc k)
  show ?case
  proof (cases "n < 16")
    case True
    then show ?thesis by (subst show_hex.simps) simp
  next
    case False
    with Suc.prems have "0 < k" by (cases k) auto
    moreover from Suc.prems have "n div 16 < 16 ^ k" by (simp add: less_mult_imp_div_less mult.commute)
    ultimately have "length (show_hex (n div 16)) \<le> k" using Suc.IH by simp
    with False show ?thesis by (subst show_hex.simps) simp
  qed
qed simp

lemma show_hex_mono: "m \<le> n \<Longrightarrow> length (show_hex m) \<le> length (show_hex n)"
proof (induction n arbitrary: m rule: show_hex.induct)
  case (1 n)
  show ?case
  proof (cases "m < 16")
    case True
    then have "length (show_hex m) = 1" by (subst show_hex.simps) simp
    moreover have "1 \<le> length (show_hex n)" by (subst show_hex.simps) simp
    ultimately show ?thesis by simp
  next
    case False
    then have "length (show_hex (m div 16)) \<le> length (show_hex (n div 16))" using 1 by (simp add: div_le_mono)
    then show ?thesis using False 1(2) by (subst (1 2) show_hex.simps) simp
  qed
qed

lemma show_nat_mono: "m \<le> n \<Longrightarrow> length (show_nat m) \<le> length (show_nat n)"
proof (induction n arbitrary: m rule: show_nat.induct)
  case (1 n)
  show ?case
  proof (cases "m < 10")
    case True
    then have "length (show_nat m) = 1" by (subst show_nat.simps) simp
    moreover have "1 \<le> length (show_nat n)" by (subst show_nat.simps) simp
    ultimately show ?thesis by simp
  next
    case False
    then have "length (show_nat (m div 10)) \<le> length (show_nat (n div 10))" using 1 by (simp add: div_le_mono)
    then show ?thesis using False 1(2) by (subst (1 2) show_nat.simps) simp
  qed
qed

lemma length_pads [simp]: "length (zero_pad w s) = max w (length s)" "length (left_align w s) = max w (length s)"
  by (simp_all add: zero_pad_def left_align_def max_def)

section \<open>The crashed process\<close>

text \<open>
  Memory by byte, unmapped where \<open>None\<close>. Reading unmapped memory raises an access violation; whether
  \<open>catch (...)\<close> sees it depends on the compiler option \<open>/EHa\<close> (\<open>eha\<close>): the presets build with \<open>/EHsc\<close>,
  under which it does not and the behaviour is undefined. Zydis and \<open>UnDecorateSymbolName\<close> are functions.
\<close>

record process =
  memory :: "64 word \<Rightarrow> 8 word option"
  eha :: bool
  disassemble :: "64 word \<Rightarrow> 8 word list \<Rightarrow> string option"
  undecorate :: "string \<Rightarrow> string"

definition peek :: "process \<Rightarrow> 64 word \<Rightarrow> 8 word outcome" where
  "peek p a = (case memory p a of Some b \<Rightarrow> Ret b | None \<Rightarrow> if eha p then Throw Access_violation else Undef)"

fun peek_bytes :: "process \<Rightarrow> 64 word \<Rightarrow> nat \<Rightarrow> 8 word list outcome" where
  "peek_bytes p a 0 = Ret []"
| "peek_bytes p a (Suc n) = obind (peek p a) (\<lambda>b. obind (peek_bytes p (a + 1) n) (\<lambda>bs. Ret (b # bs)))"

text \<open>Little-endian numbers.\<close>

fun le_value :: "8 word list \<Rightarrow> nat" where
  "le_value [] = 0"
| "le_value (b # bs) = unat b + 256 * le_value bs"

definition peek64 :: "process \<Rightarrow> 64 word \<Rightarrow> 64 word outcome" where
  "peek64 p a = obind (peek_bytes p a 8) (\<lambda>bs. Ret (word_of_nat (le_value bs)))"

definition peek32 :: "process \<Rightarrow> 64 word \<Rightarrow> 32 word outcome" where
  "peek32 p a = obind (peek_bytes p a 4) (\<lambda>bs. Ret (word_of_nat (le_value bs)))"

text \<open>The reads unrolled, and \<open>peek\<close> on mapped memory.\<close>

lemma peek_bytes_4: "peek_bytes p a 4 = obind (peek p a) (\<lambda>b0. obind (peek p (a + 1)) (\<lambda>b1. obind (peek p (a + 2)) (\<lambda>b2.
    obind (peek p (a + 3)) (\<lambda>b3. Ret [b0, b1, b2, b3]))))"
  by (simp add: numeral_eq_Suc obind_assoc ac_simps)

lemma peek_bytes_8: "peek_bytes p a 8 = obind (peek_bytes p a 4) (\<lambda>u. obind (peek_bytes p (a + 4) 4) (\<lambda>v. Ret (u @ v)))"
  by (simp add: numeral_eq_Suc obind_assoc ac_simps)

lemma peek_eq_Ret: "peek p a = Ret b \<longleftrightarrow> memory p a = Some b"
  by (auto simp: peek_def split: option.split)

end
