(* ===== verification/CrashUtil.thy ===== *)
theory CrashUtil
  imports CrashBase MainProgram
begin

unbundle bit_operations_syntax

text \<open>
  \<open>CrashHandler/PCH.h\<close>: the class template \<open>stl::enumeration\<close>, which keeps a set of enumerators as the
  bits of an integer, pointer adjustment and the string conversions; and the records of run-time
  type information of \<open>CrashHandler/Modules/ModuleHandler.h\<close>, whose attributes are such sets.
\<close>

section \<open>enumeration\<close>

text \<open>
  The state is the member \<open>_impl\<close>, an unsigned integer; an enumerator is its underlying value. The
  arguments of \<open>set\<close>, \<open>reset\<close>, \<open>any\<close>, \<open>all\<close> and \<open>none\<close> are folded with \<open>|\<close> from the right; a fold over no
  argument does not compile.
\<close>

fun fold_or :: "'w::len word list \<Rightarrow> 'w word" where
  "fold_or [] = 0"
| "fold_or [v] = v"
| "fold_or (v # u # us) = v OR fold_or (u # us)"

definition enum_default :: "'w::len word" where
  "enum_default = 0"

definition enum_convert :: "'u::len word \<Rightarrow> 'w::len word" where
  "enum_convert a_rhs = ucast a_rhs"

definition enum_ctor :: "'w::len word list \<Rightarrow> 'w word" where
  "enum_ctor a_values = fold_or a_values"

definition enum_assign :: "'w::len word \<Rightarrow> 'w word \<Rightarrow> 'w word" where
  "enum_assign a_value impl = a_value"

definition enum_bool :: "'w::len word \<Rightarrow> bool" where
  "enum_bool impl \<longleftrightarrow> impl \<noteq> 0"

definition enum_get :: "'w::len word \<Rightarrow> 'w word" where
  "enum_get impl = impl"

definition enum_underlying :: "'w::len word \<Rightarrow> 'w word" where
  "enum_underlying impl = impl"

definition enum_set :: "'w::len word list \<Rightarrow> 'w word \<Rightarrow> 'w word" where
  "enum_set a_args impl = impl OR fold_or a_args"

definition enum_reset :: "'w::len word list \<Rightarrow> 'w word \<Rightarrow> 'w word" where
  "enum_reset a_args impl = impl AND NOT (fold_or a_args)"

definition enum_any :: "'w::len word list \<Rightarrow> 'w word \<Rightarrow> bool" where
  "enum_any a_args impl \<longleftrightarrow> impl AND fold_or a_args \<noteq> 0"

definition enum_all :: "'w::len word list \<Rightarrow> 'w word \<Rightarrow> bool" where
  "enum_all a_args impl \<longleftrightarrow> impl AND fold_or a_args = fold_or a_args"

definition enum_none :: "'w::len word list \<Rightarrow> 'w word \<Rightarrow> bool" where
  "enum_none a_args impl \<longleftrightarrow> impl AND fold_or a_args = 0"

text \<open>One call, and a sequence of calls with the answers of those that answer.\<close>

datatype 'v enum_op =
    Enum_assign 'v | Enum_set "'v list" | Enum_reset "'v list"
  | Enum_bool | Enum_any "'v list" | Enum_all "'v list" | Enum_none "'v list"

fun enum_exec :: "'w::len word enum_op \<Rightarrow> 'w word \<Rightarrow> 'w word \<times> bool option" where
  "enum_exec (Enum_assign v) w = (enum_assign v w, None)"
| "enum_exec (Enum_set vs) w = (enum_set vs w, None)"
| "enum_exec (Enum_reset vs) w = (enum_reset vs w, None)"
| "enum_exec Enum_bool w = (w, Some (enum_bool w))"
| "enum_exec (Enum_any vs) w = (w, Some (enum_any vs w))"
| "enum_exec (Enum_all vs) w = (w, Some (enum_all vs w))"
| "enum_exec (Enum_none vs) w = (w, Some (enum_none vs w))"

fun run_ops :: "('op \<Rightarrow> 's \<Rightarrow> 's \<times> bool option) \<Rightarrow> 'op list \<Rightarrow> 's \<Rightarrow> 's \<times> bool option list" where
  "run_ops f [] s = (s, [])"
| "run_ops f (x # xs) s = (case f x s of (t, r) \<Rightarrow> case run_ops f xs t of (u, rs) \<Rightarrow> (u, r # rs))"

text \<open>The specification: a set of positions.\<close>

definition flags :: "'w::len word \<Rightarrow> nat set" where
  "flags w = {n. bit w n}"

definition flags_of :: "'w::len word list \<Rightarrow> nat set" where
  "flags_of vs = (\<Union>v \<in> set vs. flags v)"

fun flags_exec :: "'w::len word enum_op \<Rightarrow> nat set \<Rightarrow> nat set \<times> bool option" where
  "flags_exec (Enum_assign v) A = (flags v, None)"
| "flags_exec (Enum_set vs) A = (A \<union> flags_of vs, None)"
| "flags_exec (Enum_reset vs) A = (A - flags_of vs, None)"
| "flags_exec Enum_bool A = (A, Some (A \<noteq> {}))"
| "flags_exec (Enum_any vs) A = (A, Some (A \<inter> flags_of vs \<noteq> {}))"
| "flags_exec (Enum_all vs) A = (A, Some (flags_of vs \<subseteq> A))"
| "flags_exec (Enum_none vs) A = (A, Some (A \<inter> flags_of vs = {}))"

named_theorems flag_simps \<open>words as sets of bits\<close>

lemma flags_simps [flag_simps]:
  "flags (v OR w) = flags v \<union> flags w" "flags (v AND w) = flags v \<inter> flags w"
  "flags (0 :: 'w::len word) = {}"
  for v w :: "'w::len word"
  by (auto simp: flags_def bit_simps)

lemma flags_eq_iff: "v = w \<longleftrightarrow> flags v = flags w"
  by (auto simp: flags_def intro: bit_eqI)

lemma flags_fold_or [flag_simps]: "flags (fold_or vs) = flags_of vs"
  by (induction vs rule: fold_or.induct) (simp_all add: flags_of_def flag_simps)

lemma flags_enum [flag_simps]:
  "flags (enum_set vs w) = flags w \<union> flags_of vs" "flags (enum_reset vs w) = flags w - flags_of vs"
proof -
  have "flags (w AND NOT (fold_or vs)) = flags w - flags (fold_or vs)"
    by (auto simp: flags_def bit_simps dest: bit_imp_le_length)
  then show "flags (enum_reset vs w) = flags w - flags_of vs" by (simp add: enum_reset_def flags_fold_or)
qed (simp add: enum_set_def flag_simps)

lemma enum_exec_flags:
  "flags_exec x (flags w) = (flags (fst (enum_exec x w)), snd (enum_exec x w))"
proof (cases x)
  case (Enum_all vs)
  have "enum_all vs w \<longleftrightarrow> flags_of vs \<subseteq> flags w"
    unfolding enum_all_def flags_eq_iff by (auto simp: flag_simps)
  with Enum_all show ?thesis by simp
qed (simp_all add: enum_assign_def enum_bool_def enum_any_def enum_none_def flag_simps flags_eq_iff)

section \<open>adjust_pointer, utf8_to_utf16, utf16_to_utf8\<close>

text \<open>
  A null pointer stays null. The conversions are those of the \<open>"C"\<close> locale, in which a character
  is one byte; a wide text is a list of 16-bit units, and both are read up to the first zero.
\<close>

definition adjust_pointer :: "64 word \<Rightarrow> 64 word \<Rightarrow> 64 word" where
  "adjust_pointer a_ptr a_adjust = (if a_ptr \<noteq> 0 then a_ptr + a_adjust else 0)"

definition mbs_to_wcs :: "string \<Rightarrow> 16 word list" where
  "mbs_to_wcs s = map (\<lambda>c. word_of_nat (of_char c)) (c_str s)"

definition wcs_to_mbs :: "16 word list \<Rightarrow> string option" where
  "wcs_to_mbs ws = (if list_all (\<lambda>w. w < 256) ws then Some (map (\<lambda>w. char_of (unat w)) ws) else None)"

definition utf8_to_utf16 :: "string \<Rightarrow> 16 word list option" where
  "utf8_to_utf16 a_in =
     (let len = length (mbs_to_wcs a_in) in if len = 0 then None else Some (take len (mbs_to_wcs a_in)))"

definition utf16_to_utf8 :: "16 word list \<Rightarrow> string option" where
  "utf16_to_utf8 a_in =
     (let input = takeWhile (\<lambda>w. w \<noteq> 0) a_in;
          size = (length input + 1) * 2;
          out = (case wcs_to_mbs input of
                   Some s \<Rightarrow> s @ replicate (size - length s) (CHR 0x00)
                 | None \<Rightarrow> replicate size (CHR 0x00))
      in if c_str out \<noteq> [] then None else Some out)"

lemma wcs_to_mbs_first:
  "ws \<noteq> [] \<and> wcs_to_mbs ws \<noteq> None \<Longrightarrow> \<exists>w r t. ws = w # r \<and> w < 256 \<and> wcs_to_mbs ws = Some (char_of (unat w) # t)"
  by (cases ws) (auto simp: wcs_to_mbs_def split: if_splits)

section \<open>Run-time type information\<close>

datatype base_attribute =
    kNone | kNotVisible | kAmbiguous | kPrivate | kPrivateOrProtectedBase | kVirtual | kNonPolymorphic
  | kHasHierarchyDescriptor

fun base_attribute_value :: "base_attribute \<Rightarrow> 32 word" where
  "base_attribute_value kNone = 0"
| "base_attribute_value kNotVisible = push_bit 0 1"
| "base_attribute_value kAmbiguous = push_bit 1 1"
| "base_attribute_value kPrivate = push_bit 2 1"
| "base_attribute_value kPrivateOrProtectedBase = push_bit 3 1"
| "base_attribute_value kVirtual = push_bit 4 1"
| "base_attribute_value kNonPolymorphic = push_bit 5 1"
| "base_attribute_value kHasHierarchyDescriptor = push_bit 6 1"

datatype hierarchy_attribute = kNoInheritance | kMultipleInheritance | kVirtualInheritance | kAmbiguousInheritance

fun hierarchy_attribute_value :: "hierarchy_attribute \<Rightarrow> 32 word" where
  "hierarchy_attribute_value kNoInheritance = 0"
| "hierarchy_attribute_value kMultipleInheritance = push_bit 0 1"
| "hierarchy_attribute_value kVirtualInheritance = push_bit 1 1"
| "hierarchy_attribute_value kAmbiguousInheritance = push_bit 2 1"

text \<open>\<open>RVA\<close>: a number that says it can be dereferenced when it is not zero, but whose \<open>get\<close> is null.\<close>

record rva =
  rva_offset :: "32 word"

definition rva_get :: "rva \<Rightarrow> 64 word" where
  "rva_get r = 0"

definition rva_is_good :: "rva \<Rightarrow> bool" where
  "rva_is_good r \<longleftrightarrow> rva_offset r \<noteq> 0"

definition rva_deref :: "process \<Rightarrow> rva \<Rightarrow> 8 word outcome" where
  "rva_deref p r = peek p (rva_get r)"

record pmd =
  mDisp :: "32 word"
  pDisp :: "32 word"
  vDisp :: "32 word"

record base_class_descriptor =
  base_type :: rva
  numContainedBases :: "32 word"
  base_pmd :: pmd
  base_attributes :: "32 word"

record class_hierarchy_descriptor =
  hierarchy_signature :: "32 word"
  hierarchy_attributes :: "32 word"
  numBaseClasses :: "32 word"
  baseClassArray :: rva

record complete_object_locator =
  col_signature :: "32 word"
  col_offset :: "32 word"
  ctorDispOffset :: "32 word"
  typeDescriptor :: rva
  classDescriptor :: rva

text \<open>The attributes are different bits, so that each can be set, reset and tested by itself.\<close>

lemma flags_bit: "flags (push_bit n 1 :: 32 word) = (if n < 32 then {n} else {})"
  by (auto simp: flags_def bit_simps)

fun base_attribute_bit :: "base_attribute \<Rightarrow> nat option" where
  "base_attribute_bit kNone = None"
| "base_attribute_bit kNotVisible = Some 0"
| "base_attribute_bit kAmbiguous = Some 1"
| "base_attribute_bit kPrivate = Some 2"
| "base_attribute_bit kPrivateOrProtectedBase = Some 3"
| "base_attribute_bit kVirtual = Some 4"
| "base_attribute_bit kNonPolymorphic = Some 5"
| "base_attribute_bit kHasHierarchyDescriptor = Some 6"

lemma base_attribute_flags [flag_simps]: "flags (base_attribute_value a) = set_option (base_attribute_bit a)"
  by (cases a) (simp_all only: base_attribute_value.simps base_attribute_bit.simps flags_bit flags_simps(3)
      option.set(1) option.set(2) less_numeral_simps arith_simps if_True, simp_all)

lemma base_attribute_bit_inj: "base_attribute_bit a = base_attribute_bit b \<longleftrightarrow> a = b"
  by (cases a; cases b) auto

lemma base_attribute_independent:
  assumes "b \<noteq> kNone"
  shows "enum_all [base_attribute_value b] (enum_set [base_attribute_value a] w) \<longleftrightarrow>
      a = b \<or> enum_all [base_attribute_value b] w"
    and "enum_all [base_attribute_value b] (enum_reset [base_attribute_value a] w) \<longleftrightarrow>
      a \<noteq> b \<and> enum_all [base_attribute_value b] w"
proof -
  obtain n where n: "base_attribute_bit b = Some n" using assms by (cases b) auto
  have all: "enum_all [base_attribute_value b] v \<longleftrightarrow> n \<in> flags v" for v
    unfolding enum_all_def flags_eq_iff by (auto simp: flag_simps n flags_of_def)
  show "enum_all [base_attribute_value b] (enum_set [base_attribute_value a] w) \<longleftrightarrow>
      a = b \<or> enum_all [base_attribute_value b] w"
    using base_attribute_bit_inj [of a b] n
    by (auto simp: all flag_simps flags_of_def)
  show "enum_all [base_attribute_value b] (enum_reset [base_attribute_value a] w) \<longleftrightarrow>
      a \<noteq> b \<and> enum_all [base_attribute_value b] w"
    using base_attribute_bit_inj [of a b] n
    by (auto simp: all flag_simps flags_of_def)
qed

section \<open>Properties\<close>

text \<open>C40: any sequence of calls on an \<open>enumeration\<close> does to the word, and answers, what the same calls do
  to the set of its bits: \<open>set\<close> adds, \<open>reset\<close> takes away, \<open>any\<close>, \<open>all\<close> and \<open>none\<close> test for a common element,
  inclusion and disjointness.\<close>

theorem enumeration_refines_sets:
  "run_ops flags_exec xs (flags w) = map_prod flags id (run_ops enum_exec xs w)"
proof (induction xs arbitrary: w)
  case (Cons x xs)
  obtain t r where step: "enum_exec x w = (t, r)" by fastforce
  then have "flags_exec x (flags w) = (flags t, r)" by (simp add: enum_exec_flags)
  with step Cons show ?case by (simp split: prod.split)
qed simp

text \<open>\<open>utf16_to_utf8\<close> fails on every text it can convert, because its final test is inverted, while
  \<open>utf8_to_utf16\<close> gives back the text.\<close>

theorem utf_conversions:
  "utf16_to_utf8 ws =
     (let text = takeWhile (\<lambda>w. w \<noteq> 0) ws
      in if text \<noteq> [] \<and> wcs_to_mbs text \<noteq> None then None else Some (replicate ((length text + 1) * 2) (CHR 0x00))) \<and>
   map_option wcs_to_mbs (utf8_to_utf16 s) = (if c_str s = [] then None else Some (Some (c_str s)))"
proof
  let ?text = "takeWhile (\<lambda>w. w \<noteq> 0) ws"
  have zeros: "c_str (replicate n (CHR 0x00)) = []" for n by (cases n) (simp_all add: c_str_def)
  show "utf16_to_utf8 ws =
     (let text = takeWhile (\<lambda>w. w \<noteq> 0) ws
      in if text \<noteq> [] \<and> wcs_to_mbs text \<noteq> None then None else Some (replicate ((length text + 1) * 2) (CHR 0x00)))"
  proof (cases "?text \<noteq> [] \<and> wcs_to_mbs ?text \<noteq> None")
    case True
    then obtain w r t where tx: "?text = w # r" "w < 256" "wcs_to_mbs ?text = Some (char_of (unat w) # t)"
      using wcs_to_mbs_first by blast
    have "w \<in> set ?text" unfolding tx(1) by simp
    then have "w \<noteq> 0" by (rule set_takeWhileD [THEN conjunct2])
    moreover note tx(2)
    ultimately have "char_of (unat w) \<noteq> CHR 0x00" 
      by (simp add: word_less_nat_alt unat_eq_0 char_of_eq_iff take_bit_nat_eq_self unat_gt_0)
    then have "c_str (char_of (unat w) # t @ z) \<noteq> []" for z by (simp add: c_str_def)
    with True tx show ?thesis by (simp add: utf16_to_utf8_def Let_def)
  next
    case False
    then show ?thesis by (auto simp: utf16_to_utf8_def Let_def zeros wcs_to_mbs_def c_str_def)
  qed
next
  have "of_char c mod 65536 = (of_char c :: nat)" for c :: char
    using nat_of_char_less_256 [of c] by (intro mod_less) linarith
  then have "wcs_to_mbs (map (\<lambda>c. word_of_nat (of_char c)) xs) = Some xs" for xs
    by (induction xs) (auto simp: wcs_to_mbs_def word_less_nat_alt unat_of_nat split: if_splits)
  then show "map_option wcs_to_mbs (utf8_to_utf16 s) = (if c_str s = [] then None else Some (Some (c_str s)))"
    by (simp add: utf8_to_utf16_def mbs_to_wcs_def Let_def)
qed

end
