(* ===== verification/CodePages.thy ===== *)
theory CodePages
  imports CrashUtil
begin

text \<open>
  The conversions of \<open>CrashHandler/PDB/PdbHandler.cpp\<close> between the wide strings of COM and \<open>std::string\<close>. The
  two Windows functions they call are the record \<open>code_page\<close>: from the text and the size of the buffer, 0
  for none, to the returned number and what is written. A \<open>BSTR\<close> is the list of its units; the null
  pointer counts as the empty one, as for \<open>SysStringLen\<close>.
\<close>

record code_page =
  WideCharToMultiByte :: "16 word list \<Rightarrow> nat \<Rightarrow> nat \<times> string"
  MultiByteToWideChar :: "string \<Rightarrow> nat \<Rightarrow> nat \<times> 16 word list"

definition written_to :: "'a list \<Rightarrow> 'a list \<Rightarrow> 'a list" where
  "written_to buf t = take (length buf) (t @ drop (length t) buf)"

definition ConvertWCSToMBS :: "code_page \<Rightarrow> 16 word list \<Rightarrow> nat \<Rightarrow> string" where
  "ConvertWCSToMBS cp pstr wslen =
     (let len = fst (WideCharToMultiByte cp (take wslen pstr) 0);
          dblstr = replicate len (CHR 0x00)
      in written_to dblstr (snd (WideCharToMultiByte cp (take wslen pstr) len)))"

definition ConvertBSTRToMBS :: "code_page \<Rightarrow> 16 word list \<Rightarrow> string" where
  "ConvertBSTRToMBS cp bstr = ConvertWCSToMBS cp bstr (length bstr)"

text \<open>The units of a new \<open>BSTR\<close> are not initialised; one that is not written is not defined.\<close>

definition ConvertMBSToBSTR :: "code_page \<Rightarrow> string \<Rightarrow> 16 word list outcome" where
  "ConvertMBSToBSTR cp str =
     (let wslen = fst (MultiByteToWideChar cp str 0);
          wsdata = snd (MultiByteToWideChar cp str wslen)
      in if length wsdata < wslen then Undef else Ret (take wslen wsdata))"

text \<open>
  Documented behaviour: without a buffer the number of characters needed, into one that is large enough
  the text, otherwise an error (0); an empty text is an error too. \<open>enc\<close> and \<open>dec\<close> are the code page.
\<close>

definition fills :: "('a list \<Rightarrow> 'b list) \<Rightarrow> ('a list \<Rightarrow> nat \<Rightarrow> nat \<times> 'b list) \<Rightarrow> bool" where
  "fills conv f \<longleftrightarrow>
     (\<forall>xs n. f xs n =
        (if xs = [] then (0, [])
         else if n = 0 then (length (conv xs), [])
         else if length (conv xs) \<le> n then (length (conv xs), conv xs)
         else (0, take n (conv xs))))"

definition converts :: "code_page \<Rightarrow> (16 word list \<Rightarrow> string) \<Rightarrow> (string \<Rightarrow> 16 word list) \<Rightarrow> bool" where
  "converts cp enc dec \<longleftrightarrow> fills enc (WideCharToMultiByte cp) \<and> fills dec (MultiByteToWideChar cp)"

lemma ConvertBSTRToMBS_eq:
  assumes "fills enc (WideCharToMultiByte cp)"
  shows "ConvertBSTRToMBS cp ws = (if ws = [] then [] else enc ws)"
proof -
  have f: "WideCharToMultiByte cp [] n = (0, [])" "ws \<noteq> [] \<Longrightarrow> WideCharToMultiByte cp ws 0 = (length (enc ws), [])"
    "ws \<noteq> [] \<Longrightarrow> WideCharToMultiByte cp ws (length (enc ws)) = (length (enc ws), if enc ws = [] then [] else enc ws)" for n
    using assms by (simp_all add: fills_def)
  show ?thesis
    by (cases "ws = []") (simp_all add: ConvertBSTRToMBS_def ConvertWCSToMBS_def written_to_def f)
qed

lemma ConvertMBSToBSTR_eq:
  assumes "fills dec (MultiByteToWideChar cp)"
  shows "ConvertMBSToBSTR cp s = Ret (if s = [] then [] else dec s)"
proof -
  have f: "MultiByteToWideChar cp [] n = (0, [])" "s \<noteq> [] \<Longrightarrow> MultiByteToWideChar cp s 0 = (length (dec s), [])"
    "s \<noteq> [] \<Longrightarrow> MultiByteToWideChar cp s (length (dec s)) = (length (dec s), if dec s = [] then [] else dec s)" for n
    using assms by (simp_all add: fills_def)
  show ?thesis
    by (cases "s = []") (simp_all add: ConvertMBSToBSTR_def f)
qed

section \<open>The code page of ASCII\<close>

definition ascii_enc :: "16 word list \<Rightarrow> string" where
  "ascii_enc ws = map (\<lambda>w. if w < 128 then char_of (unat w) else CHR ''?'') ws"

definition ascii_dec :: "string \<Rightarrow> 16 word list" where
  "ascii_dec s = map (\<lambda>c. word_of_nat (of_char c)) s"

definition filling :: "('a list \<Rightarrow> 'b list) \<Rightarrow> 'a list \<Rightarrow> nat \<Rightarrow> nat \<times> 'b list" where
  "filling conv xs n =
     (if xs = [] then (0, [])
      else if n = 0 then (length (conv xs), [])
      else if length (conv xs) \<le> n then (length (conv xs), conv xs)
      else (0, take n (conv xs)))"

definition ascii_page :: code_page where
  "ascii_page = \<lparr>WideCharToMultiByte = filling ascii_enc, MultiByteToWideChar = filling ascii_dec\<rparr>"

lemma ascii_converts: "converts ascii_page ascii_enc ascii_dec"
  by (simp add: converts_def fills_def filling_def ascii_page_def)

section \<open>Properties\<close>



end
