(* ===== verification/PdbSymbols.thy ===== *)
theory PdbSymbols
  imports CrashBase
begin

text \<open>
  \<open>CrashHandler/PDB/PdbHandler.cpp\<close>: the symbol, file and line of an address, from the program
  database of its module. The DIA and COM functions are the record \<open>dia\<close>: results are \<open>HRESULT\<close>s of
  32 bits, objects are handles, and a function that fills an object on \<open>S_OK\<close> gives an option.
\<close>

section \<open>The interface of DIA and COM\<close>

text \<open>
  \<open>next_lines celt e\<close> is \<open>Next(celt, ...)\<close> of a line enumerator in state \<open>e\<close>: whether it returned \<open>S_OK\<close>,
  the fetched lines, and the state after it. \<open>next_symbol\<close> is the symbol enumerator's \<open>Next(1, ...)\<close>.
\<close>

record dia =
  co_initialize :: "int \<Rightarrow> 32 word"
  create_local :: "32 word"
  create_registered :: "32 word"
  load_data :: "string \<Rightarrow> string \<Rightarrow> 32 word"
  open_session :: "string \<Rightarrow> 32 word"
  global_scope :: "string \<Rightarrow> 32 word"
  enum_tables :: "string \<Rightarrow> 32 word"
  symbols_by_addr :: "string \<Rightarrow> 32 word"
  find_public :: "string \<Rightarrow> 32 word \<Rightarrow> nat option"
  find_function :: "string \<Rightarrow> 32 word \<Rightarrow> nat option"
  target_rva :: "nat \<Rightarrow> 32 word option"
  symbol_name :: "nat \<Rightarrow> string"
  symbol_rva :: "nat \<Rightarrow> 32 word"
  symbol_length :: "nat \<Rightarrow> 64 word option"
  find_lines :: "string \<Rightarrow> 32 word \<Rightarrow> 32 word \<Rightarrow> nat option"
  next_lines :: "nat \<Rightarrow> nat \<Rightarrow> bool \<times> nat list \<times> nat"
  source_file :: "nat \<Rightarrow> string option"
  line_number :: "nat \<Rightarrow> 32 word option"
  first_symbol :: "string \<Rightarrow> (nat \<times> nat) option"
  next_symbol :: "nat \<Rightarrow> 32 word \<times> nat option \<times> nat"
  error_text :: "32 word \<Rightarrow> string"

definition failed :: "32 word \<Rightarrow> bool" where
  "failed h \<longleftrightarrow> sint h < 0"

text \<open>Documented behaviour of a line enumerator: it runs through a list, and says \<open>S_OK\<close> when it could
  fetch as many lines as it was asked for.\<close>

definition lists_lines :: "dia \<Rightarrow> (nat \<Rightarrow> nat list) \<Rightarrow> bool" where
  "lists_lines d ls \<longleftrightarrow> (\<forall>n e. \<exists>e'. next_lines d n e = (n \<le> length (ls e), take n (ls e), e') \<and> ls e' = drop n (ls e))"

section \<open>processSymbol\<close>

text \<open>
  One turn of the loop: \<open>Next(i, &lineNum, &fetched)\<close> with room for a single line, so that fetching more
  writes past it. The state is the enumerator, \<open>found_source\<close>, \<open>found_line\<close> and \<open>a_result\<close>.
\<close>

definition line_text :: "dia \<Rightarrow> string \<Rightarrow> nat \<Rightarrow> string" where
  "line_text d convertedName l =
     (case (source_file d l, line_number d l) of
        (Some f, Some n) \<Rightarrow> '' '' @ f @ '':'' @ show_nat (unat n) @ '' '' @ convertedName
      | (Some f, None) \<Rightarrow> '' '' @ f @ '' '' @ convertedName
      | (None, Some n) \<Rightarrow> '' unk_:'' @ show_nat (unat n) @ '' '' @ convertedName
      | (None, None) \<Rightarrow> [])"

definition line_step :: "dia \<Rightarrow> string \<Rightarrow> nat \<Rightarrow> nat \<times> bool \<times> bool \<times> string \<Rightarrow> (nat \<times> bool \<times> bool \<times> string) outcome" where
  "line_step d convertedName i st =
     (case st of (e, found_source, found_line, result) \<Rightarrow>
        case next_lines d i e of (ok, fetched, e') \<Rightarrow>
          if 1 < length fetched then Undef
          else if ok \<and> length fetched = 1 then
            Ret (e', source_file d (hd fetched) \<noteq> None, line_number d (hd fetched) \<noteq> None,
                 result @ line_text d convertedName (hd fetched))
          else Ret (e', found_source, found_line, result))"

definition processSymbol :: "dia \<Rightarrow> string \<Rightarrow> nat \<Rightarrow> 32 word \<Rightarrow> string \<Rightarrow> string outcome" where
  "processSymbol d session sy a_rva a_result =
     (let convertedName = symbol_name d sy;
          rva = (if a_rva = 0 then symbol_rva d sy else a_rva)
      in case symbol_length d sy of
           None \<Rightarrow> Ret a_result
         | Some len \<Rightarrow>
             (case find_lines d session rva (ucast len) of
                None \<Rightarrow> Ret a_result
              | Some e \<Rightarrow>
                  obind (ofold (line_step d convertedName) [0..<5] (e, False, False, a_result))
                    (\<lambda>(e', found_source, found_line, result).
                      if \<not> found_source \<and> \<not> found_line then
                        (let sRva = show_hex (unat rva)
                         in Ret (result @ '' '' @ convertedName @ (if suffix sRva convertedName then [] else ''_'' @ sRva)))
                      else Ret result)))"

section \<open>pdb_details\<close>

definition print_hr_failure :: "dia \<Rightarrow> 32 word \<Rightarrow> string" where
  "print_hr_failure d h =
     (if h = 0x806D0005 then ''Unable to locate PDB''
      else if h = 0x806D0012 \<or> h = 0x806D0014 then ''Invalid or obsolete file format''
      else error_text d h)"

definition sPluginPath :: string where
  "sPluginPath = ''.''"

text \<open>A name without a directory is looked for at \<open>sPluginPath\<close>, put before it without a separator.\<close>

definition has_parent_path :: "string \<Rightarrow> bool" where
  "has_parent_path s \<longleftrightarrow> list_ex (is_sep True) s \<or> (1 < length s \<and> s ! 1 = CHR '':'')"

definition dll_path :: "string \<Rightarrow> string" where
  "dll_path a_name = (if has_parent_path a_name then a_name else sPluginPath @ a_name)"

definition com_start :: "dia \<Rightarrow> crash_state \<Rightarrow> crash_state" where
  "com_start d s =
     (if failed (hr s) then
        (let h = co_initialize d (com_balance s)
         in s\<lparr>hr := h, com_balance := (if failed h then com_balance s else com_balance s + 1)\<rparr>)
      else s)"

definition com_stop :: "crash_state \<Rightarrow> crash_state" where
  "com_stop s = s\<lparr>com_balance := com_balance s - 1\<rparr>"

definition create_source :: "dia \<Rightarrow> crash_state \<Rightarrow> crash_state" where
  "create_source d s = s\<lparr>hr := (if failed (create_local d) then create_registered d else create_local d)\<rparr>"

definition check_symcache :: "fs \<Rightarrow> string \<Rightarrow> crash_state \<Rightarrow> crash_state" where
  "check_symcache fs symcache s =
     (if symcacheChecked s then s
      else s\<lparr>symcacheChecked := True,
             symcacheValid := symcacheValid s \<or> (symcache \<noteq> [] \<and> exists_path fs symcache \<and> is_directory fs symcache)\<rparr>)"

definition searchPaths :: "string \<Rightarrow> crash_state \<Rightarrow> string list" where
  "searchPaths symcache s = sPluginPath # (if symcacheValid s then [''cache*'' @ symcache] else [])"

text \<open>Both names are copied to buffers of \<open>_MAX_PATH\<close> characters, without a zero when they do not fit.\<close>

fun load_pdb :: "dia \<Rightarrow> string \<Rightarrow> string list \<Rightarrow> bool crash" where
  "load_pdb d file_name [] s = (Ret False, s)"
| "load_pdb d file_name (p # ps) s =
     (if 260 \<le> length file_name \<or> 260 \<le> length p then (Undef, s)
      else
        let s1 = s\<lparr>hr := load_data d file_name p\<rparr>
        in if failed (hr s1) then load_pdb d file_name ps s1 else (Ret True, s1))"

text \<open>Opening the session, its global scope, tables and symbols; the first failure ends it.\<close>

fun run_until_failure :: "32 word list \<Rightarrow> crash_state \<Rightarrow> bool \<times> crash_state" where
  "run_until_failure [] s = (True, s)"
| "run_until_failure (h # hs) s =
     (if failed h then (False, s\<lparr>hr := h\<rparr>) else run_until_failure hs (s\<lparr>hr := h\<rparr>))"

definition open_steps :: "dia \<Rightarrow> string \<Rightarrow> 32 word list" where
  "open_steps d file_name =
     [open_session d file_name, global_scope d file_name, enum_tables d file_name, symbols_by_addr d file_name]"

text \<open>
  The texts of the public symbol and of the function it stands for; the pointer that is released at
  the end is uninitialised when no public symbol was found.
\<close>

definition pdb_lookup :: "dia \<Rightarrow> string \<Rightarrow> 32 word \<Rightarrow> string outcome" where
  "pdb_lookup d session rva =
     (case find_public d session rva of
        None \<Rightarrow> Undef
      | Some publicSymbol \<Rightarrow>
          obind (processSymbol d session publicSymbol rva []) (\<lambda>publicResult.
          obind
            (case target_rva d publicSymbol of
               None \<Rightarrow> Ret publicResult
             | Some privateRva \<Rightarrow>
                 (case find_function d session privateRva of
                    None \<Rightarrow> Ret publicResult
                  | Some privateSymbol \<Rightarrow>
                      obind (processSymbol d session privateSymbol privateRva publicResult) (\<lambda>privateResult.
                        Ret (if privateResult \<noteq> [] \<and> publicResult \<noteq> [] then privateResult @ [CHR 0x09] @ publicResult
                             else privateResult))))
            (\<lambda>result. Ret publicResult)))"

definition pdb_details :: "dia \<Rightarrow> fs \<Rightarrow> string \<Rightarrow> string \<Rightarrow> 64 word \<Rightarrow> string crash" where
  "pdb_details d fs symcache a_name a_offset s =
     (let file_name = dll_path a_name;
          s1 = com_start d s
      in if failed (hr s1) then (Ret [], com_stop s1)
         else
           let s2 = create_source d s1
           in if failed (hr s2) then (Ret [], com_stop s2)
              else
                let s3 = check_symcache fs symcache s2
                in cbind (load_pdb d file_name (searchPaths symcache s3)) (\<lambda>found s4.
                     if \<not> found then (Ret [], com_stop s4)
                     else case run_until_failure (open_steps d file_name) s4 of
                            (False, s5) \<Rightarrow> (Ret [], com_stop s5)
                          | (True, s5) \<Rightarrow>
                              (case pdb_lookup d file_name (ucast a_offset) of
                                 Ret r \<Rightarrow> (Ret r, com_stop s5)
                               | e \<Rightarrow> (e, s5))) s3)"

section \<open>Dumping all symbols\<close>

text \<open>
  \<open>dumpFileSymbols\<close>: the value of \<open>retflag\<close> (1, or 3 when the file was skipped) and the logged texts. When
  \<open>Next\<close> fails the enumerator is released in the loop and once more after it.
\<close>

definition dump_guard :: "bool \<times> nat \<times> nat \<times> string list \<Rightarrow> bool outcome" where
  "dump_guard st = Ret (fst st)"

definition dump_body :: "dia \<Rightarrow> string \<Rightarrow> bool \<times> nat \<times> nat \<times> string list \<Rightarrow> (bool \<times> nat \<times> nat \<times> string list) outcome" where
  "dump_body d session st =
     (case st of (go, sy, e, out) \<Rightarrow>
        obind (processSymbol d session sy 0 []) (\<lambda>result.
          case next_symbol d e of (h, fetched, e') \<Rightarrow>
            if failed h then Undef
            else case fetched of
                   Some sy' \<Rightarrow> Ret (True, sy', e', out @ [result])
                 | None \<Rightarrow> Ret (False, sy, e', out @ [result])))"

definition dumpFileSymbols :: "dia \<Rightarrow> string \<Rightarrow> (nat \<times> string list) outcome" where
  "dumpFileSymbols d path =
     (if failed (create_registered d) then Ret (3, [])
      else if 260 \<le> length path then Undef
      else if failed (load_data d path sPluginPath) then Ret (3, [])
      else if failed (open_session d path) then Ret (3, [])
      else if failed (symbols_by_addr d path) then Ret (3, [])
      else case first_symbol d path of
             None \<Rightarrow> Ret (3, [])
           | Some (sy, e) \<Rightarrow>
               obind (cwhile dump_guard (dump_body d path) (True, sy, e, [])) (\<lambda>(go, sy', e', out). Ret (1, out)))"

text \<open>\<open>dump_symbols\<close>: the executable, or every entry of the directory whose name ends in \<open>dll\<close>.\<close>

definition dump_symbols :: "dia \<Rightarrow> bool \<Rightarrow> string list \<Rightarrow> string list outcome" where
  "dump_symbols d exe entries =
     (if exe then obind (dumpFileSymbols d ''./SkyrimVR.exe'') (\<lambda>(flag, out). Ret out)
      else ofold (\<lambda>path acc. obind (dumpFileSymbols d path) (\<lambda>(flag, out). Ret (acc @ out)))
             (filter (suffix ''dll'') entries) [])"


section \<open>The lines of a symbol\<close>

text \<open>One turn of the loop on a documented enumerator, by the lines it has left.\<close>

lemma line_step_documented:
  assumes "lists_lines d ls"
  shows "\<exists>e'. ls e' = drop i (ls e) \<and>
    line_step d name i (e, a, b, r) =
      (let fetched = take i (ls e)
       in if 1 < length fetched then Undef
          else if i \<le> length (ls e) \<and> length fetched = 1 then
            Ret (e', source_file d (hd fetched) \<noteq> None, line_number d (hd fetched) \<noteq> None, r @ line_text d name (hd fetched))
          else Ret (e', a, b, r))"
proof -
  obtain e' where "next_lines d i e = (i \<le> length (ls e), take i (ls e), e')" "ls e' = drop i (ls e)"
    using assms unfolding lists_lines_def by blast
  then show ?thesis by (intro exI [of _ e']) (simp add: line_step_def Let_def)
qed

lemma line_steps_none:
  assumes "lists_lines d ls" "ls e = []"
  shows "\<exists>e'. ls e' = [] \<and> ofold (line_step d name) is (e, a, b, r) = Ret (e', a, b, r)"
  using assms(2)
proof (induction "is" arbitrary: e)
  case (Cons i "is")
  obtain e1 where "ls e1 = []" "line_step d name i (e, a, b, r) = Ret (e1, a, b, r)"
    using line_step_documented [OF assms(1), of i e name a b r] Cons.prems by auto
  then show ?case using Cons.IH [of e1] by simp
qed auto

text \<open>The five turns: nothing is asked for in the first, one line in the second, and two in the third.\<close>

lemma five_turns:
  assumes "lists_lines d ls"
  shows "(ls e = [] \<longrightarrow> (\<exists>e'. ofold (line_step d name) [0..<5] (e, False, False, r) = Ret (e', False, False, r))) \<and>
    (\<forall>l rest. ls e = l # rest \<longrightarrow>
      (if 2 \<le> length rest then ofold (line_step d name) [0..<5] (e, False, False, r) = Undef
       else \<exists>e'. ofold (line_step d name) [0..<5] (e, False, False, r) =
         Ret (e', source_file d l \<noteq> None, line_number d l \<noteq> None, r @ line_text d name l)))"
proof (intro conjI impI allI)
  assume "ls e = []"
  then show "\<exists>e'. ofold (line_step d name) [0..<5] (e, False, False, r) = Ret (e', False, False, r)"
    using line_steps_none [OF assms] by blast
next
  fix l rest
  assume l: "ls e = l # rest"
  obtain e0 where 0: "ls e0 = l # rest" "line_step d name 0 (e, False, False, r) = Ret (e0, False, False, r)"
    using line_step_documented [OF assms, of 0 e name False False r] l by auto
  let ?r = "(source_file d l \<noteq> None, line_number d l \<noteq> None, r @ line_text d name l)"
  obtain e1 where 1: "ls e1 = rest" "line_step d name 1 (e0, False, False, r) = Ret (e1, ?r)"
    using line_step_documented [OF assms, of 1 e0 name False False r] 0(1) by auto
  have turns: "[0..<5] = 0 # 1 # 2 # [3, 4 :: nat]" by (simp add: upt_rec)
  show "if 2 \<le> length rest then ofold (line_step d name) [0..<5] (e, False, False, r) = Undef
      else \<exists>e'. ofold (line_step d name) [0..<5] (e, False, False, r) = Ret (e', ?r)"
  proof (cases "2 \<le> length rest")
    case True
    then have "line_step d name 2 (e1, ?r) = Undef"
      using line_step_documented [OF assms, of 2 e1 name "source_file d l \<noteq> None" "line_number d l \<noteq> None" "r @ line_text d name l"] 1(1) by (auto simp: Let_def)
    then show ?thesis using True 0(2) 1(2) by (simp only: turns ofold.simps obind.simps if_True)
  next
    case False
    then have "length (take 2 rest) \<le> 1" "\<not> (2 \<le> length rest \<and> length (take 2 rest) = 1)" "drop 2 rest = []" by auto
    then obtain e2 where 2: "ls e2 = []" "line_step d name 2 (e1, ?r) = Ret (e2, ?r)"
      using line_step_documented [OF assms, of 2 e1 name "source_file d l \<noteq> None" "line_number d l \<noteq> None" "r @ line_text d name l"] 1(1) by (auto simp: Let_def)
    then obtain e' where "ofold (line_step d name) [3, 4] (e2, ?r) = Ret (e', ?r)"
      using line_steps_none [OF assms 2(1)] by blast
    then show ?thesis using False 0(2) 1(2) 2(2) by (simp only: turns ofold.simps(2) obind.simps if_False) blast
  qed
qed

section \<open>A database with one function\<close>

text \<open>
  For the witnesses: every call succeeds, the public symbol 1 stands for the function 2, and a line
  enumerator in state \<open>n\<close> has \<open>n\<close> lines left, all of them line 12 of \<open>a.cpp\<close>.
\<close>

definition one_function :: "nat \<Rightarrow> dia" where
  "one_function n =
     \<lparr>co_initialize = (\<lambda>b. if b = 0 then 0 else 1), create_local = 0, create_registered = 0, load_data = (\<lambda>f p. 0),
      open_session = (\<lambda>f. 0), global_scope = (\<lambda>f. 0), enum_tables = (\<lambda>f. 0), symbols_by_addr = (\<lambda>f. 0),
      find_public = (\<lambda>s r. Some 1), find_function = (\<lambda>s r. Some 2), target_rva = (\<lambda>y. Some 16),
      symbol_name = (\<lambda>y. if y = 1 then ''f'' else ''g''), symbol_rva = (\<lambda>y. 16), symbol_length = (\<lambda>y. Some 8),
      find_lines = (\<lambda>s r l. Some n), next_lines = (\<lambda>i e. (i \<le> e, replicate (min i e) 7, e - i)),
      source_file = (\<lambda>l. Some ''a.cpp''), line_number = (\<lambda>l. Some 12),
      first_symbol = (\<lambda>s. Some (1, 0)), next_symbol = (\<lambda>e. (1, None, e)), error_text = (\<lambda>h. [])\<rparr>"

lemma one_function_lists: "lists_lines (one_function n) (\<lambda>e. replicate e 7)"
  by (simp add: lists_lines_def one_function_def take_replicate drop_replicate min.commute)

definition no_files :: fs where
  "no_files = \<lparr>windows = True, cwd = [], clock = FileTime 0, nodes = [], denied = []\<rparr>"

lemma one_function_run:
  "fst (pdb_details (one_function 1) no_files [] ''m.dll'' 16 fresh_crash) = Ret '' a.cpp:12 f''"
  "fst (pdb_details (one_function 1) no_files [] ''m.dll'' 16 (fresh_crash\<lparr>hr := 0\<rparr>)) = Ret '' a.cpp:12 f''"
  by code_simp+

section \<open>Properties\<close>

text \<open>With a line enumerator that behaves as documented, \<open>processSymbol\<close> reports the first line of the
  symbol and no other one, falls back to the name and the address when there is none, and writes
  past its only slot when the symbol has three lines or more.\<close>

theorem processSymbol_first_line:
  assumes "lists_lines d ls" and "symbol_length d sy = Some len" and "rva \<noteq> 0" and "find_lines d session rva (ucast len) = Some e"
  shows "processSymbol d session sy rva r =
    (let name = symbol_name d sy;
         fallback = '' '' @ name @ (if suffix (show_hex (unat rva)) name then [] else ''_'' @ show_hex (unat rva))
     in case ls e of
          [] \<Rightarrow> Ret (r @ fallback)
        | l # rest \<Rightarrow>
            if 2 \<le> length rest then Undef
            else if source_file d l = None \<and> line_number d l = None then Ret (r @ fallback)
            else Ret (r @ line_text d name l))"
proof (cases "ls e")
  case Nil
  then obtain e' where "ofold (line_step d (symbol_name d sy)) [0..<5] (e, False, False, r) = Ret (e', False, False, r)"
    using five_turns [OF assms(1)] by blast
  then show ?thesis using Nil assms(2-4) by (simp add: processSymbol_def Let_def)
next
  case (Cons l rest)
  let ?run = "ofold (line_step d (symbol_name d sy)) [0..<5] (e, False, False, r)"
  show ?thesis
  proof (cases "2 \<le> length rest")
    case True
    then have "?run = Undef" using five_turns [OF assms(1)] Cons by metis
    then show ?thesis using Cons True assms(2-4) by (simp add: processSymbol_def Let_def)
  next
    case False
    then obtain e' where "?run = Ret (e', source_file d l \<noteq> None, line_number d l \<noteq> None, r @ line_text d (symbol_name d sy) l)"
      using five_turns [OF assms(1)] Cons by metis
    then show ?thesis using Cons False assms(2-4) by (auto simp: processSymbol_def line_text_def Let_def)
  qed
qed

theorem processSymbol_first_line_witness:
  "processSymbol (one_function 2) ''s'' 1 16 [] = Ret '' a.cpp:12 f'' \<and> processSymbol (one_function 3) ''s'' 1 16 [] = Undef"
proof -
  have fields: "symbol_length (one_function n) 1 = Some 8" "find_lines (one_function n) ''s'' 16 (ucast (8 :: 64 word)) = Some n"
    "symbol_name (one_function n) 1 = ''f''" "source_file (one_function n) 7 = Some ''a.cpp''"
    "line_number (one_function n) 7 = Some 12" for n
    by (simp_all add: one_function_def)
  have lines: "replicate 2 (7 :: nat) = [7, 7]" "replicate 3 (7 :: nat) = [7, 7, 7]" by (simp_all add: numeral_eq_Suc)
  have number: "show_nat 12 = ''12''" by code_simp
  show ?thesis
    using processSymbol_first_line [OF one_function_lists fields(1) _ fields(2), of 2 "[]"]
      processSymbol_first_line [OF one_function_lists fields(1) _ fields(2), of 3 "[]"]
    by (simp add: fields [unfolded One_nat_def] lines line_text_def number)
qed

text \<open>What \<open>pdb_details\<close> returns is empty or the text of the public symbol: the combination with the
  function behind it, which the code computes, is overwritten.\<close>

theorem pdb_details_public_only:
  assumes "pdb_details d fs symcache name offset s = (Ret r, t)" and "r \<noteq> []"
  shows "\<exists>sy. find_public d (dll_path name) (ucast offset) = Some sy \<and>
    processSymbol d (dll_path name) sy (ucast offset) [] = Ret r"
proof -
  have "pdb_lookup d (dll_path name) (ucast offset) = Ret r"
    using assms by (auto simp: pdb_details_def Let_def cbind_def split: if_splits prod.splits outcome.splits bool.splits)
  then show ?thesis
    by (auto simp: pdb_lookup_def obind_eq_Ret split: option.splits)
qed

theorem pdb_details_public_only_witness:
  "\<exists>sy. find_public (one_function 1) ''.m.dll'' 16 = Some sy \<and>
    processSymbol (one_function 1) ''.m.dll'' sy 16 [] = Ret '' a.cpp:12 f''"
proof -
  obtain t where "pdb_details (one_function 1) no_files [] ''m.dll'' 16 fresh_crash = (Ret '' a.cpp:12 f'', t)"
    using one_function_run(1) by (metis prod.collapse)
  from pdb_details_public_only [OF this]
  show ?thesis by (simp add: dll_path_def has_parent_path_def sPluginPath_def is_sep_def)
qed

text \<open>C38: a call of \<open>pdb_details\<close> that returns undoes one initialisation of COM, but makes one only when the
  last result was a failure: after a call that succeeded, every further one takes away an
  initialisation that was not its own.\<close>

theorem pdb_details_unbalances_com:
  assumes "pdb_details d fs symcache name offset s = (Ret r, t)"
  shows "com_balance t =
    (if failed (hr s) \<and> \<not> failed (co_initialize d (com_balance s)) then com_balance s else com_balance s - 1)"
proof -
  have load: "com_balance v = com_balance u" if "load_pdb d f ps u = (b, v)" for f ps u b v
    using that by (induction d f ps u rule: load_pdb.induct) (auto simp: Let_def split: if_splits)
  have run: "com_balance v = com_balance u" if "run_until_failure hs u = (b, v)" for hs u b v
    using that by (induction hs u rule: run_until_failure.induct) (auto split: if_splits)
  let ?s3 = "check_symcache fs symcache (create_source d (com_start d s))"
  have start: "com_balance ?s3 = com_balance (com_start d s)" "com_balance (create_source d (com_start d s)) = com_balance (com_start d s)"
    by (simp_all add: check_symcache_def create_source_def)
  have "com_balance t = com_balance (com_start d s) - 1"
    using assms start
    by (auto simp: pdb_details_def com_stop_def Let_def cbind_def
        split: if_splits prod.splits outcome.splits bool.splits dest!: load run)
  then show ?thesis by (auto simp: com_start_def Let_def)
qed


theorem pdb_details_unbalances_com_witness:
  "com_balance (snd (pdb_details (one_function 1) no_files [] ''m.dll'' 16 fresh_crash)) = 0 \<and>
   com_balance (snd (pdb_details (one_function 1) no_files [] ''m.dll'' 16 (fresh_crash\<lparr>hr := 0\<rparr>))) = - 1"
proof -
  let ?run = "pdb_details (one_function 1) no_files [] ''m.dll'' 16"
  obtain t u where t: "?run fresh_crash = (Ret '' a.cpp:12 f'', t)"
    and u: "?run (fresh_crash\<lparr>hr := 0\<rparr>) = (Ret '' a.cpp:12 f'', u)"
    using one_function_run by (metis prod.collapse)
  have start: "com_balance fresh_crash = 0" "failed (hr fresh_crash)" "\<not> failed 0" "co_initialize (one_function 1) 0 = 0"
    by (simp_all add: fresh_crash_def failed_def one_function_def)
  have "com_balance t = 0" using pdb_details_unbalances_com [OF t] start by simp
  moreover have "com_balance u = - 1" using pdb_details_unbalances_com [OF u] start by simp
  ultimately show ?thesis unfolding t u by simp
qed

end
