(* ===== verification/ModuleTable.thy ===== *)
theory ModuleTable
  imports PdbSymbols CrashUtil "HOL-Library.Multiset"
begin

text \<open>
  \<open>CrashHandler/Modules/\<close>: the modules loaded by the process. The Windows functions that list the
  modules and tell their names are the record \<open>winmods\<close>; the headers of a module are read from its
  image in memory, at the offsets of \<open>winnt.h\<close>. Names are ASCII.
\<close>

section \<open>The interface of Windows\<close>

text \<open>
  \<open>enum_modules k\<close> is the list of the modules of the process at the \<open>k\<close>-th call of \<open>K32EnumProcessModules\<close>,
  or \<open>None\<close> when that call fails. \<open>module_file_name h n\<close> is \<open>GetModuleFileNameW\<close> with a buffer of \<open>n\<close>
  characters: the returned number and the text in the buffer, \<open>None\<close> where it is not written.
\<close>

record winmods =
  enum_modules :: "nat \<Rightarrow> 64 word list option"
  module_file_name :: "64 word \<Rightarrow> 32 word \<Rightarrow> 32 word \<times> string option"

text \<open>Documented behaviour: the length of the name when it fits with its zero, otherwise the size of the
  buffer, which then holds a truncated name with a zero.\<close>

definition has_file_name :: "winmods \<Rightarrow> 64 word \<Rightarrow> string \<Rightarrow> bool" where
  "has_file_name w h name \<longleftrightarrow>
     (\<forall>n > 0. module_file_name w h n =
        (if length name < unat n then (word_of_nat (length name), Some name)
         else (n, Some (take (unat n - 1) name))))"

section \<open>Module\<close>

text \<open>A span is its address and its size; the default span is null and empty.\<close>

type_synonym byte_span = "64 word \<times> 64 word"

definition null_span :: byte_span where
  "null_span = (0, 0)"

definition in_span :: "byte_span \<Rightarrow> 64 word \<Rightarrow> bool" where
  "in_span s ptr \<longleftrightarrow> fst s \<le> ptr \<and> ptr < fst s + snd s"

record module_info =
  mod_name :: string
  mod_image :: byte_span
  mod_data :: byte_span
  mod_rdata :: byte_span
  mod_typeInfo :: "64 word"
  mod_path :: string

definition mod_address :: "module_info \<Rightarrow> 64 word" where
  "mod_address m = fst (mod_image m)"

definition in_range :: "module_info \<Rightarrow> 64 word \<Rightarrow> bool" where
  "in_range m a_ptr \<longleftrightarrow> in_span (mod_image m) a_ptr"

definition in_data_range :: "module_info \<Rightarrow> 64 word \<Rightarrow> bool" where
  "in_data_range m a_ptr \<longleftrightarrow> in_span (mod_data m) a_ptr"

definition in_rdata_range :: "module_info \<Rightarrow> 64 word \<Rightarrow> bool" where
  "in_rdata_range m a_ptr \<longleftrightarrow> in_span (mod_rdata m) a_ptr"

text \<open>The headers: \<open>IMAGE_DOS_HEADER::e_lfanew\<close>, and relative to it the fields of \<open>IMAGE_NT_HEADERS64\<close> and
  the section headers of forty bytes that follow the optional header.\<close>

definition peek16 :: "process \<Rightarrow> 64 word \<Rightarrow> 16 word outcome" where
  "peek16 p a = obind (peek_bytes p a 2) (\<lambda>bs. Ret (word_of_nat (le_value bs)))"

definition nt_header :: "process \<Rightarrow> 64 word \<Rightarrow> 64 word outcome" where
  "nt_header p a_module = obind (peek32 p (a_module + 60)) (\<lambda>e_lfanew. Ret (adjust_pointer a_module (scast e_lfanew)))"

definition get_image :: "process \<Rightarrow> 64 word \<Rightarrow> byte_span outcome" where
  "get_image p a_module =
     obind (nt_header p a_module) (\<lambda>ntHeader.
     obind (peek32 p (ntHeader + 80)) (\<lambda>SizeOfImage. Ret (a_module, ucast SizeOfImage)))"

definition memory_string :: "8 word list \<Rightarrow> string" where
  "memory_string bs = map (\<lambda>b. char_of (unat b)) bs"

text \<open>The first section whose name starts with the given one: its virtual address and raw size.\<close>

fun find_section :: "process \<Rightarrow> string \<Rightarrow> 64 word \<Rightarrow> nat \<Rightarrow> (32 word \<times> 32 word) option outcome" where
  "find_section p name iter 0 = Ret None"
| "find_section p name iter (Suc n) =
     obind (peek_bytes p iter (min (length name) 8)) (\<lambda>bs.
       if memory_string bs = take 8 name then
         obind (peek32 p (iter + 12)) (\<lambda>VirtualAddress.
         obind (peek32 p (iter + 16)) (\<lambda>SizeOfRawData. Ret (Some (VirtualAddress, SizeOfRawData))))
       else find_section p name (iter + 40) n)"

definition section_span :: "64 word \<Rightarrow> (32 word \<times> 32 word) option \<Rightarrow> byte_span" where
  "section_span img it = (case it of None \<Rightarrow> null_span | Some (va, len) \<Rightarrow> (ucast va + img, ucast len))"

text \<open>\<open>VTable\<close>: the search for a virtual table is there, but the constructor stores a null pointer.\<close>

definition VTable_get :: "string \<Rightarrow> byte_span \<Rightarrow> byte_span \<Rightarrow> byte_span \<Rightarrow> 64 word" where
  "VTable_get a_name a_module a_data a_rdata = 0"

fun find_qword :: "process \<Rightarrow> 64 word \<Rightarrow> 64 word \<Rightarrow> nat \<Rightarrow> 64 word outcome" where
  "find_qword p col iter 0 = Ret 0"
| "find_qword p col iter (Suc n) =
     obind (peek64 p iter) (\<lambda>v. if v = col then Ret (iter + 8) else find_qword p col (iter + 8) n)"

definition virtual_table :: "process \<Rightarrow> 64 word \<Rightarrow> byte_span \<Rightarrow> 64 word outcome" where
  "virtual_table p a_col a_rdata = find_qword p a_col (fst a_rdata) ((unat (snd a_rdata) + 7) div 8)"

definition Module_ctor :: "process \<Rightarrow> string \<Rightarrow> byte_span \<Rightarrow> string \<Rightarrow> module_info outcome" where
  "Module_ctor p a_name a_image a_path =
     obind (nt_header p (fst a_image)) (\<lambda>ntHeader.
     obind (peek16 p (ntHeader + 20)) (\<lambda>SizeOfOptionalHeader.
     obind (peek16 p (ntHeader + 6)) (\<lambda>NumberOfSections.
     let first = ntHeader + 24 + ucast SizeOfOptionalHeader; n = unat NumberOfSections in
     obind (find_section p ''.data'' first n) (\<lambda>it.
     obind (find_section p ''.rdata'' first n) (\<lambda>it2.
     let data = section_span (fst a_image) it; rdata = section_span (fst a_image) it2 in
     Ret \<lparr>mod_name = a_name, mod_image = a_image, mod_data = data, mod_rdata = rdata,
          mod_typeInfo = (if snd a_image \<noteq> 0 \<and> snd data \<noteq> 0 \<and> snd rdata \<noteq> 0
                          then VTable_get ''.?AVtype_info@@'' a_image data rdata else 0),
          mod_path = a_path\<rparr>)))))"

section \<open>Factory\<close>

text \<open>
  The loop of \<open>get_name\<close> and \<open>get_path\<close>: the buffer is doubled until the name fits. The state is its
  size and the text it holds, which a call that fails leaves alone.
\<close>

definition name_call :: "winmods \<Rightarrow> 64 word \<Rightarrow> nat \<Rightarrow> string \<Rightarrow> nat \<times> string" where
  "name_call w a_module sz buf =
     (case module_file_name w a_module (word_of_nat sz) of
        (result, out) \<Rightarrow> (unat result, case out of Some t \<Rightarrow> t | None \<Rightarrow> buf))"

function name_loop :: "winmods \<Rightarrow> 64 word \<Rightarrow> nat \<Rightarrow> string \<Rightarrow> string" where
  "name_loop w a_module sz buf =
     (let sz' = sz * 2; r = name_call w a_module sz' buf in
      if fst r \<noteq> 0 \<and> fst r = sz' \<and> sz' \<le> 2 ^ 32 - 1 then name_loop w a_module sz' (snd r) else snd r)"
  by pat_completeness auto
termination
  by (relation "measure (\<lambda>(w, h, sz, buf). 2 ^ 32 - sz)") auto

declare name_loop.simps [simp del]

definition file_name_text :: "winmods \<Rightarrow> 64 word \<Rightarrow> string" where
  "file_name_text w a_module = name_loop w a_module 130 []"

definition generic_string :: "string \<Rightarrow> string" where
  "generic_string s = map (\<lambda>c. if c = CHR 0x5C then CHR ''/'' else c) s"

definition get_name :: "winmods \<Rightarrow> 64 word \<Rightarrow> string" where
  "get_name w a_module = generic_string (filename True (file_name_text w a_module))"

definition get_path :: "winmods \<Rightarrow> 64 word \<Rightarrow> string" where
  "get_path w a_module = generic_string (file_name_text w a_module)"

definition Factory_create :: "winmods \<Rightarrow> process \<Rightarrow> 64 word \<Rightarrow> module_info outcome" where
  "Factory_create w p a_module =
     obind (get_image p a_module) (\<lambda>img. Module_ctor p (get_name w a_module) img (get_path w a_module))"

section \<open>Frames\<close>

definition mod_assembly :: "process \<Rightarrow> 64 word \<Rightarrow> string outcome" where
  "mod_assembly p a_ptr =
     obind (peek_bytes p a_ptr 8) (\<lambda>data. Ret (case disassemble p a_ptr data of Some t \<Rightarrow> t | None \<Rightarrow> []))"

definition offset_text :: "64 word \<Rightarrow> string" where
  "offset_text offset = ''+'' @ zero_pad 7 (show_hex (unat offset))"

definition get_frame_info :: "dia \<Rightarrow> fs \<Rightarrow> string \<Rightarrow> process \<Rightarrow> module_info \<Rightarrow> 64 word \<Rightarrow> string crash" where
  "get_frame_info d fs symcache p m a_frame =
     (let offset = a_frame - mod_address m in
      cbind (coutcome (mod_assembly p a_frame)) (\<lambda>assembly.
      cbind (pdb_details d fs symcache (mod_path m) offset) (\<lambda>pdbDetails.
        cret (if pdbDetails \<noteq> [] then offset_text offset @ [CHR 0x09] @ assembly @ '' | '' @ pdbDetails
              else offset_text offset))))"

text \<open>\<open>assert\<close> is not compiled into release builds.\<close>

definition frame_info :: "dia \<Rightarrow> fs \<Rightarrow> string \<Rightarrow> process \<Rightarrow> module_info \<Rightarrow> 64 word \<Rightarrow> string crash" where
  "frame_info d fs symcache p m a_frame = get_frame_info d fs symcache p m a_frame"

section \<open>get_loaded_modules\<close>

text \<open>
  The state of the loop: the number of calls made, the vector, and \<open>needed\<close> in bytes. The parallel loop
  fills one slot per handle; an exception in it ends the process.
\<close>

definition enum_body :: "winmods \<Rightarrow> nat \<times> 64 word list \<times> 32 word \<Rightarrow> (nat \<times> 64 word list \<times> 32 word) outcome" where
  "enum_body w st =
     (case st of (k, modules, needed) \<Rightarrow>
        let n = unat needed div 8;
            modules' = take n modules @ replicate (n - length modules) 0
        in case enum_modules w k of
             None \<Rightarrow> Ret (Suc k, modules', needed)
           | Some hs \<Rightarrow> Ret (Suc k, take n hs @ drop (length hs) modules', word_of_nat (8 * length hs)))"

definition enum_guard :: "nat \<times> 64 word list \<times> 32 word \<Rightarrow> bool outcome" where
  "enum_guard st = (case st of (k, modules, needed) \<Rightarrow> Ret (length modules * 8 < unat needed))"

definition module_handles :: "winmods \<Rightarrow> 64 word list outcome" where
  "module_handles w =
     obind (enum_body w (0, [], 0)) (\<lambda>st. obind (cwhile enum_guard (enum_body w) st) (\<lambda>(k, modules, needed). Ret modules))"

fun omap :: "('a \<Rightarrow> 'b outcome) \<Rightarrow> 'a list \<Rightarrow> 'b list outcome" where
  "omap f [] = Ret []"
| "omap f (x # xs) = obind (f x) (\<lambda>y. obind (omap f xs) (\<lambda>ys. Ret (y # ys)))"

definition parallel_outcome :: "'a outcome \<Rightarrow> 'a outcome" where
  "parallel_outcome m = ocatch m (Throw Process_end)"

definition get_loaded_modules :: "winmods \<Rightarrow> process \<Rightarrow> module_info list outcome" where
  "get_loaded_modules w p =
     obind (module_handles w) (\<lambda>modules.
     obind (parallel_outcome (omap (Factory_create w p) modules)) (\<lambda>results.
     Ret (sort_key mod_address results)))"

section \<open>The names\<close>

lemma unat_small: "n < 2 ^ 32 \<Longrightarrow> unat (word_of_nat n :: 32 word) = n"
  by (simp add: unat_of_nat)

lemma name_call_full:
  assumes "has_file_name w h name" and "length name < 2 ^ 31" and "0 < n" and "n < 2 ^ 32"
  shows "name_call w h n buf = (if length name < n then (length name, name) else (n, take (n - 1) name))"
proof -
  let ?n = "word_of_nat n :: 32 word"
  have n: "unat ?n = n" using assms(4) by (rule unat_small)
  then have pos: "0 < ?n" using assms(3) by (metis unat_gt_0 word_gt_0)
  have len: "unat (word_of_nat (length name) :: 32 word) = length name" using assms(2) by (intro unat_small) simp
  have "module_file_name w h ?n =
      (if length name < n then (word_of_nat (length name), Some name) else (?n, Some (take (n - 1) name)))"
    using assms(1) n pos unfolding has_file_name_def by metis
  then show ?thesis using n len by (simp add: name_call_def)
qed

lemma name_loop_full:
  assumes "has_file_name w h name" and "length name < 2 ^ 31"
  shows "0 < sz \<Longrightarrow> sz * 2 < 2 ^ 32 \<Longrightarrow> name_loop w h sz buf = name"
proof (induction "2 ^ 32 - sz" arbitrary: sz buf rule: less_induct)
  case less
  show ?case
  proof (cases "length name < sz * 2")
    case True
    then show ?thesis using less.prems by (subst name_loop.simps) (simp add: name_call_full [OF assms] Let_def)
  next
    case False
    then have "sz * 2 * 2 < 2 ^ 32" using assms(2) by simp
    then have "name_loop w h (sz * 2) (take (sz * 2 - 1) name) = name" using less by simp
    with False less.prems show ?thesis by (subst name_loop.simps) (simp add: name_call_full [OF assms] Let_def)
  qed
qed

section \<open>The handles\<close>

lemma enum_body_fills:
  assumes "enum_modules w k = Some hs" and "unat needed = 8 * n"
  shows "enum_body w (k, [], needed) = Ret (Suc k, take n hs @ replicate (n - length hs) 0, word_of_nat (8 * length hs))"
  using assms by (simp add: enum_body_def Let_def drop_replicate)

lemma module_handles_two_calls:
  assumes "enum_modules w 0 = Some hs" and "enum_modules w 1 = Some hs'" and "length hs' \<le> length hs" and "8 * length hs < 2 ^ 32"
    and "hs \<noteq> []"
  shows "module_handles w = Ret (hs' @ replicate (length hs - length hs') 0)"
proof -
  have sz: "unat (word_of_nat (8 * length hs) :: 32 word) = 8 * length hs" using assms(4) by (rule unat_small)
  have sz': "unat (word_of_nat (8 * length hs') :: 32 word) = 8 * length hs'" using assms(3,4) by (intro unat_small) linarith
  have 0: "enum_body w (0, [], 0) = Ret (1, [], word_of_nat (8 * length hs))"
    using assms(1) by (simp add: enum_body_def)
  let ?hs = "hs' @ replicate (length hs - length hs') 0"
  have 1: "enum_body w (1, [], word_of_nat (8 * length hs)) = Ret (2, ?hs, word_of_nat (8 * length hs'))"
    unfolding enum_body_fills [OF assms(2) sz] using assms(3) by simp
  have "enum_guard (1, [], word_of_nat (8 * length hs)) = Ret True" using assms(5) by (simp add: enum_guard_def sz del: of_nat_mult)
  moreover have "enum_guard (2, ?hs, word_of_nat (8 * length hs')) = Ret False"
    using assms(3) by (simp add: enum_guard_def sz' del: of_nat_mult)
  ultimately have "cwhile enum_guard (enum_body w) (1, [], word_of_nat (8 * length hs)) = Ret (2, ?hs, word_of_nat (8 * length hs'))"
    using 1 by (simp add: cwhile_step cwhile_stop)
  then show ?thesis by (simp add: module_handles_def 0)
qed


text \<open>A call that returns for every handle keeps their order and number.\<close>

lemma omap_eq_Ret: "omap f xs = Ret ys \<longleftrightarrow> list_all2 (\<lambda>x y. f x = Ret y) xs ys"
  by (induction xs arbitrary: ys) (auto simp: obind_eq_Ret list_all2_Cons1)

lemma omap_append: "omap f (xs @ ys) = obind (omap f xs) (\<lambda>us. obind (omap f ys) (\<lambda>vs. Ret (us @ vs)))"
  by (induction xs) (simp_all add: obind_assoc)

lemma omap_returns: "(\<And>x. x \<in> set xs \<Longrightarrow> is_ret (f x)) \<Longrightarrow> \<exists>ys. omap f xs = Ret ys"
proof (induction xs)
  case (Cons x xs)
  then obtain ys where "omap f xs = Ret ys" by auto
  moreover obtain y where "f x = Ret y" using Cons.prems [of x] by (cases "f x") auto
  ultimately show ?case by simp
qed simp

lemma parallel_outcome_Ret [simp]: "parallel_outcome (Ret a) = Ret a" "parallel_outcome m = Ret a \<longleftrightarrow> m = Ret a"
  by (cases m; auto simp: parallel_outcome_def ocatch_def)+

text \<open>What a module made from a handle looks like: its image starts at the handle, and the data sections
  are null or lie at 32-bit offsets from it.\<close>

definition span_at :: "64 word \<Rightarrow> byte_span \<Rightarrow> bool" where
  "span_at h s \<longleftrightarrow> s = null_span \<or> (unat (fst s - h) < 2 ^ 32 \<and> unat (snd s) < 2 ^ 32)"

definition module_of :: "winmods \<Rightarrow> 64 word \<Rightarrow> module_info \<Rightarrow> bool" where
  "module_of w h m \<longleftrightarrow>
     mod_address m = h \<and> unat (snd (mod_image m)) < 2 ^ 32 \<and> mod_typeInfo m = 0 \<and>
     mod_name m = get_name w h \<and> mod_path m = get_path w h \<and>
     span_at h (mod_data m) \<and> span_at h (mod_rdata m)"

lemma unat_ucast32: "unat (ucast v :: 64 word) < 2 ^ 32" for v :: "32 word"
  using unsigned_less [of v, where ?'a = nat] by (simp add: unsigned_ucast_eq take_bit_nat_eq_self)

lemma span_at_section [simp]: "span_at h (section_span h it)"
  using unat_ucast32 by (cases it) (auto simp: span_at_def section_span_def)

lemma Module_ctor_fields:
  assumes "Module_ctor p name img path = Ret m"
  shows "\<exists>it it2. m = \<lparr>mod_name = name, mod_image = img, mod_data = section_span (fst img) it,
    mod_rdata = section_span (fst img) it2, mod_typeInfo = 0, mod_path = path\<rparr>"
  using assms by (auto simp: Module_ctor_def VTable_get_def Let_def obind_eq_Ret)

lemma Factory_create_module:
  assumes "Factory_create w p h = Ret m"
  shows "module_of w h m"
proof -
  obtain sz :: "32 word" where "Module_ctor p (get_name w h) (h, ucast sz) (get_path w h) = Ret m"
    using assms by (auto simp: Factory_create_def get_image_def obind_eq_Ret)
  then show ?thesis using unat_ucast32
    by (auto simp: module_of_def mod_address_def dest!: Module_ctor_fields)
qed

text \<open>What \<open>get_loaded_modules\<close> returns.\<close>

lemma loaded_modules:
  assumes "get_loaded_modules w p = Ret ms"
  shows "\<exists>hs. module_handles w = Ret hs \<and> sorted (map mod_address ms) \<and> mset (map mod_address ms) = mset hs \<and>
    (\<forall>m \<in> set ms. module_of w (mod_address m) m)"
proof -
  obtain hs rs where hs: "module_handles w = Ret hs" and rs: "omap (Factory_create w p) hs = Ret rs"
    and ms: "ms = sort_key mod_address rs"
    using assms by (auto simp: get_loaded_modules_def obind_eq_Ret)
  have all: "list_all2 (\<lambda>h m. module_of w h m) hs rs"
    using rs Factory_create_module unfolding omap_eq_Ret by (auto elim: list_all2_mono)
  then have "map mod_address rs = hs"
    by (induction hs rs rule: list_all2_induct) (auto simp: module_of_def)
  moreover have "\<forall>m \<in> set rs. module_of w (mod_address m) m"
    using all by (induction hs rs rule: list_all2_induct) (auto simp: module_of_def)
  moreover have "mset (map mod_address ms) = mset (map mod_address rs)" using ms by simp
  ultimately show ?thesis using hs ms by (metis set_sort sorted_sort_key)
qed

section \<open>A process with one module\<close>

text \<open>
  For the witnesses: a module of 12288 bytes at address 65536, its header at 65600 with two sections
  \<open>.rdata\<close> (at 69632) and \<open>.data\<close> (at 73728), a text at 73744 and, at 73984, an object whose type
  descriptor at 73760 starts with a null pointer. Nothing else is mapped.
\<close>

definition example_bytes :: "(int \<times> 8 word list) list" where
  "example_bytes =
     [(60, [64]), (70, [2]), (84, [240]), (145, [0x30]),
      (328, [46, 114, 100, 97, 116, 97]), (341, [0x10]), (345, [2]),
      (368, [46, 100, 97, 116, 97]), (381, [0x20]), (385, [2]),
      (4140, [0x20, 0x20]), (4344, [0x20, 0x10, 1]),
      (8208, [104, 101, 108, 108, 111]), (8240, [46, 63, 65, 86, 88, 64, 64]), (8448, [0, 0x11, 1])]"

fun byte_in :: "(int \<times> 8 word list) list \<Rightarrow> int \<Rightarrow> 8 word" where
  "byte_in [] n = 0"
| "byte_in ((off, bs) # rest) n = (if off \<le> n \<and> n < off + int (length bs) then bs ! nat (n - off) else byte_in rest n)"

definition example_process :: "bool \<Rightarrow> process" where
  "example_process h =
     \<lparr>memory = (\<lambda>a. if 65536 \<le> a \<and> a < 77824 then Some (byte_in example_bytes (uint a - 65536)) else None),
      eha = h, disassemble = (\<lambda>a bs. Some ''nop''), undecorate = (\<lambda>s. s)\<rparr>"

definition example_path :: string where
  "example_path = ''C:'' @ [CHR 0x5C] @ ''app.exe''"

definition example_winmods :: "64 word list \<Rightarrow> winmods" where
  "example_winmods hs =
     \<lparr>enum_modules = (\<lambda>k. if k = 0 then Some hs else Some [65536]),
      module_file_name = (\<lambda>h n. if length example_path < unat n then (word_of_nat (length example_path), Some example_path)
        else (n, Some (take (unat n - 1) example_path)))\<rparr>"

definition example_module :: module_info where
  "example_module =
     \<lparr>mod_name = ''app.exe'', mod_image = (65536, 12288), mod_data = (73728, 512), mod_rdata = (69632, 512),
      mod_typeInfo = 0, mod_path = ''C:/app.exe''\<rparr>"

lemma example_file_name: "has_file_name (example_winmods hs) h example_path"
  by (simp add: has_file_name_def example_winmods_def)

lemma example_names: "get_path (example_winmods hs) h = ''C:/app.exe''" "get_name (example_winmods hs) h = ''app.exe''"
proof -
  have "length example_path < 2 ^ 31" by (simp add: example_path_def)
  then have "file_name_text (example_winmods hs) h = example_path"
    using name_loop_full [OF example_file_name, of 130] by (simp add: file_name_text_def)
  then show "get_path (example_winmods hs) h = ''C:/app.exe''" "get_name (example_winmods hs) h = ''app.exe''"
    unfolding get_path_def get_name_def by code_simp+
qed

lemma example_image: "get_image (example_process e) 65536 = Ret (65536, 12288)"
  by code_simp

lemma example_ctor: "Module_ctor (example_process e) ''app.exe'' (65536, 12288) ''C:/app.exe'' = Ret example_module"
  by code_simp

lemma example_create: "Factory_create (example_winmods hs) (example_process e) 65536 = Ret example_module"
  by (simp add: Factory_create_def example_names example_image example_ctor)

lemma example_modules: "get_loaded_modules (example_winmods [65536]) (example_process e) = Ret [example_module]"
proof -
  have "module_handles (example_winmods [65536]) = Ret [65536]"
    using module_handles_two_calls [of "example_winmods [65536]" "[65536]" "[65536]"] by (simp add: example_winmods_def)
  then show ?thesis by (simp add: get_loaded_modules_def example_create)
qed

section \<open>Properties\<close>

text \<open>C33: the loops of \<open>get_name\<close> and \<open>get_path\<close> end, and with the documented \<open>GetModuleFileNameW\<close> they find
  the whole name, however often the buffer has to be doubled.\<close>

theorem get_path_complete:
  assumes "has_file_name w h name" and "length name < 2 ^ 31"
  shows "get_path w h = generic_string name \<and> get_name w h = generic_string (filename True name)"
  using name_loop_full [OF assms, of 130] by (simp add: get_path_def get_name_def file_name_text_def)

theorem get_path_complete_witness:
  "get_path (example_winmods []) 65536 = ''C:/app.exe'' \<and> get_name (example_winmods []) 65536 = ''app.exe''"
proof -
  have "length example_path < 2 ^ 31" by (simp add: example_path_def)
  from get_path_complete [OF example_file_name [of "[]" 65536] this]
  have "get_path (example_winmods []) 65536 = generic_string example_path"
    "get_name (example_winmods []) 65536 = generic_string (filename True example_path)" by simp_all
  moreover have "generic_string example_path = ''C:/app.exe''" "generic_string (filename True example_path) = ''app.exe''"
    by code_simp+
  ultimately show ?thesis by simp
qed

text \<open>C32: the modules that \<open>get_loaded_modules\<close> returns are in the order of their addresses, one for every
  handle, each of them as \<open>Factory::create\<close> makes it from its handle; none has type information.\<close>

theorem get_loaded_modules_wf:
  assumes "get_loaded_modules w p = Ret ms"
  shows "\<exists>hs. module_handles w = Ret hs \<and> sorted (map mod_address ms) \<and> mset (map mod_address ms) = mset hs \<and>
    (\<forall>m \<in> set ms. module_of w (mod_address m) m)"
  using assms by (rule loaded_modules)

theorem get_loaded_modules_wf_witness:
  "\<exists>hs. module_handles (example_winmods [65536]) = Ret hs \<and> mset hs = {#65536#} \<and>
    module_of (example_winmods [65536]) 65536 example_module"
  using get_loaded_modules_wf [OF example_modules [of False]] by (auto simp: mod_address_def example_module_def)

text \<open>When a module is unloaded between the two calls of \<open>K32EnumProcessModules\<close> the vector keeps null
  handles at its end, and reading the header of one of them is undefined, or ends the process where
  access violations are exceptions: the modules that remain are not reported.\<close>

theorem get_loaded_modules_after_unload:
  assumes "enum_modules w 0 = Some hs" and "enum_modules w 1 = Some hs'" and "length hs' < length hs" and "8 * length hs < 2 ^ 32"
    and "memory p 60 = None" and "\<And>h. h \<in> set hs' \<Longrightarrow> is_ret (Factory_create w p h)"
  shows "get_loaded_modules w p = (if eha p then Throw Process_end else Undef)"
proof -
  obtain n where n: "length hs - length hs' = Suc n" using assms(3) by (metis Suc_diff_Suc)
  have "module_handles w = Ret (hs' @ 0 # replicate n 0)"
    using module_handles_two_calls [OF assms(1,2) _ assms(4)] assms(3) n by (cases hs) auto
  moreover have "Factory_create w p 0 = (if eha p then Throw Access_violation else Undef)"
    using assms(5) by (simp add: Factory_create_def get_image_def nt_header_def peek32_def peek_def eval_nat_numeral)
  moreover have "\<exists>us. omap (Factory_create w p) hs' = Ret us"
    using omap_returns assms(6) by blast
  ultimately show ?thesis by (auto simp: get_loaded_modules_def omap_append parallel_outcome_def)
qed

theorem get_loaded_modules_after_unload_witness:
  "get_loaded_modules (example_winmods [65536, 131072]) (example_process False) = Undef \<and>
   get_loaded_modules (example_winmods [65536, 131072]) (example_process True) = Throw Process_end"
proof -
  let ?w = "example_winmods [65536, 131072]"
  have hs: "enum_modules ?w 0 = Some [65536, 131072]" "enum_modules ?w 1 = Some [65536]" by (simp_all add: example_winmods_def)
  have "memory (example_process e) 60 = None" for e by (simp add: example_process_def)
  moreover have "is_ret (Factory_create ?w (example_process e) h)" if "h \<in> set [65536]" for e h
    using that by (simp add: example_create)
  ultimately have "get_loaded_modules ?w (example_process e) = (if eha (example_process e) then Throw Process_end else Undef)" for e
    using get_loaded_modules_after_unload [OF hs] by simp
  then show ?thesis by (simp add: example_process_def)
qed

end
