(* ===== verification/ParallelLoop.thy ===== *)
theory ParallelLoop
  imports ModuleTable
begin

text \<open>
  The parallel loop of \<open>get_loaded_modules\<close> (\<open>std::for_each\<close> with \<open>par_unseq\<close>): the other theories run it
  in the order of its elements. Here its iterations interleave in any way: an iteration computes its
  result, then stores it into its own slot; an exception in one ends the process at once.
\<close>

section \<open>The loop\<close>

datatype 'a iteration = Ready | Computed 'a | Stored

record ('s, 'a) for_loop =
  loop_state :: 's
  outputs :: "nat \<Rightarrow> 'a option"
  at :: "nat \<Rightarrow> 'a iteration"
  aborted :: bool

definition for_start :: "'s \<Rightarrow> ('s, 'a) for_loop" where
  "for_start s = \<lparr>loop_state = s, outputs = (\<lambda>_. None), at = (\<lambda>_. Ready), aborted = False\<rparr>"

inductive for_step :: "(nat \<Rightarrow> ('s, 'a) call) \<Rightarrow> nat \<Rightarrow> ('s, 'a) for_loop \<Rightarrow> ('s, 'a) for_loop \<Rightarrow> bool" for f n where
  compute: "\<not> aborted l \<Longrightarrow> i < n \<Longrightarrow> at l i = Ready \<Longrightarrow> f i (loop_state l) = (Ret v, t) \<Longrightarrow>
    for_step f n l (l\<lparr>loop_state := t, at := (at l)(i := Computed v)\<rparr>)"
| raise: "\<not> aborted l \<Longrightarrow> i < n \<Longrightarrow> at l i = Ready \<Longrightarrow> f i (loop_state l) = (Throw e, t) \<Longrightarrow>
    for_step f n l (l\<lparr>loop_state := t, aborted := True\<rparr>)"
| put: "\<not> aborted l \<Longrightarrow> i < n \<Longrightarrow> at l i = Computed v \<Longrightarrow>
    for_step f n l (l\<lparr>outputs := (outputs l)(i := Some v), at := (at l)(i := Stored)\<rparr>)"

inductive_cases for_stepE: "for_step f n l l'"

inductive for_reach :: "(nat \<Rightarrow> ('s, 'a) call) \<Rightarrow> nat \<Rightarrow> ('s, 'a) for_loop \<Rightarrow> ('s, 'a) for_loop \<Rightarrow> bool" for f n where
  for_refl: "for_reach f n l l"
| for_more: "for_reach f n l u \<Longrightarrow> for_step f n u v \<Longrightarrow> for_reach f n l v"

definition for_final :: "nat \<Rightarrow> ('s, 'a) for_loop \<Rightarrow> bool" where
  "for_final n l \<longleftrightarrow> aborted l \<or> (\<forall>i < n. at l i = Stored)"

text \<open>What the loop leaves to the code behind it.\<close>

definition for_outcome :: "nat \<Rightarrow> ('s, 'a) for_loop \<Rightarrow> 'a list outcome" where
  "for_outcome n l = (if aborted l then Throw Process_end else Ret (map (\<lambda>i. the (outputs l i)) [0..<n]))"

text \<open>The work that is left: two steps per iteration.\<close>

fun steps_of :: "'a iteration \<Rightarrow> nat" where
  "steps_of Ready = 2"
| "steps_of (Computed v) = 1"
| "steps_of Stored = 0"

definition for_work :: "nat \<Rightarrow> ('s, 'a) for_loop \<Rightarrow> nat" where
  "for_work n l = (if aborted l then 0 else Suc (\<Sum>i<n. steps_of (at l i)))"

lemma steps_less:
  fixes n :: nat
  shows "i < n \<Longrightarrow> steps_of x < steps_of (a i) \<Longrightarrow> (\<Sum>j<n. steps_of ((a(i := x)) j)) < (\<Sum>j<n. steps_of (a j))"
  by (rule sum_strict_mono_ex1) auto

lemma for_step_work: "for_step f n l l' \<Longrightarrow> for_work n l' < for_work n l"
  by (erule for_stepE) (simp_all add: for_work_def steps_less del: fun_upd_apply)

text \<open>A loop of two iterations of which the second is done first.\<close>

definition second_first :: "'a \<Rightarrow> 'a \<Rightarrow> 's \<Rightarrow> ('s, 'a) for_loop" where
  "second_first a b u =
     \<lparr>loop_state = u, outputs = (\<lambda>_. None)(1 := Some b, 0 := Some a),
      at = (\<lambda>_. Ready)(1 := Stored, 0 := Stored), aborted = False\<rparr>"

lemma second_first_reach:
  assumes "f 1 s = (Ret b, t)" and "f 0 t = (Ret a, u)"
  shows "for_reach f 2 (for_start s) (second_first a b u)"
proof -
  let ?s = "for_start s"
  let ?a = "?s\<lparr>loop_state := t, at := (at ?s)(1 := Computed b)\<rparr>"
  let ?b = "?a\<lparr>loop_state := u, at := (at ?a)(0 := Computed a)\<rparr>"
  let ?c = "?b\<lparr>outputs := (outputs ?b)(1 := Some b), at := (at ?b)(1 := Stored)\<rparr>"
  let ?d = "?c\<lparr>outputs := (outputs ?c)(0 := Some a), at := (at ?c)(0 := Stored)\<rparr>"
  have 1: "for_step f 2 ?s ?a" by (rule compute) (use assms(1) in \<open>simp_all add: for_start_def\<close>)
  have 2: "for_step f 2 ?a ?b" by (rule compute) (use assms(2) in \<open>simp_all add: for_start_def\<close>)
  have 3: "for_step f 2 ?b ?c" by (rule put) (simp_all add: for_start_def)
  have 4: "for_step f 2 ?c ?d" by (rule put) (simp_all add: for_start_def)
  have "?d = second_first a b u" by (auto simp: second_first_def for_start_def fun_eq_iff)
  then show ?thesis using for_more [OF for_more [OF for_more [OF for_more [OF for_refl 1] 2] 3] 4] by simp
qed

lemma second_first_final: "for_final 2 (second_first a b u)" "for_outcome 2 (second_first a b u) = Ret [a, b]"
  by (auto simp: for_final_def for_outcome_def second_first_def less_2_cases_iff upt_rec)

text \<open>A loop whose iterations agree with \<open>g\<close> in every state the shared data can have.\<close>

locale parallel_loop =
  fixes f :: "nat \<Rightarrow> ('s, 'a) call"
    and g :: "nat \<Rightarrow> 'a outcome"
    and I :: "'s \<Rightarrow> bool"
  assumes iteration_law: "I s \<Longrightarrow> fst (f i s) = g i \<and> I (snd (f i s))"
begin

definition loop_inv :: "nat \<Rightarrow> ('s, 'a) for_loop \<Rightarrow> bool" where
  "loop_inv n l \<longleftrightarrow> I (loop_state l) \<and>
     (\<forall>i v. at l i = Computed v \<longrightarrow> g i = Ret v) \<and>
     (\<forall>i. at l i = Stored \<longrightarrow> (\<exists>v. outputs l i = Some v \<and> g i = Ret v)) \<and>
     (aborted l \<longrightarrow> (\<exists>i < n. \<exists>e. g i = Throw e))"

lemma step_inv:
  assumes "for_step f n l l'" "loop_inv n l"
  shows "loop_inv n l'"
  using assms(1)
proof (cases rule: for_step.cases)
  case (compute i v t)
  then show ?thesis using assms(2) iteration_law [of "loop_state l" i] by (auto simp: loop_inv_def)
next
  case (raise i e t)
  then have "g i = Throw e" "I t" using assms(2) iteration_law [of "loop_state l" i] by (auto simp: loop_inv_def)
  then show ?thesis using assms(2) raise by (auto simp: loop_inv_def)
next
  case (put i v)
  then show ?thesis using assms(2) by (auto simp: loop_inv_def)
qed

lemma reach_inv: "for_reach f n l l' \<Longrightarrow> loop_inv n l \<Longrightarrow> loop_inv n l'"
  by (induction rule: for_reach.induct) (auto intro: step_inv)

lemma begins: "I s \<Longrightarrow> loop_inv n (for_start s)"
  by (simp add: loop_inv_def for_start_def)

lemma never_stuck:
  assumes "loop_inv n l" "\<And>i. i < n \<Longrightarrow> g i \<noteq> Undef \<and> g i \<noteq> Diverge" "\<not> for_final n l"
  shows "\<exists>l'. for_step f n l l'"
proof -
  obtain i where i: "\<not> aborted l" "i < n" "at l i \<noteq> Stored" using assms(3) by (auto simp: for_final_def)
  show ?thesis
  proof (cases "at l i")
    case Ready
    have "fst (f i (loop_state l)) = g i" using assms(1) iteration_law by (simp add: loop_inv_def)
    moreover have "(\<exists>v. g i = Ret v) \<or> (\<exists>e. g i = Throw e)" using assms(2) [OF i(2)] by (cases "g i") auto
    ultimately have "(\<exists>v t. f i (loop_state l) = (Ret v, t)) \<or> (\<exists>e t. f i (loop_state l) = (Throw e, t))"
      by (metis prod.collapse)
    then show ?thesis using compute [OF i(1,2) Ready] raise [OF i(1,2) Ready] by metis
  next
    case (Computed v)
    then show ?thesis using put [OF i(1,2)] by blast
  qed (use i in simp)
qed

lemma final_outcome:
  assumes "loop_inv n l" "\<And>i. i < n \<Longrightarrow> g i \<noteq> Undef \<and> g i \<noteq> Diverge" "for_final n l"
  shows "for_outcome n l = parallel_outcome (omap g [0..<n])"
proof (cases "aborted l")
  case True
  then obtain i e where "i < n" "g i = Throw e" using assms(1) by (auto simp: loop_inv_def)
  then have "\<exists>e. omap g xs = Throw e" if "i \<in> set xs" "set xs \<subseteq> {..<n}" for xs
    using that
  proof (induction xs)
    case (Cons x xs)
    then show ?case using assms(2) [of x] by (cases "g x") auto
  qed simp
  from this [of "[0..<n]"] obtain e' where "omap g [0..<n] = Throw e'" using \<open>i < n\<close> by (auto simp: lessThan_atLeast0)
  then show ?thesis using True by (simp add: for_outcome_def parallel_outcome_def ocatch_def)
next
  case False
  then have all: "\<exists>v. outputs l i = Some v \<and> g i = Ret v" if "i < n" for i
    using assms(1,3) that by (simp add: loop_inv_def for_final_def)
  then have "list_all2 (\<lambda>i y. g i = Ret y) [0..<n] (map (\<lambda>i. the (outputs l i)) [0..<n])"
    by (fastforce simp: list_all2_conv_all_nth)
  then have "omap g [0..<n] = Ret (map (\<lambda>i. the (outputs l i)) [0..<n])" by (simp add: omap_eq_Ret)
  with False show ?thesis by (simp add: for_outcome_def)
qed

text \<open>The same iterations one after the other.\<close>

lemma in_order: "I s \<Longrightarrow> fst (cmap f is s) = omap g is \<and> I (snd (cmap f is s))"
proof (induction "is" arbitrary: s)
  case (Cons i "is")
  obtain r t where r: "f i s = (r, t)" by (cases "f i s")
  have law: "g i = r" "I t" using Cons.prems iteration_law [of s i] r by auto
  obtain rs u where rs: "cmap f is t = (rs, u)" by (cases "cmap f is t")
  have "omap g is = rs" "I u" using Cons.IH [OF law(2)] rs by auto
  then show ?case using law r rs by (cases r; cases rs) (simp_all add: cbind_def cret_def)
qed (simp add: cret_def)

end

section \<open>Loading the modules\<close>

definition module_iteration :: "winmods \<Rightarrow> process \<Rightarrow> 64 word list \<Rightarrow> nat \<Rightarrow> (unit, module_info) call" where
  "module_iteration w p modules pos s = (Factory_create w p (modules ! pos), s)"

interpretation loading: parallel_loop "module_iteration w p modules" "\<lambda>i. Factory_create w p (modules ! i)" "\<lambda>_. True"
  for w p modules
  by unfold_locales (simp add: module_iteration_def)

lemma omap_nth: "omap (\<lambda>i. f (xs ! i)) [0..<length xs] = omap f xs"
proof -
  have "omap (\<lambda>i. f (xs ! i)) ys = omap f (map ((!) xs) ys)" for ys by (induction ys) simp_all
  then show ?thesis by (simp add: map_nth)
qed

lemma loading_facts:
  fixes l :: "(unit, module_info) for_loop"
  assumes r: "for_reach (module_iteration w p hs) (length hs) (for_start ()) l"
    and ok: "\<And>h. h \<in> set hs \<Longrightarrow> Factory_create w p h \<noteq> Undef \<and> Factory_create w p h \<noteq> Diverge"
  shows "for_final (length hs) l \<Longrightarrow> for_outcome (length hs) l = parallel_outcome (omap (Factory_create w p) hs)"
    and "\<not> for_final (length hs) l \<Longrightarrow> \<exists>l'. for_step (module_iteration w p hs) (length hs) l l'"
proof -
  have inv: "loading.loop_inv w p hs (length hs) l" using loading.reach_inv [OF r loading.begins] by simp
  have ok': "Factory_create w p (hs ! i) \<noteq> Undef \<and> Factory_create w p (hs ! i) \<noteq> Diverge" if "i < length hs" for i
    using ok that by simp
  show "for_final (length hs) l \<Longrightarrow> for_outcome (length hs) l = parallel_outcome (omap (Factory_create w p) hs)"
    using loading.final_outcome [OF inv ok'] by (simp add: omap_nth)
  show "\<not> for_final (length hs) l \<Longrightarrow> \<exists>l'. for_step (module_iteration w p hs) (length hs) l l'"
    using loading.never_stuck [OF inv ok'] by blast
qed

section \<open>Properties\<close>

text \<open>However the iterations of the parallel loop interleave, \<open>get_loaded_modules\<close> does what it does when they
  run in order: a finished loop leaves every module in its slot, or has aborted the process because one
  module could not be read. A loop that is not finished can go on, and every step brings it nearer to its end.\<close>

theorem get_loaded_modules_any_order:
  fixes l :: "(unit, module_info) for_loop"
  assumes "module_handles w = Ret hs"
    and "for_reach (module_iteration w p hs) (length hs) (for_start ()) l"
    and "\<And>h. h \<in> set hs \<Longrightarrow> Factory_create w p h \<noteq> Undef \<and> Factory_create w p h \<noteq> Diverge"
  shows "(for_final (length hs) l \<longrightarrow>
      get_loaded_modules w p = obind (for_outcome (length hs) l) (\<lambda>ms. Ret (sort_key mod_address ms))) \<and>
    (\<not> for_final (length hs) l \<longrightarrow> (\<exists>l'. for_step (module_iteration w p hs) (length hs) l l')) \<and>
    (\<forall>l'. for_step (module_iteration w p hs) (length hs) l l' \<longrightarrow> for_work (length hs) l' < for_work (length hs) l)"
  using loading_facts [OF assms(2,3)] for_step_work
  by (auto simp: get_loaded_modules_def assms(1))

text \<open>Two handles of the example module; the second iteration is done first.\<close>

definition two_handles :: winmods where
  "two_handles = (example_winmods [])\<lparr>enum_modules := (\<lambda>k. Some [65536, 65536])\<rparr>"

lemma name_loop_cong:
  "module_file_name w = module_file_name v \<Longrightarrow> name_loop w h sz buf = name_loop v h sz buf"
proof (induction w h sz buf rule: name_loop.induct)
  case (1 w h sz buf)
  then show ?case by (subst (1 2) name_loop.simps) (simp add: name_call_def Let_def split_beta)
qed

lemma two_handles_create: "Factory_create two_handles (example_process e) 65536 = Ret example_module"
proof -
  have "name_loop two_handles h sz buf = name_loop (example_winmods []) h sz buf" for h sz buf
    by (rule name_loop_cong) (simp add: two_handles_def)
  then have "Factory_create two_handles p h = Factory_create (example_winmods []) p h" for p h
    by (simp add: Factory_create_def get_name_def get_path_def file_name_text_def)
  then show ?thesis by (simp add: example_create)
qed

lemma two_handles_list: "module_handles two_handles = Ret [65536, 65536]"
  using module_handles_two_calls [of two_handles "[65536, 65536]" "[65536, 65536]"] by (simp add: two_handles_def)

theorem get_loaded_modules_any_order_witness:
  "get_loaded_modules two_handles (example_process False) = Ret [example_module, example_module]"
proof -
  let ?f = "module_iteration two_handles (example_process False) [65536, 65536]"
  have "?f 1 () = (Ret example_module, ())" "?f 0 () = (Ret example_module, ())"
    by (simp_all add: module_iteration_def two_handles_create)
  note reach = second_first_reach [of ?f, OF this, unfolded numeral_2_eq_2]
  show ?thesis
    using get_loaded_modules_any_order [OF two_handles_list, of "example_process False" "second_first example_module example_module ()"]
      reach by (simp add: two_handles_create second_first_final [unfolded numeral_2_eq_2])
qed

end
