(* ===== verification/Introspection.thy ===== *)
theory Introspection
  imports ModuleTable
begin

text \<open>
  \<open>CrashHandler/Introspection/\<close>: what a 64-bit value found in a register or on the stack may be: the
  address of an object with a virtual table, a printable text, a pointer into a module, or a number.
\<close>

section \<open>get_module_for_pointer\<close>

text \<open>
  \<open>std::lower_bound\<close> halves the range \<open>[first, first + len)\<close>; its predicate holds on a prefix of a
  partitioned list. The modules are searched from the last to the first.
\<close>

function lower_bound :: "('a \<Rightarrow> bool) \<Rightarrow> 'a list \<Rightarrow> nat \<Rightarrow> nat \<Rightarrow> nat" where
  "lower_bound cmp xs first len =
     (if len = 0 then first
      else let step = len div 2; it = first + step in
        if cmp (xs ! it) then lower_bound cmp xs (it + 1) (len - (step + 1))
        else lower_bound cmp xs first step)"
  by pat_completeness auto
termination by (relation "measure (\<lambda>(cmp, xs, first, len). len)") auto

declare lower_bound.simps [simp del]

definition get_module_for_pointer :: "64 word \<Rightarrow> module_info list \<Rightarrow> module_info option" where
  "get_module_for_pointer a_ptr a_modules =
     (let reversed = rev a_modules;
          it = lower_bound (\<lambda>m. a_ptr \<le> mod_address m) reversed 0 (length reversed)
      in if it < length reversed \<and> in_range (reversed ! it) a_ptr then Some (reversed ! it) else None)"

text \<open>What the clients of the search rely on: a module that is found is one of the given ones and holds the
  pointer. Testing once more whether it holds it changes nothing.\<close>

locale module_lookup =
  fixes lookup :: "64 word \<Rightarrow> 'm list \<Rightarrow> 'm option"
    and covers :: "'m \<Rightarrow> 64 word \<Rightarrow> bool"
  assumes found: "lookup p ms = Some m \<Longrightarrow> m \<in> set ms \<and> covers m p"
begin

lemma found_member: "lookup p ms = Some m \<Longrightarrow> m \<in> set ms"
  using found by blast

lemma not_found: "(\<And>m. m \<in> set ms \<Longrightarrow> \<not> covers m p) \<Longrightarrow> lookup p ms = None"
  using found by (cases "lookup p ms") blast+

lemma found_again: "(case lookup p ms of Some m \<Rightarrow> if covers m p then Some m else None | None \<Rightarrow> None) = lookup p ms"
  using found by (auto split: option.split)

end

interpretation modules: module_lookup get_module_for_pointer in_range
proof
  fix p ms m
  assume "get_module_for_pointer p ms = Some m"
  then show "m \<in> set ms \<and> in_range m p"
    by (auto simp: get_module_for_pointer_def Let_def split: if_splits) (metis length_rev nth_mem set_rev)
qed

section \<open>The kinds of values\<close>

datatype analysis_result =
    Integer_result "64 word"
  | Pointer_result "(module_info \<times> 64 word) option"
  | Polymorphic_result string
  | String_result string

definition Pointer_ctor :: "64 word \<Rightarrow> module_info list \<Rightarrow> (module_info \<times> 64 word) option" where
  "Pointer_ctor a_ptr a_modules = map_option (\<lambda>m. (m, a_ptr)) (get_module_for_pointer a_ptr a_modules)"

definition Integer_name :: "64 word \<Rightarrow> string" where
  "Integer_name v =
     (if bit v 63 then ''(size_t) [uint: '' @ show_nat (unat v) @ '' int: '' @ show_int (sint v) @ '']''
      else ''(size_t) ['' @ show_nat (unat v) @ '']'')"

definition Pointer_name :: "dia \<Rightarrow> fs \<Rightarrow> string \<Rightarrow> process \<Rightarrow> (module_info \<times> 64 word) option \<Rightarrow> string crash" where
  "Pointer_name d fs symcache p ptr =
     (case ptr of
        None \<Rightarrow> cret ''(void*)''
      | Some (m, address) \<Rightarrow>
          cbind (pdb_details d fs symcache (mod_path m) (address - mod_address m)) (\<lambda>pdbDetails.
          cbind (coutcome (mod_assembly p address)) (\<lambda>assembly.
            cret (''(void* -> '' @ mod_name m @ offset_text (address - mod_address m) @ [CHR 0x09] @ assembly @
                  (if pdbDetails \<noteq> [] then '' | '' @ pdbDetails else []) @ '')''))))"

text \<open>The mangled name without its first character; an empty name leaves nothing to read. A result is at
  most one character shorter than the buffer.\<close>

definition Polymorphic_name :: "process \<Rightarrow> string \<Rightarrow> string outcome" where
  "Polymorphic_name p mangled =
     (if mangled = [] then Undef
      else let out = undecorate p (tl mangled)
           in Ret (if out \<noteq> [] then ''('' @ out @ ''*)'' else ''(ERROR)''))"

definition String_name :: "string \<Rightarrow> string" where
  "String_name s = ''(char*) '' @ [CHR 0x22] @ s @ [CHR 0x22]"

text \<open>A \<open>string_view\<close> made from an address: the characters up to the zero.\<close>

definition cstr_guard :: "process \<Rightarrow> 64 word \<times> string \<Rightarrow> bool outcome" where
  "cstr_guard p st = obind (peek p (fst st)) (\<lambda>b. Ret (b \<noteq> 0))"

definition cstr_body :: "process \<Rightarrow> 64 word \<times> string \<Rightarrow> (64 word \<times> string) outcome" where
  "cstr_body p st = obind (peek p (fst st)) (\<lambda>b. Ret (fst st + 1, snd st @ [char_of (unat b)]))"

definition read_cstr :: "process \<Rightarrow> 64 word \<Rightarrow> string outcome" where
  "read_cstr p a = obind (cwhile (cstr_guard p) (cstr_body p) (a, [])) (\<lambda>st. Ret (snd st))"

definition analyze_polymorphic :: "process \<Rightarrow> 64 word \<Rightarrow> module_info list \<Rightarrow> string option outcome" where
  "analyze_polymorphic p a_ptr a_modules =
     ocatch
       (obind (peek64 p a_ptr) (\<lambda>vtable.
        case get_module_for_pointer vtable a_modules of
          None \<Rightarrow> Ret None
        | Some m \<Rightarrow>
            if \<not> in_rdata_range m vtable then Ret None
            else obind (peek64 p (vtable - 8)) (\<lambda>col.
              if get_module_for_pointer col a_modules \<noteq> Some m \<or> \<not> in_rdata_range m col then Ret None
              else obind (peek32 p (col + 12)) (\<lambda>offset.
                let typeDesc = mod_address m + ucast offset in
                if get_module_for_pointer typeDesc a_modules \<noteq> Some m \<or> \<not> in_data_range m typeDesc then Ret None
                else obind (peek64 p typeDesc) (\<lambda>v.
                  if v \<noteq> mod_typeInfo m then Ret None
                  else obind (read_cstr p (typeDesc + 16)) (\<lambda>name. Ret (Some name)))))))
       (Ret None)"

definition printable :: "8 word \<Rightarrow> bool" where
  "printable b \<longleftrightarrow> (32 \<le> b \<and> b \<le> 126) \<or> b = 9 \<or> b = 10"

text \<open>The loop over at most \<open>n\<close> characters: \<open>None\<close> at an unprintable one, otherwise those before the zero.\<close>

fun scan_string :: "process \<Rightarrow> 64 word \<Rightarrow> nat \<Rightarrow> string option outcome" where
  "scan_string p a 0 = Ret (Some [])"
| "scan_string p a (Suc n) =
     obind (peek p a) (\<lambda>b.
       if b = 0 then Ret (Some [])
       else if \<not> printable b then Ret None
       else obind (scan_string p (a + 1) n) (\<lambda>r. Ret (map_option ((#) (char_of (unat b))) r)))"

definition analyze_string :: "process \<Rightarrow> 64 word \<Rightarrow> string option outcome" where
  "analyze_string p a_ptr =
     ocatch
       (obind (scan_string p a_ptr 1000) (\<lambda>r.
          Ret (case r of Some s \<Rightarrow> if length s = 0 \<or> 1000 \<le> length s then None else Some s | None \<Rightarrow> None)))
       (Ret None)"

definition analyze_pointer :: "process \<Rightarrow> 64 word \<Rightarrow> module_info list \<Rightarrow> analysis_result outcome" where
  "analyze_pointer p a_ptr a_modules =
     obind (analyze_polymorphic p a_ptr a_modules) (\<lambda>poly.
       case poly of
         Some name \<Rightarrow> Ret (Polymorphic_result name)
       | None \<Rightarrow>
           obind (analyze_string p a_ptr) (\<lambda>str.
             case str of
               Some s \<Rightarrow> Ret (String_result s)
             | None \<Rightarrow> Ret (Pointer_result (Pointer_ctor a_ptr a_modules))))"

definition analyze_integer :: "process \<Rightarrow> 64 word \<Rightarrow> module_info list \<Rightarrow> analysis_result outcome" where
  "analyze_integer p a_value a_modules =
     ocatch
       (if a_value \<noteq> 0 then obind (peek p a_value) (\<lambda>_. analyze_pointer p a_value a_modules)
        else Ret (Integer_result a_value))
       (Ret (Integer_result a_value))"

definition result_name :: "dia \<Rightarrow> fs \<Rightarrow> string \<Rightarrow> process \<Rightarrow> analysis_result \<Rightarrow> string crash" where
  "result_name d fs symcache p r =
     (case r of
        Integer_result v \<Rightarrow> cret (Integer_name v)
      | Pointer_result ptr \<Rightarrow> Pointer_name d fs symcache p ptr
      | Polymorphic_result s \<Rightarrow> coutcome (Polymorphic_name p s)
      | String_result s \<Rightarrow> cret (String_name s))"

text \<open>The parallel loop: one slot per value; its calls of \<open>pdb_details\<close> exclude each other and are taken in
  the order of the values here (\<open>ParallelAnalysis\<close> lets them interleave).\<close>

definition analyze_value :: "dia \<Rightarrow> fs \<Rightarrow> string \<Rightarrow> process \<Rightarrow> module_info list \<Rightarrow> 64 word \<Rightarrow> string crash" where
  "analyze_value d fs symcache p a_modules a_val =
     cbind (coutcome (analyze_integer p a_val a_modules)) (result_name d fs symcache p)"

definition analyze_data :: "dia \<Rightarrow> fs \<Rightarrow> string \<Rightarrow> process \<Rightarrow> 64 word list \<Rightarrow> module_info list \<Rightarrow> string list crash" where
  "analyze_data d fs symcache p a_data a_modules = noexcept_call (cmap (analyze_value d fs symcache p a_modules) a_data)"

section \<open>The search\<close>

text \<open>On a partitioned range halving finds what a linear search finds.\<close>

lemma lower_bound_linear:
  assumes "\<And>i j. i \<le> j \<Longrightarrow> j < length xs \<Longrightarrow> cmp (xs ! j) \<Longrightarrow> cmp (xs ! i)"
    and "first + len \<le> length xs" and "\<And>i. i < first \<Longrightarrow> cmp (xs ! i)"
    and "\<And>i. first + len \<le> i \<Longrightarrow> i < length xs \<Longrightarrow> \<not> cmp (xs ! i)"
  shows "lower_bound cmp xs first len = length (takeWhile cmp xs)"
  using assms(2-4)
proof (induction len arbitrary: first rule: less_induct)
  case (less len)
  show ?case
  proof (cases "len = 0")
    case True
    have "takeWhile cmp xs = take first xs"
      using less.prems True by (intro takeWhile_eq_take_P_nth) auto
    then show ?thesis using True less.prems(1) by (subst lower_bound.simps) simp
  next
    case False
    let ?it = "first + len div 2"
    have it: "?it < length xs" "len div 2 < len" using False less.prems(1) by linarith+
    show ?thesis
    proof (cases "cmp (xs ! ?it)")
      case True
      then have "cmp (xs ! i)" if "i < ?it + 1" for i using assms(1) [of i ?it] that it by simp
      then have "lower_bound cmp xs (?it + 1) (len - (len div 2 + 1)) = length (takeWhile cmp xs)"
        using less.prems it False by (intro less.IH) auto
      then show ?thesis using True False by (subst lower_bound.simps) (simp add: Let_def)
    next
      case no: False
      then have "\<not> cmp (xs ! i)" if "?it \<le> i" "i < length xs" for i using assms(1) [of ?it i] that by blast
      then have "lower_bound cmp xs first (len div 2) = length (takeWhile cmp xs)"
        using less.prems it by (intro less.IH) auto
      then show ?thesis using no False by (subst lower_bound.simps) (simp add: Let_def)
    qed
  qed
qed

text \<open>Modules in the order of their addresses whose images do not overlap or wrap around.\<close>

definition mod_end :: "module_info \<Rightarrow> nat" where
  "mod_end m = unat (mod_address m) + unat (snd (mod_image m))"

definition apart :: "module_info list \<Rightarrow> bool" where
  "apart ms \<longleftrightarrow> sorted_wrt (\<lambda>a b. mod_end a \<le> unat (mod_address b)) ms \<and> (\<forall>m \<in> set ms. mod_end m < 2 ^ 64)"

lemma in_range_nat:
  assumes "mod_end m < 2 ^ 64"
  shows "in_range m p \<longleftrightarrow> unat (mod_address m) \<le> unat p \<and> unat p < mod_end m"
proof -
  have "unat (fst (mod_image m) + snd (mod_image m)) = mod_end m"
    using assms by (simp add: mod_end_def mod_address_def unat_word_ariths)
  then show ?thesis by (simp add: in_range_def in_span_def mod_address_def word_le_nat_alt word_less_nat_alt)
qed

lemma find_append: "List.find P (xs @ ys) = (case List.find P xs of None \<Rightarrow> List.find P ys | Some x \<Rightarrow> Some x)"
  by (induction xs) simp_all

lemma get_module_linear:
  assumes "apart ms"
  shows "get_module_for_pointer p ms =
    (case dropWhile (\<lambda>m. p \<le> mod_address m) (rev ms) of [] \<Rightarrow> None | m # _ \<Rightarrow> if in_range m p then Some m else None)"
proof -
  let ?cmp = "\<lambda>m. p \<le> mod_address m"
  have desc: "sorted_wrt (\<lambda>a b. mod_address b \<le> mod_address a) (rev ms)"
    using assms unfolding apart_def sorted_wrt_rev
    by (auto elim!: sorted_wrt_mono_rel [rotated] simp: mod_end_def word_le_nat_alt)
  have "?cmp (rev ms ! i)" if "i \<le> j" "j < length (rev ms)" "?cmp (rev ms ! j)" for i j
    using sorted_wrt_nth_less [OF desc, of i j] that by (cases "i = j") (auto intro: order_trans)
  then have "lower_bound ?cmp (rev ms) 0 (length (rev ms)) = length (takeWhile ?cmp (rev ms))"
    by (intro lower_bound_linear) auto
  moreover have "dropWhile ?cmp (rev ms) = drop (length (takeWhile ?cmp (rev ms))) (rev ms)"
    by (rule dropWhile_eq_drop)
  ultimately have it: "lower_bound ?cmp (rev ms) 0 (length (rev ms)) = k" and rest: "dropWhile ?cmp (rev ms) = drop k (rev ms)"
    if "k = length (takeWhile ?cmp (rev ms))" for k using that by simp_all
  define k where "k = length (takeWhile ?cmp (rev ms))"
  show ?thesis
  proof (cases "k < length (rev ms)")
    case True
    then have "drop k (rev ms) = rev ms ! k # drop (Suc k) (rev ms)" by (rule Cons_nth_drop_Suc [symmetric])
    then show ?thesis using True it [OF k_def] rest [OF k_def] by (simp add: get_module_for_pointer_def Let_def)
  next
    case False
    then have "drop k (rev ms) = []" by simp
    then show ?thesis unfolding rest [OF k_def] using False it [OF k_def] by (simp add: get_module_for_pointer_def Let_def)
  qed
qed

section \<open>Texts\<close>

fun chars_at :: "process \<Rightarrow> 64 word \<Rightarrow> 8 word list \<Rightarrow> bool" where
  "chars_at p a [] \<longleftrightarrow> True"
| "chars_at p a (b # bs) \<longleftrightarrow> memory p a = Some b \<and> printable b \<and> chars_at p (a + 1) bs"

definition text_at :: "process \<Rightarrow> 64 word \<Rightarrow> 8 word list \<Rightarrow> bool" where
  "text_at p a bs \<longleftrightarrow> chars_at p a bs \<and> memory p (a + word_of_nat (length bs)) = Some 0"

lemma text_at_simps:
  "text_at p a [] \<longleftrightarrow> memory p a = Some 0"
  "text_at p a (b # bs) \<longleftrightarrow> memory p a = Some b \<and> printable b \<and> text_at p (a + 1) bs"
  by (auto simp: text_at_def add.assoc)

lemma length_memory_string [simp]: "length (memory_string bs) = length bs"
  by (simp add: memory_string_def)

lemma memory_string_simps [simp]: "memory_string [] = []" "memory_string bs = [] \<longleftrightarrow> bs = []" "memory_string (b # bs) = char_of (unat b) # memory_string bs"
  by (simp_all add: memory_string_def)

lemma scan_string_finds:
  "scan_string p a n = Ret (Some s) \<longleftrightarrow>
    (\<exists>bs. s = memory_string bs \<and> (length bs < n \<and> text_at p a bs \<or> length bs = n \<and> chars_at p a bs))"
proof (induction n arbitrary: a s)
  case (Suc n)
  show ?case
  proof (cases "memory p a")
    case None
    then have "scan_string p a (Suc n) \<noteq> Ret (Some s)" by (simp add: peek_def)
    moreover have "\<not> text_at p a bs" "length bs = Suc n \<Longrightarrow> \<not> chars_at p a bs" for bs
      using None by (cases bs; simp add: text_at_simps)+
    ultimately show ?thesis by blast
  next
    case (Some b)
    then have peek: "peek p a = Ret b" by (simp add: peek_eq_Ret)
    have zero: "\<not> printable 0" by (simp add: printable_def)
    have tx: "text_at p a bs \<longleftrightarrow> (if b = 0 then bs = [] else \<exists>r. bs = b # r \<and> printable b \<and> text_at p (a + 1) r)" for bs
      using Some zero by (cases bs) (auto simp: text_at_simps)
    have chars: "length bs = Suc n \<and> chars_at p a bs \<longleftrightarrow> (\<exists>r. bs = b # r \<and> printable b \<and> length r = n \<and> chars_at p (a + 1) r)" for bs
      using Some by (cases bs) auto
    have "scan_string p a (Suc n) = Ret (Some s) \<longleftrightarrow>
        (if b = 0 then s = [] else printable b \<and> (\<exists>t. s = char_of (unat b) # t \<and> scan_string p (a + 1) n = Ret (Some t)))"
      using peek by (auto simp: obind_eq_Ret)
    also have "\<dots> \<longleftrightarrow> (\<exists>bs. s = memory_string bs \<and> (length bs < Suc n \<and> text_at p a bs \<or> length bs = Suc n \<and> chars_at p a bs))"
    proof (cases "b = 0")
      case True
      then show ?thesis unfolding tx chars using zero by auto
    next
      case False
      show ?thesis
        unfolding tx chars Suc.IH if_not_P [OF False]
        by (intro iffI; elim exE conjE disjE) (simp_all; metis length_Cons memory_string_simps(3) Suc_less_eq)+
    qed
    finally show ?thesis .
  qed
qed (auto simp: memory_string_def)

lemma example_apart: "apart [example_module]"
  by (simp add: apart_def mod_end_def example_module_def mod_address_def)

text \<open>A \<open>string_view\<close> from an address holds the bytes up to the zero.\<close>

fun nonzero_at :: "process \<Rightarrow> 64 word \<Rightarrow> 8 word list \<Rightarrow> bool" where
  "nonzero_at p a [] \<longleftrightarrow> memory p a = Some 0"
| "nonzero_at p a (b # bs) \<longleftrightarrow> memory p a = Some b \<and> b \<noteq> 0 \<and> nonzero_at p (a + 1) bs"

lemma read_cstr_nonzero:
  assumes "nonzero_at p a bs"
  shows "read_cstr p a = Ret (memory_string bs)"
proof -
  have "\<exists>e. cwhile (cstr_guard p) (cstr_body p) (a, acc) = Ret (e, acc @ memory_string bs)" for acc
    using assms
  proof (induction bs arbitrary: a acc)
    case Nil
    then show ?case by (auto simp: cwhile_stop cstr_guard_def peek_def)
  next
    case (Cons b bs)
    then have "cwhile (cstr_guard p) (cstr_body p) (a, acc) = cwhile (cstr_guard p) (cstr_body p) (a + 1, acc @ [char_of (unat b)])"
      by (intro cwhile_step) (simp_all add: cstr_guard_def cstr_body_def peek_def)
    then show ?case using Cons.IH [of "a + 1" "acc @ [char_of (unat b)]"] Cons.prems by simp
  qed
  from this [of "[]"] show ?thesis by (auto simp: read_cstr_def)
qed

text \<open>On modules that are apart the search is a linear search for a module that holds the pointer, except
  at its first byte.\<close>

lemma get_module_finds:
  assumes "apart ms"
  shows "get_module_for_pointer p ms = List.find (\<lambda>m. in_range m p \<and> p \<noteq> mod_address m) ms"
proof -
  have "(case dropWhile (\<lambda>m. p \<le> mod_address m) (rev ms) of [] \<Rightarrow> None | m # _ \<Rightarrow> if in_range m p then Some m else None) =
      List.find (\<lambda>m. in_range m p \<and> p \<noteq> mod_address m) ms"
    using assms
  proof (induction ms rule: rev_induct)
    case (snoc m ms)
    show ?case
    proof (cases "p \<le> mod_address m")
      case True
      then have "\<not> (in_range m p \<and> p \<noteq> mod_address m)" by (auto simp: in_range_def in_span_def mod_address_def)
      with True snoc show ?thesis by (auto simp: apart_def sorted_wrt_append find_append split: option.split)
    next
      case False
      have "\<not> in_range m' p" if "m' \<in> set ms" for m'
        using snoc.prems that False by (auto simp: apart_def sorted_wrt_append in_range_nat word_le_nat_alt)
      then have "List.find (\<lambda>m. in_range m p \<and> p \<noteq> mod_address m) ms = None" by (auto simp: find_None_iff)
      with False show ?thesis by (auto simp: find_append)
    qed
  qed simp
  then show ?thesis using get_module_linear [OF assms] by simp
qed

text \<open>Images that take up memory, do not wrap around and do not overlap, in any order: the loader sees to
  that. In the order of \<open>get_loaded_modules\<close> they are apart.\<close>

definition separate :: "module_info list \<Rightarrow> bool" where
  "separate ms \<longleftrightarrow>
     (\<forall>m \<in> set ms. unat (mod_address m) < mod_end m \<and> mod_end m < 2 ^ 64) \<and>
     sorted_wrt (\<lambda>a b. mod_end a \<le> unat (mod_address b) \<or> mod_end b \<le> unat (mod_address a)) ms"

lemma separate_sorted:
  assumes "separate ms" and "sorted (map mod_address ms)"
  shows "apart ms"
proof -
  have "sorted_wrt (\<lambda>a b. mod_end a \<le> unat (mod_address b)) ms"
    using assms
  proof (induction ms)
    case (Cons m ms)
    have "mod_end m \<le> unat (mod_address n)" if "n \<in> set ms" for n
      using Cons.prems that by (fastforce simp: separate_def word_le_nat_alt)
    moreover have "sorted_wrt (\<lambda>a b. mod_end a \<le> unat (mod_address b)) ms"
      using Cons by (simp add: separate_def)
    ultimately show ?case by simp
  qed simp
  then show ?thesis using assms(1) by (simp add: apart_def separate_def)
qed

text \<open>Values that are 0 or point nowhere.\<close>

lemma analyze_data_numbers:
  assumes "\<And>v. v \<in> set vs \<Longrightarrow> v = 0 \<or> memory p v = None"
  shows "analyze_data d fs symcache p vs ms s = (if eha p \<or> set vs \<subseteq> {0} then Ret (map Integer_name vs) else Undef, s)"
proof -
  have one: "analyze_value d fs symcache p ms v = (if eha p \<or> v = 0 then cret (Integer_name v) else coutcome Undef)"
    if "v \<in> set vs" for v
    using assms [OF that] by (auto simp: analyze_value_def analyze_integer_def peek_def result_name_def)
  have "cmap (analyze_value d fs symcache p ms) us s =
      (if eha p \<or> set us \<subseteq> {0} then Ret (map Integer_name us) else Undef, s)" if "set us \<subseteq> set vs" for us
    using that
  proof (induction us)
    case (Cons u us)
    then show ?case using one [of u] by (auto simp: cbind_def)
  qed simp
  then show ?thesis by (auto simp: analyze_data_def noexcept_call_def)
qed

lemma analyze_data_zeros: "analyze_data d fs symcache p (replicate n 0) ms s = (Ret (replicate n (Integer_name 0)), s)"
  by (subst analyze_data_numbers) auto

section \<open>Properties\<close>

text \<open>C31: among the modules that \<open>get_loaded_modules\<close> returns, when their images do not overlap, the halving
  search of \<open>get_module_for_pointer\<close> finds what a linear search for the module whose image holds the
  pointer finds, except that a pointer to the very first byte of a module, its handle, belongs to
  no module.\<close>

theorem get_module_for_pointer_finds:
  assumes "get_loaded_modules w p' = Ret ms" and "separate ms"
  shows "get_module_for_pointer p ms = List.find (\<lambda>m. in_range m p \<and> p \<noteq> mod_address m) ms"
proof -
  have "sorted (map mod_address ms)" using assms(1) by (auto simp: get_loaded_modules_def obind_eq_Ret)
  with assms(2) show ?thesis by (intro get_module_finds separate_sorted)
qed

theorem get_module_for_pointer_finds_witness:
  "get_module_for_pointer 65537 [example_module] = Some example_module \<and> get_module_for_pointer 65536 [example_module] = None"
proof -
  have "separate [example_module]" by (simp add: separate_def mod_end_def example_module_def mod_address_def)
  from get_module_for_pointer_finds [OF example_modules this]
  show ?thesis by (simp add: in_range_def in_span_def example_module_def mod_address_def)
qed

text \<open>\<open>analyze_string\<close> recognises exactly the texts of 1 to 999 printable characters that end with a
  zero, and returns them whole.\<close>

theorem analyze_string_finds:
  "analyze_string p a = Ret (Some s) \<longleftrightarrow> (\<exists>bs. 0 < length bs \<and> length bs < 1000 \<and> text_at p a bs \<and> s = memory_string bs)"
proof -
  have "analyze_string p a = Ret (Some s) \<longleftrightarrow> scan_string p a 1000 = Ret (Some s) \<and> 0 < length s \<and> length s < 1000"
    by (cases "scan_string p a 1000") (auto simp: analyze_string_def ocatch_def split: option.splits if_splits)
  also have "\<dots> \<longleftrightarrow> (\<exists>bs. 0 < length bs \<and> length bs < 1000 \<and> text_at p a bs \<and> s = memory_string bs)"
    unfolding scan_string_finds by (auto; metis)
  finally show ?thesis .
qed




text \<open>An object with a virtual table is recognised only when the first word of its type descriptor is
  null: \<open>get_loaded_modules\<close> never finds the virtual table of \<open>type_info\<close> that it is compared with.\<close>

theorem analyze_polymorphic_needs_null:
  assumes "get_loaded_modules w p' = Ret ms" and "analyze_polymorphic p a ms = Ret (Some name)"
  shows "\<exists>m typeDesc. m \<in> set ms \<and> in_data_range m typeDesc \<and> peek64 p typeDesc = Ret 0 \<and>
    read_cstr p (typeDesc + 16) = Ret name"
proof -
  have "mod_typeInfo m = 0" if "m \<in> set ms" for m
    using loaded_modules [OF assms(1)] that by (auto simp: module_of_def)
  then show ?thesis using assms(2) modules.found_member
    by (auto simp: analyze_polymorphic_def ocatch_def Let_def obind_eq_Ret split: outcome.splits option.splits if_splits; blast)
qed


lemma example_object: "analyze_polymorphic (example_process e) 73984 [example_module] = Ret (Some ''.?AVX@@'')"
proof -
  let ?p = "example_process e"
  have words: "peek64 ?p 73984 = Ret 69888" "peek64 ?p 69880 = Ret 69664" "peek32 ?p 69676 = Ret 8224" "peek64 ?p 73760 = Ret 0"
    by (simp_all add: peek64_def peek32_def peek_bytes_8 peek_bytes_4 peek_def example_process_def example_bytes_def)
  have ranges: "in_rdata_range example_module v \<longleftrightarrow> 69632 \<le> v \<and> v < 70144" "in_data_range example_module v \<longleftrightarrow> 73728 \<le> v \<and> v < 74240"
    "in_range example_module v \<longleftrightarrow> 65536 \<le> v \<and> v < 77824" "mod_address example_module = 65536" "mod_typeInfo example_module = 0" for v
    by (simp_all add: example_module_def in_range_def in_rdata_range_def in_data_range_def in_span_def mod_address_def)
  have modules: "get_module_for_pointer v [example_module] = (if 65536 < v \<and> v < 77824 then Some example_module else None)" for v
    by (auto simp: get_module_linear [OF example_apart] ranges)
  have "nonzero_at ?p 73776 [46, 63, 65, 86, 88, 64, 64]" by code_simp
  from read_cstr_nonzero [OF this] have name: "read_cstr ?p 73776 = Ret ''.?AVX@@''"
    by (simp only:) code_simp
  show ?thesis by (simp add: analyze_polymorphic_def words modules ranges name Let_def)
qed

theorem analyze_polymorphic_needs_null_witness:
  "\<exists>typeDesc. in_data_range example_module typeDesc \<and> peek64 (example_process False) typeDesc = Ret 0 \<and>
    read_cstr (example_process False) (typeDesc + 16) = Ret ''.?AVX@@''"
  using analyze_polymorphic_needs_null [OF example_modules [of False] example_object] by auto

end
