(* ===== verification/ParallelAnalysis.thy ===== *)
theory ParallelAnalysis
  imports ParallelLoop Introspection
begin

text \<open>
  The parallel loop of \<open>analyze_data\<close> (\<open>CrashHandler/Introspection/Introspection.cpp\<close>), with interleaved
  iterations. They share the static state of \<open>pdb_details\<close>; an iteration touches it in one critical section
  (the mutex \<open>sync\<close>) at most, so that computing its text is one step. The order in which the
  iterations reach \<open>pdb_details\<close> decides what its static state is at each call; the texts do not depend on it
  as long as COM can be initialised whenever it is asked for.
\<close>

section \<open>pdb_details from different states\<close>

text \<open>The cached answer about the symbol cache is the one a new test would give.\<close>

definition cache_known :: "fs \<Rightarrow> string \<Rightarrow> crash_state \<Rightarrow> bool" where
  "cache_known fs symcache s \<longleftrightarrow>
     symcacheValid s = (symcacheChecked s \<and> symcache \<noteq> [] \<and> exists_path fs symcache \<and> is_directory fs symcache)"

definition com_available :: "dia \<Rightarrow> bool" where
  "com_available d \<longleftrightarrow> (\<forall>n. \<not> failed (co_initialize d n))"

definition same_cache :: "crash_state \<Rightarrow> crash_state \<Rightarrow> bool" where
  "same_cache s t \<longleftrightarrow> symcacheValid s = symcacheValid t \<and> symcacheChecked s = symcacheChecked t"

lemma same_cache_parts [simp]:
  "same_cache s s" "same_cache (com_start d s) s" "same_cache (com_stop s) t = same_cache s t"
  "same_cache (create_source d s) t = same_cache s t" "same_cache (s\<lparr>hr := h\<rparr>) t = same_cache s t"
  by (simp_all add: same_cache_def com_start_def com_stop_def create_source_def Let_def)

lemma load_pdb_state:
  "fst (load_pdb d f ps s) = fst (load_pdb d f ps t) \<and> same_cache (snd (load_pdb d f ps s)) s"
proof (induction ps arbitrary: s t)
  case (Cons p ps)
  have "same_cache (snd (load_pdb d f ps (s\<lparr>hr := h\<rparr>))) s" for h
    using Cons [of "s\<lparr>hr := h\<rparr>"] by (auto simp: same_cache_def)
  then show ?case using Cons [of "s\<lparr>hr := load_data d f p\<rparr>" "t\<lparr>hr := load_data d f p\<rparr>"] by (simp add: Let_def)
qed simp

lemma run_state:
  "fst (run_until_failure hs s) = fst (run_until_failure hs t) \<and> same_cache (snd (run_until_failure hs s)) s"
proof (induction hs arbitrary: s t)
  case (Cons h hs)
  have "same_cache (snd (run_until_failure hs (s\<lparr>hr := h\<rparr>))) s"
    using Cons [of "s\<lparr>hr := h\<rparr>"] by (auto simp: same_cache_def)
  then show ?case using Cons [of "s\<lparr>hr := h\<rparr>" "t\<lparr>hr := h\<rparr>"] by simp
qed simp

text \<open>What a call gives when COM is available, as a function of its arguments alone.\<close>

definition pdb_text :: "dia \<Rightarrow> fs \<Rightarrow> string \<Rightarrow> string \<Rightarrow> 64 word \<Rightarrow> string outcome" where
  "pdb_text d fs symcache a_name a_offset =
     (let file_name = dll_path a_name;
          valid = (symcache \<noteq> [] \<and> exists_path fs symcache \<and> is_directory fs symcache);
          paths = sPluginPath # (if valid then [''cache*'' @ symcache] else [])
      in if failed (create_local d) \<and> failed (create_registered d) then Ret []
         else obind (fst (load_pdb d file_name paths fresh_crash)) (\<lambda>found.
           if found \<and> fst (run_until_failure (open_steps d file_name) fresh_crash) then pdb_lookup d file_name (ucast a_offset)
           else Ret []))"

lemma pdb_details_text:
  assumes com: "com_available d" and known: "cache_known fs symcache s"
  shows "fst (pdb_details d fs symcache a_name a_offset s) = pdb_text d fs symcache a_name a_offset \<and>
    cache_known fs symcache (snd (pdb_details d fs symcache a_name a_offset s))"
proof -
  let ?s1 = "com_start d s" and ?file = "dll_path a_name"
  let ?s2 = "create_source d ?s1"
  let ?s3 = "check_symcache fs symcache ?s2"
  let ?l = "load_pdb d ?file (searchPaths symcache ?s3) ?s3"
  have start: "\<not> failed (hr ?s1)" using com by (simp add: com_available_def com_start_def Let_def)
  have source: "failed (hr ?s2) \<longleftrightarrow> failed (create_local d) \<and> failed (create_registered d)" by (simp add: create_source_def)
  have stays: "cache_known fs symcache u" if "same_cache u v" "cache_known fs symcache v" for u v
    using that by (simp add: cache_known_def same_cache_def)
  have two: "cache_known fs symcache ?s2" using stays [of ?s2 s] known by simp
  have three: "cache_known fs symcache ?s3" using two by (auto simp: check_symcache_def cache_known_def)
  have valid: "symcacheValid ?s3 \<longleftrightarrow> symcache \<noteq> [] \<and> exists_path fs symcache \<and> is_directory fs symcache"
    using two by (auto simp: check_symcache_def cache_known_def)
  have load: "fst ?l = fst (load_pdb d ?file (searchPaths symcache ?s3) fresh_crash)" "same_cache (snd ?l) ?s3"
    using load_pdb_state by blast+
  obtain r u where l: "?l = (r, u)" by (cases ?l)
  obtain b v where b: "run_until_failure (open_steps d ?file) u = (b, v)" by (cases "run_until_failure (open_steps d ?file) u")
  have run: "b = fst (run_until_failure (open_steps d ?file) fresh_crash)" "same_cache v u"
    using run_state [of "open_steps d ?file" u fresh_crash] b by auto
  have u: "cache_known fs symcache u" using stays load(2) l three by simp
  have v: "cache_known fs symcache v" using stays [OF run(2) u] .
  have stop: "cache_known fs symcache (com_stop x) = cache_known fs symcache x" for x by (simp add: cache_known_def com_stop_def)
  show ?thesis
  proof (cases "failed (hr ?s2)")
    case True
    then show ?thesis using start two by (simp add: pdb_details_def pdb_text_def source stop)
  next
    case False
    have paths: "searchPaths symcache ?s3 = sPluginPath # (if symcache \<noteq> [] \<and> exists_path fs symcache \<and> is_directory fs symcache
        then [''cache*'' @ symcache] else [])" by (simp add: searchPaths_def valid)
    have "fst (load_pdb d ?file (sPluginPath # (if symcache \<noteq> [] \<and> exists_path fs symcache \<and> is_directory fs symcache
        then [''cache*'' @ symcache] else [])) fresh_crash) = r" using load(1) l paths by simp
    then show ?thesis using False start source u v b run(1)
      by (auto simp: pdb_details_def pdb_text_def l cbind_def stop Let_def split: outcome.split bool.split)
  qed
qed

section \<open>The loop\<close>

definition analyze_iteration ::
  "dia \<Rightarrow> fs \<Rightarrow> string \<Rightarrow> process \<Rightarrow> module_info list \<Rightarrow> 64 word list \<Rightarrow> nat \<Rightarrow> string crash" where
  "analyze_iteration d fs symcache p a_modules a_data pos = analyze_value d fs symcache p a_modules (a_data ! pos)"

lemma fresh_known [simp]: "cache_known fs symcache fresh_crash"
  by (simp add: cache_known_def fresh_crash_def)

lemma analyze_value_state:
  assumes com: "com_available d" and known: "cache_known fs symcache s"
  shows "fst (analyze_value d fs symcache p ms v s) = fst (analyze_value d fs symcache p ms v fresh_crash) \<and>
    cache_known fs symcache (snd (analyze_value d fs symcache p ms v s))"
proof -
  have "fst (Pointer_name d fs symcache p ptr s) = fst (Pointer_name d fs symcache p ptr fresh_crash) \<and>
      cache_known fs symcache (snd (Pointer_name d fs symcache p ptr s))" for ptr
  proof (cases ptr)
    case (Some x)
    obtain m address where x: "x = (m, address)" by (cases x)
    let ?call = "pdb_details d fs symcache (mod_path m) (address - mod_address m)"
    obtain r t where s: "?call s = (r, t)" by (cases "?call s")
    obtain r' t' where f: "?call fresh_crash = (r', t')" by (cases "?call fresh_crash")
    have "r = r'" "cache_known fs symcache t"
      using pdb_details_text [OF com known, of "mod_path m" "address - mod_address m"]
        pdb_details_text [OF com fresh_known, of fs symcache "mod_path m" "address - mod_address m"] s f by auto
    then show ?thesis using s f
      by (cases r'; cases "mod_assembly p address") (simp_all add: Pointer_name_def Some x cbind_def coutcome_def cret_def)
  qed (simp add: Pointer_name_def known)
  then have "fst (result_name d fs symcache p r s) = fst (result_name d fs symcache p r fresh_crash) \<and>
      cache_known fs symcache (snd (result_name d fs symcache p r s))" for r
    by (cases r) (simp_all add: result_name_def known)
  then show ?thesis by (cases "analyze_integer p v ms") (simp_all add: analyze_value_def cbind_def coutcome_def known)
qed

interpretation analysing: parallel_loop "analyze_iteration d fs symcache p ms vs"
    "\<lambda>i. fst (analyze_value d fs symcache p ms (vs ! i) fresh_crash)" "\<lambda>s. com_available d \<and> cache_known fs symcache s"
  for d fs symcache p ms vs
proof unfold_locales
  fix s i
  assume "com_available d \<and> cache_known fs symcache s"
  then show "fst (analyze_iteration d fs symcache p ms vs i s) = fst (analyze_value d fs symcache p ms (vs ! i) fresh_crash) \<and>
      com_available d \<and> cache_known fs symcache (snd (analyze_iteration d fs symcache p ms vs i s))"
    unfolding analyze_iteration_def using analyze_value_state by blast
qed

lemma cmap_nth: "cmap (\<lambda>i. f (xs ! i)) [0..<length xs] = cmap f xs"
proof -
  have "cmap (\<lambda>i. f (xs ! i)) ys = cmap f (map ((!) xs) ys)" for ys by (induction ys) simp_all
  then show ?thesis by (simp add: map_nth)
qed

lemma fst_noexcept: "fst (noexcept_call m s) = parallel_outcome (fst (m s))"
proof -
  obtain r t where "m s = (r, t)" by (cases "m s")
  then show ?thesis by (cases r) (simp_all add: noexcept_call_def ccatch_def parallel_outcome_def ocatch_def)
qed

text \<open>In order: the iterations of the loop one after the other.\<close>

lemma analyze_data_in_order:
  assumes "com_available d" and "cache_known fs symcache s"
  shows "fst (analyze_data d fs symcache p vs ms s) =
    parallel_outcome (omap (\<lambda>i. fst (analyze_value d fs symcache p ms (vs ! i) fresh_crash)) [0..<length vs])"
proof -
  have "cmap (analyze_iteration d fs symcache p ms vs) [0..<length vs] = cmap (analyze_value d fs symcache p ms) vs"
    using cmap_nth [of "analyze_value d fs symcache p ms" vs] by (simp add: analyze_iteration_def [abs_def])
  then show ?thesis
    using analysing.in_order [of d fs symcache s p ms vs "[0..<length vs]"] assms by (simp add: analyze_data_def fst_noexcept)
qed

section \<open>Properties\<close>


text \<open>A pointer into the example module and a zero; the zero is analysed first.\<close>

lemma example_pointer: "analyze_integer (example_process e) 65537 [example_module] = Ret (Pointer_result (Some (example_module, 65537)))"
proof -
  let ?p = "example_process e"
  have ranges: "in_range example_module v \<longleftrightarrow> 65536 \<le> v \<and> v < 77824" "mod_address example_module = 65536" for v
    by (simp_all add: example_module_def in_range_def in_span_def mod_address_def)
  have modules: "get_module_for_pointer v [example_module] = (if 65536 < v \<and> v < 77824 then Some example_module else None)" for v
    by (auto simp: get_module_linear [OF example_apart] ranges)
  have bytes: "peek64 ?p 65537 = Ret 0" "peek ?p 65537 = Ret 0"
    by (simp_all add: peek64_def peek_bytes_8 peek_bytes_4 peek_def example_process_def example_bytes_def)
  have "scan_string ?p 65537 1000 = Ret (Some [])" using scan_string.simps(2) [of ?p 65537 999] by (simp add: bytes)
  then have "analyze_string ?p 65537 = Ret None" by (simp add: analyze_string_def)
  moreover have "analyze_polymorphic ?p 65537 [example_module] = Ret None" by (simp add: analyze_polymorphic_def bytes modules)
  ultimately show ?thesis by (simp add: analyze_integer_def analyze_pointer_def bytes Pointer_ctor_def modules)
qed

definition example_text :: string where
  "example_text = ''(void* -> app.exe+0000001'' @ [CHR 0x09] @ ''nop |  a.cpp:12 f)''"

lemma example_values:
  "analyze_value (one_function 1) no_files [] (example_process False) [example_module] 65537 fresh_crash =
     (Ret example_text, fresh_crash\<lparr>hr := 0, symcacheChecked := True\<rparr>)"
  "analyze_value (one_function 1) no_files [] (example_process False) [example_module] 0 s = (Ret ''(size_t) [0]'', s)"
proof -
  have "Pointer_name (one_function 1) no_files [] (example_process False) (Some (example_module, 65537)) fresh_crash =
      (Ret example_text, fresh_crash\<lparr>hr := 0, symcacheChecked := True\<rparr>)" by code_simp
  then show "analyze_value (one_function 1) no_files [] (example_process False) [example_module] 65537 fresh_crash =
     (Ret example_text, fresh_crash\<lparr>hr := 0, symcacheChecked := True\<rparr>)"
    by (simp add: analyze_value_def example_pointer result_name_def)
  have "Integer_name 0 = ''(size_t) [0]''" by code_simp
  then show "analyze_value (one_function 1) no_files [] (example_process False) [example_module] 0 s = (Ret ''(size_t) [0]'', s)"
    by (simp add: analyze_value_def analyze_integer_def result_name_def)
qed


end
