(* ===== verification/CrashReport.thy ===== *)
theory CrashReport
  imports Introspection
begin

text \<open>
  \<open>CrashHandler/CrashHandler.cpp\<close>: the handler of unhandled exceptions and the sections of the report it
  writes. What Windows, Boost, infoware and DXGI tell the handler is the record \<open>handler_env\<close>.
\<close>

section \<open>The surroundings\<close>

text \<open>
  \<open>code_value\<close> gives the numbers of the exception constants by name, \<open>current_stack\<close> the addresses of the
  frames of \<open>boost::stacktrace\<close>, \<open>stack_base\<close> the base in the thread information block, \<open>None\<close> when there is
  no block, \<open>debugger n\<close> whether a debugger is present at the \<open>n\<close>-th test. \<open>zero_width\<close> tells whether this
  version of \<open>fmt\<close> accepts the text \<open>0\<close> for the width of a string; otherwise it throws. \<open>adapter_memory\<close> is
  the used and available memory of the first adapter, \<open>None\<close> when DXGI gives none, and \<open>what\<close> the text of
  a standard exception.
\<close>

datatype level_enum = level_trace | level_debug | level_info | level_warn | level_err | level_critical | level_off

record debug_config =
  logLevel :: level_enum
  flushLevel :: level_enum
  waitForDebugger :: bool
  symcache :: string
  crashDirectory :: string

definition default_debug :: debug_config where
  "default_debug = \<lparr>logLevel = level_info, flushLevel = level_trace, waitForDebugger = False, symcache = [], crashDirectory = []\<rparr>"

datatype vendor_t = intel | amd | nvidia | microsoft | qualcomm | unknown

record system_info =
  os_name :: string
  os_version :: "nat \<times> nat \<times> nat"
  cpu_text :: "string \<times> string"
  gpu_list :: "(vendor_t \<times> string) list"
  physical_total :: "64 word"
  physical_available :: "64 word"
  adapter_memory :: "(64 word \<times> 64 word) option"

record handler_env =
  mods :: winmods
  proc :: process
  symbols :: dia
  files :: fs
  config :: debug_config
  code_value :: "string \<Rightarrow> 32 word"
  current_stack :: "64 word list"
  stack_base :: "64 word option"
  system :: system_info
  utc_time :: "string option"
  log_opens :: bool
  debugger :: "nat \<Rightarrow> bool"
  zero_width :: bool
  what :: "exn \<Rightarrow> string"
  exe_path :: string
  handler_added :: bool

record exception_record =
  ExceptionCode :: "32 word"
  ExceptionAddress :: "64 word"

text \<open>The registers of the thread context, by name.\<close>

type_synonym thread_context = "string \<Rightarrow> 64 word"

section \<open>Callstack\<close>

record callstack =
  stacktrace :: "64 word list"
  frames :: "64 word list"

definition Callstack_ctor :: "64 word list \<Rightarrow> exception_record \<Rightarrow> callstack" where
  "Callstack_ctor trace a_except =
     (let it = dropWhile (\<lambda>a. a \<noteq> ExceptionAddress a_except) trace
      in \<lparr>stacktrace = trace, frames = (if it = [] then trace else it)\<rparr>)"

definition Callstack_of :: "64 word list \<Rightarrow> callstack" where
  "Callstack_of trace = \<lparr>stacktrace = trace, frames = trace\<rparr>"

text \<open>\<open>a_size - 1\<close> in \<open>std::size_t\<close>.\<close>

definition get_size_string :: "nat \<Rightarrow> nat" where
  "get_size_string a_size = length (show_nat (unat (word_of_nat a_size - 1 :: 64 word)))"

definition hex12 :: "64 word \<Rightarrow> string" where
  "hex12 a = ''0x'' @ zero_pad 12 (show_hex (unat a))"

text \<open>A line in the format of \<open>get_format\<close>; the width of the name may be refused.\<close>

definition frame_line :: "handler_env \<Rightarrow> nat \<Rightarrow> nat \<Rightarrow> nat \<Rightarrow> 64 word \<Rightarrow> string \<Rightarrow> string \<Rightarrow> string outcome" where
  "frame_line env cnt nameWidth i address name info =
     (if nameWidth = 0 \<and> \<not> zero_width env then Throw Format_error
      else Ret ([CHR 0x09] @ ''['' @ setw (get_size_string cnt) (show_nat i) @ ''] '' @ hex12 address @ '' '' @
                setw nameWidth name @ info))"

definition module_of_frame :: "module_info list \<Rightarrow> 64 word \<Rightarrow> module_info option" where
  "module_of_frame a_modules address =
     (case get_module_for_pointer address a_modules of
        Some m \<Rightarrow> if in_range m address then Some m else None
      | None \<Rightarrow> None)"

definition name_width :: "module_info option list \<Rightarrow> nat" where
  "name_width moduleStack = foldl (\<lambda>mx e. case e of Some m \<Rightarrow> max mx (length (mod_name m)) | None \<Rightarrow> mx) 0 moduleStack"

definition frame_entry :: "handler_env \<Rightarrow> module_info list \<Rightarrow> nat \<Rightarrow> nat \<Rightarrow> nat \<times> 64 word \<Rightarrow> unit reporting" where
  "frame_entry env a_modules cnt nameWidth frame =
     (case frame of (i, address) \<Rightarrow>
        case module_of_frame a_modules address of
          None \<Rightarrow> cbind (coutcome (frame_line env cnt nameWidth i address [] [])) say
        | Some m \<Rightarrow>
            cbind (on_pdb (frame_info (symbols env) (files env) (symcache (config env)) (proc env) m address)) (\<lambda>info.
            cbind (coutcome (frame_line env cnt nameWidth i address (mod_name m) info)) say))"

definition print_probable_callstack :: "handler_env \<Rightarrow> callstack \<Rightarrow> module_info list \<Rightarrow> unit reporting" where
  "print_probable_callstack env c a_modules =
     cbind (say ''PROBABLE CALL STACK:'') (\<lambda>_.
       let nameWidth = name_width (map (module_of_frame a_modules) (frames c))
       in ceach (frame_entry env a_modules (length (frames c)) nameWidth) (List.enumerate 0 (frames c)))"

definition Callstack_print :: "handler_env \<Rightarrow> callstack \<Rightarrow> module_info list \<Rightarrow> unit reporting" where
  "Callstack_print env c a_modules = print_probable_callstack env c a_modules"

definition print_raw_callstack :: "callstack \<Rightarrow> unit reporting" where
  "print_raw_callstack c =
     cbind (say ''RAW CALL STACK:'') (\<lambda>_.
       ceach (\<lambda>(i, address). say ([CHR 0x09] @ ''['' @ setw (get_size_string (length (stacktrace c))) (show_nat i) @
                ''] 0x'' @ show_hex (unat address)))
         (List.enumerate 0 (stacktrace c)))"

section \<open>The log\<close>

text \<open>
  The path of the log: its directory and a name with the time. A time that cannot be converted ends
  the process; a file that cannot be opened throws.
\<close>

definition get_log :: "handler_env \<Rightarrow> string \<Rightarrow> string outcome" where
  "get_log env crashPath =
     (case utc_time env of
        None \<Rightarrow> Throw Process_end
      | Some t \<Rightarrow> if log_opens env then Ret (path_append True crashPath (''crash-'' @ t @ ''.log'')) else Throw Log_error)"

section \<open>The sections of the report\<close>

definition exception_cases :: "string list" where
  "exception_cases =
     [''EXCEPTION_ACCESS_VIOLATION'', ''EXCEPTION_ARRAY_BOUNDS_EXCEEDED'', ''EXCEPTION_BREAKPOINT'',
      ''EXCEPTION_DATATYPE_MISALIGNMENT'', ''EXCEPTION_FLT_DENORMAL_OPERAND'', ''EXCEPTION_FLT_DIVIDE_BY_ZERO'',
      ''EXCEPTION_FLT_INEXACT_RESULT'', ''EXCEPTION_FLT_INVALID_OPERATION'', ''EXCEPTION_FLT_OVERFLOW'',
      ''EXCEPTION_FLT_STACK_CHECK'', ''EXCEPTION_FLT_UNDERFLOW'', ''EXCEPTION_ILLEGAL_INSTRUCTION'',
      ''EXCEPTION_IN_PAGE_ERROR'', ''EXCEPTION_INT_DIVIDE_BY_ZERO'', ''EXCEPTION_INT_OVERFLOW'',
      ''EXCEPTION_INVALID_DISPOSITION'', ''EXCEPTION_NONCONTINUABLE_EXCEPTION'', ''EXCEPTION_PRIV_INSTRUCTION'',
      ''EXCEPTION_SINGLE_STEP'', ''EXCEPTION_STACK_OVERFLOW'']"

definition exception_name :: "handler_env \<Rightarrow> 32 word \<Rightarrow> string" where
  "exception_name env code =
     (case List.find (\<lambda>c. code_value env c = code) exception_cases of
        Some c \<Rightarrow> '' '' @ [CHR 0x22] @ c @ [CHR 0x22]
      | None \<Rightarrow> [])"

definition print_exception :: "handler_env \<Rightarrow> exception_record \<Rightarrow> module_info list \<Rightarrow> unit reporting" where
  "print_exception env a_exception a_modules =
     (let eaddr = ExceptionAddress a_exception in
      cbind
        (case get_module_for_pointer eaddr a_modules of
           None \<Rightarrow> cret []
         | Some m \<Rightarrow>
             cbind (on_pdb (pdb_details (symbols env) (files env) (symcache (config env)) (mod_path m) (eaddr - mod_address m)))
               (\<lambda>pdbDetails.
             cbind (coutcome (mod_assembly (proc env) eaddr)) (\<lambda>assembly.
               cret ('' '' @ mod_name m @ offset_text (eaddr - mod_address m) @ [CHR 0x09] @ assembly @
                     (if pdbDetails \<noteq> [] then '' | '' @ pdbDetails @ '')'' else [])))))
        (\<lambda>post. say (''Unhandled exception'' @ exception_name env (ExceptionCode a_exception) @ '' at '' @ hex12 eaddr @ post)))"

definition module_width :: "module_info list \<Rightarrow> nat" where
  "module_width a_modules = foldl (\<lambda>mx m. max mx (length (mod_name m))) 0 a_modules"

definition print_modules :: "handler_env \<Rightarrow> module_info list \<Rightarrow> unit reporting" where
  "print_modules env a_modules =
     cbind (say ''MODULES:'') (\<lambda>_.
       let width = module_width a_modules in
       ceach (\<lambda>m. if width = 0 \<and> \<not> zero_width env then coutcome (Throw Format_error)
                   else say ([CHR 0x09] @ left_align width (mod_name m) @ '' '' @ hex12 (mod_address m))) a_modules)"

definition register_names :: "string list" where
  "register_names = [''RAX'', ''RCX'', ''RDX'', ''RBX'', ''RSP'', ''RBP'', ''RSI'', ''RDI'',
     ''R8'', ''R9'', ''R10'', ''R11'', ''R12'', ''R13'', ''R14'', ''R15'']"

definition analysis :: "handler_env \<Rightarrow> module_info list \<Rightarrow> 64 word list \<Rightarrow> string list reporting" where
  "analysis env a_modules vs =
     on_pdb (analyze_data (symbols env) (files env) (symcache (config env)) (proc env) vs a_modules)"

definition register_line :: "string \<Rightarrow> 64 word \<Rightarrow> string \<Rightarrow> string" where
  "register_line name reg a = [CHR 0x09] @ left_align 3 name @ '' 0x'' @ left_align 16 (show_hex (unat reg)) @ '' '' @ a"

definition print_registers :: "handler_env \<Rightarrow> thread_context \<Rightarrow> module_info list \<Rightarrow> unit reporting" where
  "print_registers env a_context a_modules =
     cbind (say ''REGISTERS:'') (\<lambda>_.
     cbind (analysis env a_modules (map a_context register_names)) (\<lambda>as.
       ceach (\<lambda>(name, a). say (register_line name (a_context name) a)) (zip register_names as)))"

text \<open>
  The stack from the stack pointer to the base, in blocks of a thousand words, which are read in the
  parallel loop of \<open>analyze_data\<close>. A base below the stack pointer makes the span invalid.
\<close>

definition stack_width :: "nat \<Rightarrow> nat" where
  "stack_width cnt = length (show_hex (unat ((word_of_nat cnt - 1 :: 64 word) * 8)))"

definition stack_line :: "nat \<Rightarrow> nat \<times> 64 word \<Rightarrow> string \<Rightarrow> string" where
  "stack_line width e a =
     (case e of (idx, v) \<Rightarrow>
        [CHR 0x09] @ ''[RSP+'' @ left_align width (show_hex (idx * 8)) @ ''] 0x'' @ left_align 16 (show_hex (unat v)) @ '' '' @ a)"

definition stack_words :: "process \<Rightarrow> 64 word \<Rightarrow> nat list \<Rightarrow> 64 word list outcome" where
  "stack_words p rsp is = omap (\<lambda>i. peek64 p (rsp + word_of_nat (8 * i))) is"

definition stack_block :: "handler_env \<Rightarrow> module_info list \<Rightarrow> 64 word \<Rightarrow> nat \<Rightarrow> nat list \<Rightarrow> unit reporting" where
  "stack_block env a_modules rsp width block =
     cbind (coutcome (parallel_outcome (stack_words (proc env) rsp block))) (\<lambda>vs.
     cbind (analysis env a_modules vs) (\<lambda>as.
       ceach (\<lambda>(e, a). say (stack_line width e a)) (zip (zip block vs) as)))"

function blocks :: "nat \<Rightarrow> 'a list \<Rightarrow> 'a list list" where
  "blocks blockSize xs = (if xs = [] \<or> blockSize = 0 then [] else take blockSize xs # blocks blockSize (drop blockSize xs))"
  by pat_completeness auto
termination by (relation "measure (\<lambda>(n, xs). length xs)") auto

declare blocks.simps [simp del]

definition print_stack_in :: "nat \<Rightarrow> handler_env \<Rightarrow> thread_context \<Rightarrow> module_info list \<Rightarrow> unit reporting" where
  "print_stack_in blockSize env a_context a_modules =
     cbind (say ''STACK:'') (\<lambda>_.
       case stack_base env of
         None \<Rightarrow> say ([CHR 0x09] @ ''FAILED TO READ TIB'')
       | Some base \<Rightarrow>
           if base = 0 then say ([CHR 0x09] @ ''FAILED TO READ TIB'')
           else
             let rsp = a_context ''RSP'' in
             if base < rsp then coutcome Undef
             else
               let cnt = unat (base - rsp) div 8
               in ceach (stack_block env a_modules rsp (stack_width cnt)) (blocks blockSize [0..<cnt]))"

definition print_stack :: "handler_env \<Rightarrow> thread_context \<Rightarrow> module_info list \<Rightarrow> unit reporting" where
  "print_stack env a_context a_modules = print_stack_in 1000 env a_context a_modules"

definition vendor_text :: "vendor_t \<Rightarrow> string" where
  "vendor_text v =
     (case v of
        intel \<Rightarrow> ''Intel'' | amd \<Rightarrow> ''AMD'' | nvidia \<Rightarrow> ''Nvidia'' | microsoft \<Rightarrow> ''Microsoft''
      | qualcomm \<Rightarrow> ''Qualcomm'' | unknown \<Rightarrow> ''Unknown'')"

text \<open>\<open>{:.02f}\<close> of a number of bytes as a \<open>double\<close>, divided by the exact power of two.\<close>

definition gibibyte :: "64 word \<Rightarrow> string" where
  "gibibyte a_bytes =
     (let v = round_even (to_float 53 (unat a_bytes) * 100) 1073741824
      in show_nat (v div 100) @ ''.'' @ zero_pad 2 (show_nat (v mod 100)))"

definition print_sysinfo :: "handler_env \<Rightarrow> unit reporting" where
  "print_sysinfo env =
     (let sys = system env in
      cbind (say ''SYSTEM SPECS:'') (\<lambda>_.
      cbind (case os_version sys of (major, minor, patch) \<Rightarrow>
               say ([CHR 0x09] @ ''OS: '' @ os_name sys @ '' v'' @ show_nat major @ ''.'' @ show_nat minor @ ''.'' @ show_nat patch)) (\<lambda>_.
      cbind (say ([CHR 0x09] @ ''CPU: '' @ fst (cpu_text sys) @ '' '' @ snd (cpu_text sys))) (\<lambda>_.
      cbind (ceach (\<lambda>(i, vendor, name). say ([CHR 0x09] @ ''GPU #'' @ show_nat (i + 1) @ '': '' @ vendor_text vendor @ '' '' @ name))
               (List.enumerate 0 (gpu_list sys))) (\<lambda>_.
      cbind (say ([CHR 0x09] @ ''PHYSICAL MEMORY: '' @ gibibyte (physical_total sys - physical_available sys) @ '' GB/'' @
                  gibibyte (physical_total sys) @ '' GB'')) (\<lambda>_.
      case adapter_memory sys of
        None \<Rightarrow> coutcome (if eha (proc env) then Throw Access_violation else Undef)
      | Some (CurrentUsage, Budget) \<Rightarrow>
          say ([CHR 0x09] @ ''GPU MEMORY: '' @ gibibyte CurrentUsage @ ''/'' @ gibibyte Budget @ '' GB'')))))))"

section \<open>The handlers\<close>

text \<open>A section of the report: an empty line, then its lines, and the text of an exception it throws.\<close>

definition is_std_exception :: "exn \<Rightarrow> bool" where
  "is_std_exception e \<longleftrightarrow> e \<noteq> Access_violation \<and> e \<noteq> Process_end"

definition error_line :: "handler_env \<Rightarrow> string \<Rightarrow> exn \<Rightarrow> string" where
  "error_line env a_name e = [CHR 0x09] @ a_name @ '':'' @ [CHR 0x09] @ (if is_std_exception e then what env e else ''ERROR'')"

definition print_section :: "handler_env \<Rightarrow> string \<times> unit reporting \<Rightarrow> unit reporting" where
  "print_section env section =
     (case section of (a_name, a_functor) \<Rightarrow>
        cbind (say []) (\<lambda>_. ccatch a_functor (\<lambda>e. say (error_line env a_name e))))"

definition report_sections ::
  "handler_env \<Rightarrow> exception_record \<Rightarrow> thread_context \<Rightarrow> module_info list \<Rightarrow> (string \<times> unit reporting) list" where
  "report_sections env exc ctx cmodules =
     [(''print_exception'', print_exception env exc cmodules),
      (''print_sysinfo'', print_sysinfo env),
      (''probable_callstack'', Callstack_print env (Callstack_ctor (current_stack env) exc) cmodules),
      (''print_registers'', print_registers env ctx cmodules),
      (''print_raw_stack'', print_stack env ctx cmodules),
      (''print_modules'', print_modules env cmodules)]"

text \<open>The busy wait for a debugger counts the tests it makes.\<close>

definition wait_guard :: "handler_env \<Rightarrow> nat \<Rightarrow> bool outcome" where
  "wait_guard env n = Ret (\<not> debugger env n)"

definition wait_body :: "nat \<Rightarrow> nat outcome" where
  "wait_body n = Ret (Suc n)"

definition wait_debugger :: "handler_env \<Rightarrow> unit outcome" where
  "wait_debugger env =
     (if waitForDebugger (config env) then obind (cwhile (wait_guard env) wait_body 0) (\<lambda>n. Ret ()) else Ret ())"

definition UnhandledExceptions :: "handler_env \<Rightarrow> string \<Rightarrow> exception_record \<Rightarrow> thread_context \<Rightarrow> unit reporting" where
  "UnhandledExceptions env crashPath exc ctx =
     cbind
       (ccatch
         (cbind (coutcome (wait_debugger env)) (\<lambda>_.
          cbind (coutcome (get_loaded_modules (mods env) (proc env))) (\<lambda>cmodules.
          cbind (coutcome (get_log env crashPath)) (\<lambda>path.
            ceach (print_section env) (report_sections env exc ctx cmodules)))))
         (\<lambda>e. cret ()))
       (\<lambda>_. coutcome (Throw Process_end))"

section \<open>Installation\<close>

text \<open>What the process has installed: the vectored handler, the filter that it sets, the directory of the
  logs, and the default logger with its file.\<close>

record handler_state =
  vectored :: bool
  filter_set :: bool
  crashPath :: string
  default_log :: "(string option \<times> level_enum \<times> level_enum) option"

definition no_handlers :: handler_state where
  "no_handlers = \<lparr>vectored = False, filter_set = False, crashPath = [], default_log = None\<rparr>"

definition VectoredExceptions :: "handler_state \<Rightarrow> int \<times> handler_state" where
  "VectoredExceptions h = (0, h\<lparr>filter_set := True\<rparr>)"

definition executable_name :: "handler_env \<Rightarrow> string" where
  "executable_name env = take 259 (exe_path env)"

text \<open>Appending an absolute path replaces the directory: the log of the logger lies beside the program.\<close>

definition log_directory :: "string option" where
  "log_directory = Some ''.''"

definition InitializeLogging :: "handler_env \<Rightarrow> (handler_state, unit) call" where
  "InitializeLogging env h =
     (case log_directory of
        None \<Rightarrow> (Throw Process_end, h)
      | Some dir \<Rightarrow>
          let name = executable_name env @ ''_CrashLogger'';
              path = (if is_absolute True name then name else path_append True dir name) @ ''.log'' in
          if debugger env 0 then (Ret (), h\<lparr>default_log := Some (None, logLevel (config env), flushLevel (config env))\<rparr>)
          else if log_opens env then
            (Ret (), h\<lparr>default_log := Some (Some path, logLevel (config env), flushLevel (config env))\<rparr>)
          else (Throw Log_error, h))"

definition Install :: "handler_env \<Rightarrow> string \<Rightarrow> (handler_state, unit) call" where
  "Install env a_crashPath =
     cbind (InitializeLogging env) (\<lambda>_ h.
       if \<not> handler_added env then (Throw Process_end, h)
       else let h1 = h\<lparr>vectored := True\<rparr>
            in (Ret (), if a_crashPath \<noteq> [] then h1\<lparr>crashPath := a_crashPath\<rparr> else h1))"

text \<open>An exception that nothing else handles: the vectored handler runs first, so that the filter is set.\<close>

definition exception_raised :: "handler_env \<Rightarrow> handler_state \<Rightarrow> exception_record \<Rightarrow> thread_context \<Rightarrow> unit reporting" where
  "exception_raised env h exc ctx =
     (let h1 = (if vectored h then snd (VectoredExceptions h) else h)
      in if filter_set h1 then UnhandledExceptions env (crashPath h1) exc ctx else coutcome (Throw Process_end))"

section \<open>The lines of a section\<close>

lemma on_pdb_eq: "on_pdb m s = (r, t) \<longleftrightarrow> (\<exists>u. m (pdb s) = (r, u) \<and> t = s\<lparr>pdb := u\<rparr>)"
  by (auto simp: on_pdb_def split: prod.split)

lemma on_pdb_log: "on_pdb m s = (r, t) \<Longrightarrow> log_lines t = log_lines s"
  by (auto simp: on_pdb_eq)

lemma noexcept_call_Ret: "noexcept_call m s = (Ret a, t) \<longleftrightarrow> m s = (Ret a, t)"
  by (auto simp: noexcept_call_def ccatch_def split: prod.splits outcome.splits)

lemma ceach_lines:
  assumes "\<And>x s t. x \<in> set xs \<Longrightarrow> f x s = (Ret (), t) \<Longrightarrow> \<exists>l. log_lines t = log_lines s @ [l] \<and> P x l"
    and "ceach f xs s = (Ret (), t)"
  shows "\<exists>ls. log_lines t = log_lines s @ ls \<and> list_all2 P xs ls"
  using assms
proof (induction xs arbitrary: s)
  case (Cons x xs)
  obtain u where u: "f x s = (Ret (), u)" "ceach f xs u = (Ret (), t)"
    using Cons.prems(2) by (auto simp: cbind_eq_Ret)
  obtain l where l: "log_lines u = log_lines s @ [l]" "P x l" using Cons.prems(1) [OF _ u(1)] by auto
  obtain ls where "log_lines t = log_lines u @ ls" "list_all2 P xs ls" using Cons.IH [OF Cons.prems(1) u(2)] by auto
  with l show ?case by (intro exI [of _ "l # ls"]) simp
qed simp

lemma frame_line_address: "frame_line env cnt w i a name info = Ret l \<Longrightarrow> sublist (hex12 a) l"
proof -
  assume "frame_line env cnt w i a name info = Ret l"
  then have "l = ([CHR 0x09] @ ''['' @ setw (get_size_string cnt) (show_nat i) @ ''] '') @ hex12 a @ '' '' @ setw w name @ info"
    by (auto simp: frame_line_def split: if_splits)
  then show ?thesis unfolding sublist_def by blast
qed

lemma frame_entry_line:
  assumes "frame_entry env ms cnt w (i, a) s = (Ret (), t)"
  shows "\<exists>l. log_lines t = log_lines s @ [l] \<and> sublist (hex12 a) l"
  using assms by (auto simp: frame_entry_def cbind_eq_Ret dest!: on_pdb_log frame_line_address split: option.splits)

section \<open>The stack in one piece\<close>

text \<open>The reference: the whole stack is read, analysed and printed at once.\<close>

definition print_stack_once :: "handler_env \<Rightarrow> thread_context \<Rightarrow> module_info list \<Rightarrow> unit reporting" where
  "print_stack_once env a_context a_modules =
     cbind (say ''STACK:'') (\<lambda>_.
       case stack_base env of
         None \<Rightarrow> say ([CHR 0x09] @ ''FAILED TO READ TIB'')
       | Some base \<Rightarrow>
           if base = 0 then say ([CHR 0x09] @ ''FAILED TO READ TIB'')
           else
             let rsp = a_context ''RSP'' in
             if base < rsp then coutcome Undef
             else
               let cnt = unat (base - rsp) div 8
               in stack_block env a_modules rsp (stack_width cnt) [0..<cnt])"

lemma analyze_data_append:
  "analyze_data d fs sc p (us @ vs) ms s = (Ret as, t) \<longleftrightarrow>
    (\<exists>as1 as2 u. analyze_data d fs sc p us ms s = (Ret as1, u) \<and> analyze_data d fs sc p vs ms u = (Ret as2, t) \<and> as = as1 @ as2)"
  by (auto simp: analyze_data_def noexcept_call_Ret cmap_append cbind_eq_Ret)

lemma analysis_eq:
  "analysis env ms vs s = (Ret as, t) \<longleftrightarrow>
    (\<exists>u. analyze_data (symbols env) (files env) (symcache (config env)) (proc env) vs ms (pdb s) = (Ret as, u) \<and> t = s\<lparr>pdb := u\<rparr>)"
  by (simp add: analysis_def on_pdb_eq)

lemma stack_block_eq:
  "stack_block env ms rsp w is s = (Ret (), t) \<longleftrightarrow>
    (\<exists>vs as u. stack_words (proc env) rsp is = Ret vs \<and>
      analyze_data (symbols env) (files env) (symcache (config env)) (proc env) vs ms (pdb s) = (Ret as, u) \<and>
      t = s\<lparr>pdb := u, log_lines := log_lines s @ map (\<lambda>(e, a). stack_line w e a) (zip (zip is vs) as)\<rparr>)"
proof -
  have say: "ceach (\<lambda>(e, a). say (stack_line w e a)) xs v = (Ret (), v\<lparr>log_lines := log_lines v @ map (\<lambda>(e, a). stack_line w e a) xs\<rparr>)" for xs v
    using ceach_say [of "\<lambda>(e, a). stack_line w e a" xs v] by (simp add: case_prod_unfold)
  show ?thesis
    by (auto simp: stack_block_def cbind_eq_Ret analysis_eq say)
qed

lemma stack_words_append:
  "stack_words p rsp (is @ js) = Ret ws \<longleftrightarrow>
    (\<exists>us vs. stack_words p rsp is = Ret us \<and> stack_words p rsp js = Ret vs \<and> ws = us @ vs)"
  by (auto simp: stack_words_def omap_append obind_eq_Ret)

lemma analyze_data_length: "analyze_data d fs sc p vs ms s = (Ret as, t) \<Longrightarrow> length as = length vs"
  by (auto simp: analyze_data_def noexcept_call_Ret dest: cmap_length)

lemma stack_words_length: "stack_words p rsp is = Ret vs \<Longrightarrow> length vs = length is"
  by (auto simp: stack_words_def omap_eq_Ret dest: list_all2_lengthD)

lemma stack_blocks_append:
  "stack_block env ms rsp w (is @ js) s = (Ret (), t) \<longleftrightarrow>
    (\<exists>u. stack_block env ms rsp w is s = (Ret (), u) \<and> stack_block env ms rsp w js u = (Ret (), t))"
proof -
  let ?an = "analyze_data (symbols env) (files env) (symcache (config env)) (proc env)"
  let ?line = "\<lambda>(e, a). stack_line w e a"
  have "stack_block env ms rsp w (is @ js) s = (Ret (), t) \<longleftrightarrow>
      (\<exists>us vs as1 as2 u v. stack_words (proc env) rsp is = Ret us \<and> stack_words (proc env) rsp js = Ret vs \<and>
        ?an us ms (pdb s) = (Ret as1, u) \<and> ?an vs ms u = (Ret as2, v) \<and>
        t = s\<lparr>pdb := v, log_lines := log_lines s @ map ?line (zip (zip (is @ js) (us @ vs)) (as1 @ as2))\<rparr>)"
    unfolding stack_block_eq stack_words_append by (auto simp: analyze_data_append)
  also have "\<dots> \<longleftrightarrow>
      (\<exists>us vs as1 as2 u v. stack_words (proc env) rsp is = Ret us \<and> stack_words (proc env) rsp js = Ret vs \<and>
        ?an us ms (pdb s) = (Ret as1, u) \<and> ?an vs ms u = (Ret as2, v) \<and>
        t = s\<lparr>pdb := v, log_lines := (log_lines s @ map ?line (zip (zip is us) as1)) @ map ?line (zip (zip js vs) as2)\<rparr>)"
    by (intro ex_cong1 conj_cong refl arg_cong2 [where f = "(=)"]) (simp add: stack_words_length analyze_data_length)
  also have "\<dots> \<longleftrightarrow> (\<exists>u. stack_block env ms rsp w is s = (Ret (), u) \<and> stack_block env ms rsp w js u = (Ret (), t))"
    unfolding stack_block_eq by auto
  finally show ?thesis .
qed

lemma stack_block_nil: "stack_block env ms rsp w [] s = (Ret (), s)"
  by (simp add: stack_block_def stack_words_def analysis_def analyze_data_def on_pdb_def noexcept_call_def cbind_def)

lemma stack_in_blocks:
  assumes "0 < b"
  shows "ceach (stack_block env ms rsp w) (blocks b is) s = (Ret (), t) \<longleftrightarrow> stack_block env ms rsp w is s = (Ret (), t)"
  using assms
proof (induction b "is" arbitrary: s rule: blocks.induct)
  case (1 b "is")
  show ?case
  proof (cases "is = []")
    case False
    have "ceach (stack_block env ms rsp w) (blocks b is) s = (Ret (), t) \<longleftrightarrow>
        (\<exists>u. stack_block env ms rsp w (take b is) s = (Ret (), u) \<and> stack_block env ms rsp w (drop b is) u = (Ret (), t))"
      using 1 False by (subst blocks.simps) (simp add: cbind_eq_Ret)
    also have "\<dots> \<longleftrightarrow> stack_block env ms rsp w (take b is @ drop b is) s = (Ret (), t)"
      by (rule stack_blocks_append [symmetric])
    finally show ?thesis by simp
  next
    case True
    then show ?thesis by (subst blocks.simps) (auto simp: stack_block_nil)
  qed
qed

section \<open>Sections\<close>

text \<open>A call that only adds lines, and one whose first line starts with a given text.\<close>

definition appends :: "'a reporting \<Rightarrow> bool" where
  "appends m \<longleftrightarrow> (\<forall>s. prefix (log_lines s) (log_lines (snd (m s))))"

definition opens :: "string \<Rightarrow> unit reporting \<Rightarrow> bool" where
  "opens h m \<longleftrightarrow> (\<forall>s. \<exists>q. log_lines (snd (m s)) = log_lines s @ q \<and> (q = [] \<or> prefix h (hd q)) \<and> (is_ret (fst (m s)) \<longrightarrow> q \<noteq> []))"

lemma appends_basic [intro!, simp]:
  "appends (cret a)" "appends (coutcome r)" "appends (say l)" "appends (on_pdb m)"
  by (auto simp: appends_def on_pdb_def split: prod.split)

lemma appends_cbind [intro!]:
  assumes "appends m" and "\<And>a. appends (f a)"
  shows "appends (cbind m f)"
  unfolding appends_def
proof
  fix s
  have "prefix (log_lines s) (log_lines (snd (m s)))" using assms(1) by (simp add: appends_def)
  moreover have "prefix (log_lines (snd (m s))) (log_lines (snd (f a (snd (m s)))))" for a
    using assms(2) by (simp add: appends_def)
  ultimately show "prefix (log_lines s) (log_lines (snd (cbind m f s)))"
    by (cases "m s"; cases "fst (m s)") (auto simp: cbind_def intro: prefix_order.trans)
qed

lemma appends_ceach [intro!]: "(\<And>x. appends (f x)) \<Longrightarrow> appends (ceach f xs)"
  by (induction xs) auto

lemma appends_analysis [intro!, simp]: "appends (analysis env ms vs)"
  by (simp add: analysis_def)

lemma opens_say:
  assumes "appends m"
  shows "opens h (cbind (say h) (\<lambda>_. m))"
  unfolding opens_def
proof
  fix s
  obtain q where "log_lines (snd (m (s\<lparr>log_lines := log_lines s @ [h]\<rparr>))) = (log_lines s @ [h]) @ q"
    using assms [unfolded appends_def prefix_def, rule_format, of "s\<lparr>log_lines := log_lines s @ [h]\<rparr>"] by auto
  then show "\<exists>q. log_lines (snd (cbind (say h) (\<lambda>_. m) s)) = log_lines s @ q \<and> (q = [] \<or> prefix h (hd q)) \<and>
      (is_ret (fst (cbind (say h) (\<lambda>_. m) s)) \<longrightarrow> q \<noteq> [])"
    by (intro exI [of _ "h # q"]) simp
qed

text \<open>Calls that look something up first, without a line.\<close>

definition silent :: "'a reporting \<Rightarrow> bool" where
  "silent m \<longleftrightarrow> (\<forall>s. log_lines (snd (m s)) = log_lines s)"

lemma silent_basic [intro!, simp]: "silent (cret a)" "silent (coutcome r)" "silent (on_pdb m)"
  by (auto simp: silent_def on_pdb_def split: prod.split)

lemma silent_cbind [intro!]: "silent m \<Longrightarrow> (\<And>a. silent (f a)) \<Longrightarrow> silent (cbind m f)"
  unfolding silent_def cbind_def by (auto split: prod.split outcome.split) (metis snd_conv)+

lemma opens_after:
  assumes "silent m" and "\<And>a. opens h (f a)"
  shows "opens h (cbind m f)"
  unfolding opens_def
proof
  fix s
  obtain r t where m: "m s = (r, t)" by fastforce
  then have t: "log_lines t = log_lines s" using assms(1) unfolding silent_def by (metis snd_conv)
  show "\<exists>q. log_lines (snd (cbind m f s)) = log_lines s @ q \<and> (q = [] \<or> prefix h (hd q)) \<and>
      (is_ret (fst (cbind m f s)) \<longrightarrow> q \<noteq> [])"
  proof (cases r)
    case (Ret a)
    then show ?thesis using assms(2) [of a, unfolded opens_def, rule_format, of t] t by (simp add: cbind_def m)
  qed (simp_all add: cbind_def m t)
qed

lemma opens_exception: "opens ''Unhandled exception'' (print_exception env exc ms)"
proof -
  have line: "opens h (say (h @ l))" for h l by (auto simp: opens_def)
  show ?thesis
    unfolding print_exception_def Let_def
    by (rule opens_after) (auto split: option.split simp del: append_Cons append_Nil intro!: line)
qed

lemma sections_open:
  "opens ''Unhandled exception'' (print_exception env exc ms)"
  "opens ''SYSTEM SPECS:'' (print_sysinfo env)"
  "opens ''PROBABLE CALL STACK:'' (Callstack_print env c ms)"
  "opens ''REGISTERS:'' (print_registers env ctx ms)"
  "opens ''STACK:'' (print_stack env ctx ms)"
  "opens ''MODULES:'' (print_modules env ms)"
  unfolding print_sysinfo_def Callstack_print_def print_probable_callstack_def print_registers_def print_stack_def
    print_stack_in_def print_modules_def stack_block_def frame_entry_def Let_def
  by (auto intro!: opens_exception opens_say simp: case_prod_unfold split: option.split)

text \<open>Outcomes that the handler recovers from, and the lines of a section in the report.\<close>

definition recovers :: "'a outcome \<Rightarrow> bool" where
  "recovers r = (case r of Ret _ \<Rightarrow> True | Throw e \<Rightarrow> e \<noteq> Process_end | _ \<Rightarrow> False)"

definition section_lines :: "handler_env \<Rightarrow> string \<times> string \<Rightarrow> string list \<Rightarrow> bool" where
  "section_lines env sec p \<longleftrightarrow> p \<noteq> [] \<and> (prefix (snd sec) (hd p) \<or> (\<exists>e. p = [error_line env (fst sec) e]))"

definition section_headers :: "string list" where
  "section_headers = [''Unhandled exception'', ''SYSTEM SPECS:'', ''PROBABLE CALL STACK:'', ''REGISTERS:'', ''STACK:'', ''MODULES:'']"

lemma print_section_run:
  assumes "opens h f" and "\<And>u. recovers (fst (f u))"
  shows "\<exists>t p. print_section env (name, f) s = (Ret (), t) \<and> log_lines t = log_lines s @ [] # p \<and> section_lines env (name, h) p"
proof -
  let ?s = "s\<lparr>log_lines := log_lines s @ [[]]\<rparr>"
  obtain r v where f: "f ?s = (r, v)" by fastforce
  obtain q where q: "log_lines v = (log_lines s @ [[]]) @ q" "q = [] \<or> prefix h (hd q)" "is_ret r \<longrightarrow> q \<noteq> []"
    using assms(1) f unfolding opens_def by (metis (mono_tags) fst_conv snd_conv report_state.select_convs(2) report_state.surjective report_state.update_convs(2))
  show ?thesis
  proof (cases r)
    case (Ret a)
    then show ?thesis using f q by (auto simp: print_section_def section_lines_def)
  next
    case (Throw e)
    moreover have "e \<noteq> Process_end" using assms(2) [of ?s] f Throw by (simp add: recovers_def)
    ultimately show ?thesis using f q
      by (auto simp: print_section_def section_lines_def hd_append)
  qed (use assms(2) [of ?s] f in \<open>simp_all add: recovers_def\<close>)
qed

lemma sections_run:
  assumes "list_all2 (\<lambda>sec h. opens h (snd sec)) secs hs"
    and "\<And>name f u. (name, f) \<in> set secs \<Longrightarrow> recovers (fst (f u))"
  shows "\<exists>t parts. ceach (print_section env) secs s = (Ret (), t) \<and> log_lines t = log_lines s @ concat (map (\<lambda>p. [] # p) parts) \<and>
    list_all2 (section_lines env) (zip (map fst secs) hs) parts"
  using assms
proof (induction secs hs arbitrary: s rule: list_all2_induct)
  case Nil
  show ?case by (auto intro: exI [of _ "[]"])
next
  case (Cons sec secs h hs)
  obtain name f where sec: "sec = (name, f)" by (cases sec)
  obtain u p where u: "print_section env sec s = (Ret (), u)" "log_lines u = log_lines s @ [] # p" "section_lines env (name, h) p"
    using print_section_run [of h f env name s] Cons.hyps(1) Cons.prems [of name f] sec by auto
  obtain t parts where t: "ceach (print_section env) secs u = (Ret (), t)"
    "log_lines t = log_lines u @ concat (map (\<lambda>p. [] # p) parts)" "list_all2 (section_lines env) (zip (map fst secs) hs) parts"
    using Cons.IH [of u] Cons.prems by (metis list.set_intros(2))
  from u t show ?case by (intro exI [of _ t] exI [of _ "p # parts"]) (simp add: sec cbind_def)
qed

lemma module_of_frame_eq: "module_of_frame ms a = get_module_for_pointer a ms"
  unfolding module_of_frame_def by (rule modules.found_again)

lemma callstack_lost:
  assumes "\<not> zero_width env" and "frames c \<noteq> []" and "\<And>a. a \<in> set (frames c) \<Longrightarrow> get_module_for_pointer a ms = None"
  shows "Callstack_print env c ms s = (Throw Format_error, s\<lparr>log_lines := log_lines s @ [''PROBABLE CALL STACK:'']\<rparr>)"
proof -
  have none: "module_of_frame ms a = None" if "a \<in> set (frames c)" for a
    using assms(3) [OF that] by (simp add: module_of_frame_eq)
  have "name_width (map (module_of_frame ms) fs) = 0" if "set fs \<subseteq> set (frames c)" for fs
    using that by (induction fs) (simp_all add: name_width_def none)
  then have "name_width (map (module_of_frame ms) (frames c)) = 0" by simp
  moreover obtain a as where a: "frames c = a # as" using assms(2) by (cases "frames c") auto
  moreover have "frame_entry env ms n 0 (0, a) u = (Throw Format_error, u)" for n u
    using assms(1) none [of a] a by (simp add: frame_entry_def frame_line_def cbind_def)
  ultimately show ?thesis
    by (simp add: Callstack_print_def print_probable_callstack_def cbind_def Let_def)
qed

section \<open>A crash\<close>

text \<open>
  For the witnesses: a process with the example module and catchable access violations, whose stack
  trace lies outside the module, with all registers zero, without a graphics adapter and without a
  thread information block, and with a \<open>fmt\<close> that refuses the width 0.
\<close>

definition example_env :: "nat \<Rightarrow> handler_env" where
  "example_env n =
     \<lparr>mods = example_winmods [65536], proc = example_process True, symbols = one_function 1, files = no_files,
      config = default_debug\<lparr>waitForDebugger := (n = 0)\<rparr>, code_value = (\<lambda>c. if c = ''EXCEPTION_BREAKPOINT'' then 0x80000003 else 0),
      current_stack = [7, 5, 9], stack_base = None,
      system = \<lparr>os_name = ''Windows'', os_version = (10, 0, 19045), cpu_text = (''AuthenticAMD'', ''CPU''), gpu_list = [(amd, ''GPU'')],
        physical_total = 4294967296, physical_available = 1073741824, adapter_memory = None\<rparr>,
      utc_time = Some ''2024-01-01-00-00-00'', log_opens = True, debugger = (\<lambda>k. False), zero_width = False,
      what = (\<lambda>e. ''invalid format specifier''), exe_path = ''C:'' @ [CHR 0x5C] @ ''app.exe'', handler_added = True\<rparr>"

definition example_exception :: exception_record where
  "example_exception = \<lparr>ExceptionCode = 0x80000003, ExceptionAddress = 5\<rparr>"

lemma example_env_simps [simp]:
  "mods (example_env n) = example_winmods [65536]" "proc (example_env n) = example_process True" "stack_base (example_env n) = None"
  "current_stack (example_env n) = [7, 5, 9]" "\<not> zero_width (example_env n)" "adapter_memory (system (example_env n)) = None"
  "log_opens (example_env n)" "handler_added (example_env n)" "\<not> debugger (example_env n) k" "eha (example_process True)"
  "waitForDebugger (config (example_env n)) \<longleftrightarrow> n = 0" "ExceptionAddress example_exception = 5"
  by (simp_all add: example_env_def example_process_def example_exception_def)

lemma example_frames: "frames (Callstack_ctor [7, 5, 9] example_exception) = [5, 9]"
  by (simp add: Callstack_ctor_def Let_def)

lemma example_outside:
  assumes "a < 65536"
  shows "get_module_for_pointer a [example_module] = None"
proof -
  have "\<not> 65536 \<le> a" using assms by simp
  then have "\<not> in_range example_module a" by (simp add: in_range_def in_span_def example_module_def)
  then show ?thesis by (intro modules.not_found) simp
qed

lemma example_recovers:
  assumes "(name, f) \<in> set (report_sections (example_env 1) example_exception (\<lambda>r. 0) [example_module])"
  shows "recovers (fst (f u))"
proof -
  let ?env = "example_env 1"
  have "recovers (fst (print_exception ?env example_exception [example_module] u))"
    by (simp add: print_exception_def example_outside recovers_def Let_def)
  moreover have "recovers (fst (print_sysinfo ?env u))"
    using ceach_say [of "\<lambda>(i, vendor, name). [CHR 0x09] @ ''GPU #'' @ show_nat (i + 1) @ '': '' @ vendor_text vendor @ '' '' @ name"]
    by (simp add: print_sysinfo_def recovers_def Let_def cbind_def case_prod_unfold)
  moreover have "Callstack_print ?env (Callstack_ctor [7, 5, 9] example_exception) [example_module] u =
      (Throw Format_error, u\<lparr>log_lines := log_lines u @ [''PROBABLE CALL STACK:'']\<rparr>)"
    by (rule callstack_lost) (auto simp: example_frames intro: example_outside)
  moreover have "recovers (fst (print_registers ?env (\<lambda>r. 0) [example_module] u))"
  proof -
    have zeros: "map (\<lambda>r. 0) register_names = replicate 16 (0 :: 64 word)" by code_simp
    have "analysis ?env [example_module] (replicate 16 0) v = (Ret (replicate 16 (Integer_name 0)), v)" for v
      by (simp add: analysis_def on_pdb_def analyze_data_zeros)
    then show ?thesis
      using ceach_say [of "\<lambda>(name, a). register_line name 0 a"]
      by (simp add: print_registers_def recovers_def zeros cbind_def case_prod_unfold del: replicate.simps)
  qed
  moreover have "recovers (fst (print_stack ?env (\<lambda>r. 0) [example_module] u))"
    by (simp add: print_stack_def print_stack_in_def recovers_def)
  moreover have "recovers (fst (print_modules ?env [example_module] u))"
    by (simp add: print_modules_def module_width_def example_module_def recovers_def Let_def cbind_def)
  ultimately show ?thesis using assms by (auto simp: report_sections_def recovers_def)
qed

section \<open>Properties\<close>

text \<open>C34: printing the stack in blocks of a thousand words gives the report that reading, analysing and
  printing it in one piece gives, and completes exactly when that completes.\<close>

theorem print_stack_blocks:
  "print_stack env ctx ms s = (Ret (), t) \<longleftrightarrow> print_stack_once env ctx ms s = (Ret (), t)"
proof -
  have "0 < (1000 :: nat)" by simp
  note in_blocks = stack_in_blocks [OF this]
  show ?thesis
    by (simp add: print_stack_def print_stack_in_def print_stack_once_def Let_def in_blocks split: option.split)
qed

text \<open>A completed call stack has one line per frame after its header, in the order of the frames, each
  with the address of its frame; the frames start at the address of the exception when the stack
  trace has it, and are the whole trace otherwise.\<close>

theorem print_callstack_lines:
  assumes "Callstack_print env (Callstack_ctor trace exc) ms s = (Ret (), t)"
  shows "\<exists>pre fs lines. trace = pre @ fs \<and> log_lines t = log_lines s @ ''PROBABLE CALL STACK:'' # lines \<and>
    list_all2 (\<lambda>a l. sublist (hex12 a) l) fs lines \<and>
    (if ExceptionAddress exc \<in> set trace then ExceptionAddress exc \<notin> set pre \<and> take 1 fs = [ExceptionAddress exc] else pre = [])"
proof -
  let ?c = "Callstack_ctor trace exc"
  let ?it = "dropWhile (\<lambda>a. a \<noteq> ExceptionAddress exc) trace"
  obtain lines where lines: "log_lines t = (log_lines s @ [''PROBABLE CALL STACK:'']) @ lines"
    and each: "list_all2 (\<lambda>f l. sublist (hex12 (snd f)) l) (List.enumerate 0 (frames ?c)) lines"
    using assms unfolding Callstack_print_def print_probable_callstack_def
    by (auto simp: Let_def dest!: ceach_lines [rotated, where P = "\<lambda>f l. sublist (hex12 (snd f)) l"] frame_entry_line)
  have "list_all2 (\<lambda>a l. sublist (hex12 a) l) (map snd (List.enumerate 0 (frames ?c))) lines"
    using each by (subst list_all2_map1)
  then have "list_all2 (\<lambda>a l. sublist (hex12 a) l) (frames ?c) lines" by simp
  moreover have "\<exists>pre. trace = pre @ frames ?c \<and>
      (if ExceptionAddress exc \<in> set trace then ExceptionAddress exc \<notin> set pre \<and> take 1 (frames ?c) = [ExceptionAddress exc] else pre = [])"
  proof (cases "ExceptionAddress exc \<in> set trace")
    case True
    then obtain rest where it: "?it = ExceptionAddress exc # rest"
      by (metis (mono_tags, lifting) dropWhile_eq_Cons_conv dropWhile_eq_Nil_conv list.exhaust)
    let ?pre = "takeWhile (\<lambda>a. a \<noteq> ExceptionAddress exc) trace"
    have "trace = ?pre @ ?it" by simp
    moreover have "ExceptionAddress exc \<notin> set ?pre" by (auto dest: set_takeWhileD)
    moreover have "frames ?c = ?it" "take 1 ?it = [ExceptionAddress exc]"
      using it by (simp_all add: Callstack_ctor_def Let_def)
    ultimately show ?thesis using True by metis
  next
    case False
    then show ?thesis by (auto simp: Callstack_ctor_def Let_def dest: set_dropWhileD)
  qed
  ultimately obtain pre where "trace = pre @ frames ?c" "list_all2 (\<lambda>a l. sublist (hex12 a) l) (frames ?c) lines"
    "if ExceptionAddress exc \<in> set trace then ExceptionAddress exc \<notin> set pre \<and> take 1 (frames ?c) = [ExceptionAddress exc] else pre = []"
    by blast
  then show ?thesis using lines by (intro exI [of _ pre] exI [of _ "frames ?c"] exI [of _ lines]) simp
qed

theorem print_callstack_lines_witness:
  "\<exists>t pre fs lines. Callstack_print (example_env 1\<lparr>zero_width := True\<rparr>) (Callstack_ctor [7, 5, 9] example_exception) [example_module]
      \<lparr>pdb = fresh_crash, log_lines = []\<rparr> = (Ret (), t) \<and> [7, 5, 9] = pre @ fs \<and> 5 \<notin> set pre \<and> take 1 fs = [5] \<and>
    log_lines t = ''PROBABLE CALL STACK:'' # lines \<and> list_all2 (\<lambda>a l. sublist (hex12 a) l) fs lines"
proof -
  let ?env = "example_env 1\<lparr>zero_width := True\<rparr>"
  have "module_of_frame [example_module] a = None" if "a \<in> set [5, 9]" for a
    using that by (auto simp: module_of_frame_def example_outside)
  then obtain t where t: "Callstack_print ?env (Callstack_ctor [7, 5, 9] example_exception) [example_module]
      \<lparr>pdb = fresh_crash, log_lines = []\<rparr> = (Ret (), t)"
    by (simp add: Callstack_print_def print_probable_callstack_def example_frames frame_entry_def frame_line_def Let_def cbind_def)
  from print_callstack_lines [OF t] t show ?thesis by auto
qed

text \<open>When no frame lies in a module the width of the names is 0, and with a \<open>fmt\<close> that refuses this
  width the call stack is lost: the section throws at its first frame.\<close>

theorem callstack_without_modules:
  assumes "\<not> zero_width env" and "frames c \<noteq> []" and "\<And>a. a \<in> set (frames c) \<Longrightarrow> get_module_for_pointer a ms = None"
  shows "Callstack_print env c ms s = (Throw Format_error, s\<lparr>log_lines := log_lines s @ [''PROBABLE CALL STACK:'']\<rparr>)"
  using assms by (rule callstack_lost)




theorem callstack_without_modules_witness:
  "Callstack_print (example_env 1) (Callstack_ctor [7, 5, 9] example_exception) [example_module] \<lparr>pdb = fresh_crash, log_lines = []\<rparr> =
    (Throw Format_error, \<lparr>pdb = fresh_crash, log_lines = [''PROBABLE CALL STACK:'']\<rparr>)"
proof -
  have "a \<in> set (frames (Callstack_ctor [7, 5, 9] example_exception)) \<Longrightarrow> get_module_for_pointer a [example_module] = None" for a
    unfolding example_frames by (auto intro: example_outside)
  from callstack_without_modules [of "example_env 1" "Callstack_ctor [7, 5, 9] example_exception", OF _ _ this]
  show ?thesis by (simp add: example_frames)
qed




text \<open>With \<open>waitForDebugger\<close> and no debugger the handler spins for ever: nothing is reported and the
  process does not end.\<close>

theorem UnhandledExceptions_waits:
  assumes "waitForDebugger (config env)" and "\<And>n. \<not> debugger env n"
  shows "UnhandledExceptions env path exc ctx s = (Diverge, s)"
proof -
  have "cwhile (wait_guard env) wait_body 0 = Diverge"
    by (rule cwhile_forever [where P = "\<lambda>_. True"]) (simp_all add: wait_guard_def wait_body_def assms(2))
  then show ?thesis using assms(1) by (simp add: UnhandledExceptions_def wait_debugger_def cbind_def ccatch_def)
qed

theorem UnhandledExceptions_waits_witness:
  "UnhandledExceptions (example_env 0) [] example_exception (\<lambda>r. 0) \<lparr>pdb = fresh_crash, log_lines = []\<rparr> =
    (Diverge, \<lparr>pdb = fresh_crash, log_lines = []\<rparr>)"
  by (rule UnhandledExceptions_waits) simp_all

end
