(* ===== verification/FailureReport.thy ===== *)
theory FailureReport
  imports CrashReport
begin

text \<open>
  \<open>CrashHandler/PCH.h\<close> and \<open>PCH.cpp\<close>: how the crash handler reports that it cannot go on itself
  (\<open>report_and_error\<close>, \<open>report_and_fail\<close>), the logging functions of \<open>SKSE_MAKE_SOURCE_LOGGER\<close>, and the
  wrappers of two Windows functions. The definitions of the other crash handler theories use
  the one effect of \<open>report_and_fail\<close> that matters to them: it ends the process.
\<close>

section \<open>The default logger\<close>

text \<open>The levels are ordered as \<open>spdlog::level::level_enum\<close> numbers them.\<close>

fun level_number :: "level_enum \<Rightarrow> nat" where
  "level_number level_trace = 0"
| "level_number level_debug = 1"
| "level_number level_info = 2"
| "level_number level_warn = 3"
| "level_number level_err = 4"
| "level_number level_critical = 5"
| "level_number level_off = 6"

lemma level_number_inj: "level_number a = level_number b \<longleftrightarrow> a = b"
  by (cases a; cases b) simp_all

instantiation level_enum :: linorder
begin

definition less_eq_level_enum :: "level_enum \<Rightarrow> level_enum \<Rightarrow> bool" where
  "less_eq_level_enum a b \<longleftrightarrow> level_number a \<le> level_number b"

definition less_level_enum :: "level_enum \<Rightarrow> level_enum \<Rightarrow> bool" where
  "less_level_enum a b \<longleftrightarrow> level_number a < level_number b"

instance
  by standard (auto simp: less_eq_level_enum_def less_level_enum_def level_number_inj)

end

record source_location =
  file_name :: string
  loc_line :: "32 word"
  function_name :: string

text \<open>
  What the process shows: the lines of the default logger, which writes those of its level and above,
  the message boxes (text and caption), and the exit code once the process has ended.
\<close>

record process_ui =
  ui_level :: level_enum
  ui_log :: "(level_enum \<times> source_location \<times> string) list"
  ui_boxes :: "(16 word list \<times> string option) list"
  ui_exit :: "int option"

definition spdlog_log :: "source_location \<Rightarrow> level_enum \<Rightarrow> string \<Rightarrow> process_ui \<Rightarrow> process_ui" where
  "spdlog_log loc lvl msg s = (if ui_level s \<le> lvl then s\<lparr>ui_log := ui_log s @ [(lvl, loc, msg)]\<rparr> else s)"

text \<open>\<open>logger::trace\<close>, \<open>debug\<close>, \<open>info\<close>, \<open>warn\<close>, \<open>error\<close> and \<open>critical\<close> are this at their level.\<close>

definition source_logger :: "level_enum \<Rightarrow> source_location \<Rightarrow> string \<Rightarrow> process_ui \<Rightarrow> process_ui" where
  "source_logger a_type a_loc msg = spdlog_log a_loc a_type msg"

section \<open>The wrappers\<close>

definition GetModuleFileName :: "winmods \<Rightarrow> 64 word \<Rightarrow> 32 word \<Rightarrow> 32 word \<times> string option" where
  "GetModuleFileName w a_module a_size = module_file_name w a_module a_size"

definition MessageBox :: "16 word list \<Rightarrow> string option \<Rightarrow> process_ui \<Rightarrow> process_ui" where
  "MessageBox text caption s = s\<lparr>ui_boxes := ui_boxes s @ [(text, caption)]\<rparr>"

definition TerminateProcess :: "int \<Rightarrow> (process_ui, 'a) call" where
  "TerminateProcess a_exitCode s = (Throw Process_end, s\<lparr>ui_exit := Some a_exitCode\<rparr>)"

section \<open>The name of the source file\<close>

text \<open>
  \<open>lexically_normal().generic_string()\<close> of a Windows path: dots and cancelled dot-dots go, separators
  become slashes. Network paths (\<open>//server/share\<close>) are not considered.
\<close>

definition is_letter :: "char \<Rightarrow> bool" where
  "is_letter c \<longleftrightarrow> of_char c \<in> {65..90 :: nat} \<union> {97..122}"

definition path_root :: "string \<Rightarrow> string \<times> bool \<times> string" where
  "path_root s =
     (let drive = (case s of c # d # r \<Rightarrow> if is_letter c \<and> d = CHR '':'' then [c, d] else [] | _ \<Rightarrow> []);
          rest = drop (length drive) s
      in (drive, rest \<noteq> [] \<and> is_sep True (hd rest), rest))"

fun normal_step :: "bool \<Rightarrow> string list \<Rightarrow> string \<Rightarrow> string list" where
  "normal_step rooted acc c =
     (if c = [] \<or> c = ''.'' then acc
      else if c = ''..'' then
        (if acc \<noteq> [] \<and> last acc \<noteq> ''..'' then butlast acc else if rooted then acc else acc @ [c])
      else acc @ [c])"

definition normal_generic :: "string \<Rightarrow> string" where
  "normal_generic s =
     (case path_root s of (drive, rooted, rest) \<Rightarrow>
        let raw = split_path True rest;
            names = foldl (normal_step rooted) [] raw;
            trailing = names \<noteq> [] \<and> last names \<noteq> ''..'' \<and> last raw \<in> {[], ''.'', ''..''};
            out = drive @ (if rooted then ''/'' else []) @ join_names False names @ (if trailing then ''/'' else [])
        in if s = [] then [] else if out = [] then ''.'' else out)"

text \<open>
  \<open>regex_search\<close> with \<open>(?:^|[\/])(?:include|src)[\/](.*)$\<close> (both separators): the leftmost match, at the
  start or at a separator, and what its group holds. The names have no line breaks.
\<close>

definition after_dir :: "string \<Rightarrow> string \<Rightarrow> string option" where
  "after_dir d s =
     (if prefix d s then
        (case drop (length d) s of [] \<Rightarrow> None | c # r \<Rightarrow> if is_sep True c then Some r else None)
      else None)"

definition match_dir :: "string \<Rightarrow> string option" where
  "match_dir s = (case after_dir ''include'' s of Some r \<Rightarrow> Some r | None \<Rightarrow> after_dir ''src'' s)"

fun search_dir :: "string \<Rightarrow> string option" where
  "search_dir [] = None"
| "search_dir (c # s) =
     (case (if is_sep True c then match_dir s else None) of Some r \<Rightarrow> Some r | None \<Rightarrow> search_dir s)"

definition regex_group :: "string \<Rightarrow> string option" where
  "regex_group s = (case match_dir s of Some r \<Rightarrow> Some r | None \<Rightarrow> search_dir s)"

definition source_name :: "string \<Rightarrow> string" where
  "source_name f = (let filename = normal_generic f in case regex_group filename of Some r \<Rightarrow> r | None \<Rightarrow> filename)"

section \<open>report_and_error\<close>

definition utf16_text :: "string \<Rightarrow> 16 word list" where
  "utf16_text s = (case utf8_to_utf16 s of Some t \<Rightarrow> t | None \<Rightarrow> map (\<lambda>c. word_of_nat (of_char c)) ''<character encoding error>'')"

definition failure_text :: "source_location \<Rightarrow> string \<Rightarrow> string" where
  "failure_text loc msg = source_name (file_name loc) @ ''('' @ show_nat (unat (loc_line loc)) @ ''): '' @ msg"

text \<open>
  The loop that finds the name of the module: the last result, the size of the buffer and its text,
  zeros behind it. A result beyond the buffer would make the path from an invalid range.
\<close>

function caption_loop :: "winmods \<Rightarrow> 64 word \<Rightarrow> nat \<Rightarrow> string \<Rightarrow> nat \<times> nat \<times> string" where
  "caption_loop w h sz buf =
     (let sz' = sz * 2;
          r = GetModuleFileName w h (word_of_nat sz');
          result = unat (fst r);
          buf' = (case snd r of Some t \<Rightarrow> t | None \<Rightarrow> buf)
      in if result \<noteq> 0 \<and> result = sz' \<and> sz' \<le> 2 ^ 32 - 1 then caption_loop w h sz' buf' else (result, sz', buf'))"
  by pat_completeness auto
termination
  by (relation "measure (\<lambda>(w, h, sz, buf). 2 ^ 32 - sz)") auto

declare caption_loop.simps [simp del]

definition caption :: "winmods \<Rightarrow> 64 word \<Rightarrow> string outcome" where
  "caption w imageBase =
     (case caption_loop w imageBase 130 [] of (result, sz, buf) \<Rightarrow>
        if result \<noteq> 0 \<and> result \<noteq> sz then
          (if sz < result then Undef
           else Ret (filename True (take result (buf @ replicate (sz - length buf) (CHR 0x00)))))
        else Ret [])"

text \<open>The calls of \<open>exit(1)\<close> and \<open>TerminateProcess\<close> do not return.\<close>

definition report_and_error :: "winmods \<Rightarrow> 64 word \<Rightarrow> string \<Rightarrow> bool \<Rightarrow> source_location \<Rightarrow> (process_ui, bool) call" where
  "report_and_error w imageBase a_msg a_fail a_loc =
     (let body = utf16_text (failure_text a_loc a_msg) in
      cbind (coutcome (caption w imageBase)) (\<lambda>cap s.
        let s1 = spdlog_log a_loc level_critical a_msg s in
        if a_fail then TerminateProcess 1 (MessageBox body (if cap = [] then None else Some cap) s1)
        else (Throw Process_end, s1\<lparr>ui_exit := Some 1\<rparr>)))"

definition report_and_fail :: "winmods \<Rightarrow> 64 word \<Rightarrow> string \<Rightarrow> source_location \<Rightarrow> (process_ui, unit) call" where
  "report_and_fail w imageBase a_msg a_loc = cbind (report_and_error w imageBase a_msg True a_loc) (\<lambda>_. cret ())"

text \<open>The converting assignment of \<open>enumeration\<close> ends without a \<open>return\<close> after the assignment.\<close>

definition enum_assign_convert :: "'u::len word \<Rightarrow> ('w::len word, 'w word) call" where
  "enum_assign_convert a_rhs impl = (Undef, ucast a_rhs)"

section \<open>The search by components\<close>

text \<open>The reference: the components behind the first one named \<open>include\<close> or \<open>src\<close>, if there are any.\<close>

definition behind_source_dir :: "string list \<Rightarrow> string list" where
  "behind_source_dir names = tl (dropWhile (\<lambda>n. n \<notin> {''include'', ''src''}) names)"

lemma split_path_parts: "x \<in> set (split_path win s) \<Longrightarrow> c \<in> set x \<Longrightarrow> \<not> is_sep win c"
proof (induction s arbitrary: x)
  case (Cons a s)
  obtain h t where h: "split_path win s = h # t" by (cases "split_path win s") auto
  then show ?case using Cons.IH [of h] Cons.IH [of x] Cons.prems by (auto split: if_splits)
qed simp

lemma sep_slash: "c \<noteq> CHR 0x5C \<Longrightarrow> is_sep True c \<longleftrightarrow> c = CHR ''/''"
  by (simp add: is_sep_def)

lemma join_split:
  assumes "CHR 0x5C \<notin> set s"
  shows "join_names False (split_path True s) = s"
  using assms
proof (induction s)
  case (Cons a s)
  then obtain h t where h: "split_path True s = h # t" by (cases "split_path True s") auto
  with Cons have "join_names False (h # t) = s" by simp
  with Cons.prems h show ?case by (cases t) (auto simp: sep_slash preferred_separator_def)
qed simp

lemma after_dir_split:
  assumes "\<forall>c \<in> set d. \<not> is_sep True c"
  shows "after_dir d s = (case split_path True s of h # r # rs \<Rightarrow> if h = d then Some (drop (Suc (length d)) s) else None | _ \<Rightarrow> None)"
  using assms
proof (induction d arbitrary: s)
  case Nil
  show ?case
  proof (cases s)
    case (Cons a t)
    then show ?thesis by (cases "split_path True t") (auto simp: after_dir_def split: list.splits)
  qed (simp add: after_dir_def)
next
  case (Cons x d)
  show ?case
  proof (cases s)
    case (Cons a t)
    obtain h r where h: "split_path True t = h # r" by (cases "split_path True t") auto
    have "after_dir (x # d) s = (if x = a then after_dir d t else None)" using Cons by (simp add: after_dir_def)
    also have "\<dots> = (if x = a then case h # r of h # r # rs \<Rightarrow> if h = d then Some (drop (Suc (length d)) t) else None | _ \<Rightarrow> None else None)"
      using Cons.IH Cons.prems h by simp
    finally show ?thesis using Cons Cons.prems h by (auto split: list.split)
  qed (simp add: after_dir_def)
qed

definition group_of :: "string list \<Rightarrow> string option" where
  "group_of names = (case behind_source_dir names of [] \<Rightarrow> None | rest \<Rightarrow> Some (join_names False rest))"

lemma group_of_simps:
  "group_of [] = None"
  "h \<in> {''include'', ''src''} \<Longrightarrow> group_of (h # t) = (if t = [] then None else Some (join_names False t))"
  "h \<notin> {''include'', ''src''} \<Longrightarrow> group_of (h # t) = group_of t"
  by (auto simp: group_of_def behind_source_dir_def split: list.split)

lemma match_dir_split:
  assumes "CHR 0x5C \<notin> set s" "split_path True s = h # t"
  shows "match_dir s = (if h \<in> {''include'', ''src''} then group_of (h # t) else None)"
proof -
  have plain: "\<forall>c \<in> set ''include''. \<not> is_sep True c" "\<forall>c \<in> set ''src''. \<not> is_sep True c"
    by (auto simp: is_sep_def)
  have s: "s = join_names False (h # t)" using join_split [OF assms(1)] assms(2) by simp
  then have "drop (Suc (length h)) s = join_names False t" if "t \<noteq> []" using that by (cases t) simp_all
  then show ?thesis
    using assms(2) by (auto simp: match_dir_def after_dir_split [OF plain(1)] after_dir_split [OF plain(2)] group_of_simps split: list.split)
qed

lemma search_dir_split:
  assumes "CHR 0x5C \<notin> set s"
  shows "search_dir s = group_of (tl (split_path True s))"
  using assms
proof (induction s)
  case (Cons c s)
  obtain h t where h: "split_path True s = h # t" by (cases "split_path True s") auto
  have "search_dir s = group_of t" using Cons h by simp
  moreover have "match_dir s = (if h \<in> {''include'', ''src''} then group_of (h # t) else None)"
    using match_dir_split [OF _ h] Cons.prems by simp
  moreover have "group_of (h # t) = None \<Longrightarrow> group_of t = None" by (cases "h \<in> {''include'', ''src''}") (auto simp: group_of_simps split: if_splits)
  ultimately show ?case using h group_of_simps(3) [of h t] by (auto split: option.split)
qed (simp add: group_of_simps)

lemma regex_group_split:
  assumes "CHR 0x5C \<notin> set s"
  shows "regex_group s = group_of (split_path True s)"
proof -
  obtain h t where h: "split_path True s = h # t" by (cases "split_path True s") auto
  show ?thesis
    using match_dir_split [OF assms h] search_dir_split [OF assms] h group_of_simps(2,3) [of h t] group_of_simps(1)
    by (auto simp: regex_group_def split: option.split if_splits)
qed

lemma in_join_names: "c \<in> set (join_names False ns) \<Longrightarrow> c = CHR ''/'' \<or> (\<exists>n \<in> set ns. c \<in> set n)"
  by (induction False ns rule: join_names.induct) (auto simp: preferred_separator_def)

lemma normal_names: "set (foldl (normal_step rooted) acc raw) \<subseteq> set acc \<union> set raw"
proof (induction raw arbitrary: acc)
  case (Cons c raw)
  have "set (normal_step rooted acc c) \<subseteq> set acc \<union> {c}" by (auto dest: in_set_butlastD)
  with Cons [of "normal_step rooted acc c"] show ?case by auto
qed simp

lemma normal_generic_slashes: "CHR 0x5C \<notin> set (normal_generic s)"
proof -
  obtain drive rooted rest where p: "path_root s = (drive, rooted, rest)" by (cases "path_root s")
  have "CHR 0x5C \<notin> set drive"
    using p by (auto simp: path_root_def Let_def is_letter_def split: list.splits if_splits)
  moreover have "CHR 0x5C \<notin> set (join_names False (foldl (normal_step rooted) [] (split_path True rest)))"
    using in_join_names normal_names [of rooted "[]"] split_path_parts [of _ True rest "CHR 0x5C"] by (fastforce simp: is_sep_def)
  ultimately show ?thesis using p by (simp add: normal_generic_def Let_def)
qed

section \<open>The caption\<close>

lemma caption_loop_step:
  "caption_loop w h sz buf =
     (let r = name_call w h (sz * 2) buf in
      if fst r \<noteq> 0 \<and> fst r = sz * 2 \<and> sz * 2 \<le> 2 ^ 32 - 1 then caption_loop w h (sz * 2) (snd r)
      else (fst r, sz * 2, snd r))"
  by (subst caption_loop.simps) (simp add: name_call_def GetModuleFileName_def Let_def split_beta)

lemma caption_loop_full:
  assumes "has_file_name w h name" and "length name < 2 ^ 31"
  shows "0 < sz \<Longrightarrow> sz * 2 < 2 ^ 32 \<Longrightarrow> \<exists>sz'. caption_loop w h sz buf = (length name, sz', name) \<and> length name < sz'"
proof (induction "2 ^ 32 - sz" arbitrary: sz buf rule: less_induct)
  case less
  show ?case
  proof (cases "length name < sz * 2")
    case True
    then show ?thesis using less.prems by (subst caption_loop_step) (simp add: name_call_full [OF assms] Let_def)
  next
    case False
    then have "sz * 2 * 2 < 2 ^ 32" using assms(2) by simp
    then have "\<exists>sz'. caption_loop w h (sz * 2) (take (sz * 2 - 1) name) = (length name, sz', name) \<and> length name < sz'"
      using less by simp
    with False less.prems show ?thesis by (subst caption_loop_step) (simp add: name_call_full [OF assms] Let_def)
  qed
qed

lemma caption_name:
  assumes "has_file_name w h name" and "length name < 2 ^ 31"
  shows "caption w h = Ret (filename True name)"
proof -
  obtain sz where "caption_loop w h 130 [] = (length name, sz, name)" "length name < sz"
    using caption_loop_full [OF assms, of 130 "[]"] by auto
  then show ?thesis by (cases "name = []") (simp_all add: caption_def filename_def)
qed

lemma utf8_to_utf16_eq: "utf8_to_utf16 s = (if c_str s = [] then None else Some (map (\<lambda>c. word_of_nat (of_char c)) (c_str s)))"
  by (simp add: utf8_to_utf16_def mbs_to_wcs_def Let_def)

section \<open>Properties\<close>

text \<open>C37: the pattern of \<open>report_and_error\<close> gives the part of the normalised file name that follows its first
  component \<open>include\<close> or \<open>src\<close>, and the whole name when there is none or nothing follows.\<close>

theorem source_name_after_dir:
  "source_name f =
     (let names = split_path True (normal_generic f); rest = tl (dropWhile (\<lambda>n. n \<notin> {''include'', ''src''}) names)
      in if rest = [] then normal_generic f else join_names False rest)"
  by (simp add: source_name_def regex_group_split [OF normal_generic_slashes] group_of_def behind_source_dir_def Let_def
      split: list.split)

text \<open>C36: \<open>report_and_fail\<close> never returns: it logs the message unless the logger is off, shows one box with the
  source, the line and the message under the name of the module, and ends the process with code 1. The
  definitions of the handler that call it end the process accordingly.\<close>

theorem report_and_fail_ends_process:
  assumes "has_file_name w h name" and "length name < 2 ^ 31" and "name \<noteq> []"
  shows "\<exists>s'. report_and_fail w h msg loc s = (Throw Process_end, s') \<and> ui_exit s' = Some 1 \<and>
    ui_log s' = ui_log s @ (if ui_level s = level_off then [] else [(level_critical, loc, msg)]) \<and>
    ui_boxes s' = ui_boxes s @
      [(utf16_text (failure_text loc msg), if filename True name = [] then None else Some (filename True name))]"
proof -
  have "ui_level s \<le> level_critical \<longleftrightarrow> ui_level s \<noteq> level_off"
    by (cases "ui_level s") (simp_all add: less_eq_level_enum_def)
  then show ?thesis
    by (simp add: report_and_fail_def report_and_error_def caption_name [OF assms(1,2)] TerminateProcess_def
        MessageBox_def spdlog_log_def cbind_def cret_def coutcome_def)
qed

text \<open>A file below \<open>include\<close>, and one reached through a directory that the normal form cancels.\<close>

lemma example_source_names:
  "source_name ''D:/dev/include/../CrashHandler/src/./main.cpp'' = ''main.cpp''"
  "source_name (''C:'' @ [CHR 0x5C] @ ''dev'' @ [CHR 0x5C] @ ''include'' @ [CHR 0x5C] @ ''PDB'' @ [CHR 0x5C] @ ''PdbHandler.h'') = ''PDB/PdbHandler.h''"
  "source_name ''../CrashHandler/CrashHandler.cpp'' = ''../CrashHandler/CrashHandler.cpp''"
  by code_simp+

definition example_location :: source_location where
  "example_location = \<lparr>file_name = ''D:/dev/src/CrashHandler.cpp'', loc_line = 109, function_name = ''get_log''\<rparr>"

definition example_ui :: process_ui where
  "example_ui = \<lparr>ui_level = level_info, ui_log = [], ui_boxes = [], ui_exit = None\<rparr>"

lemma example_failure_text: "failure_text example_location ''failed'' = ''CrashHandler.cpp(109): failed''"
  by code_simp

theorem report_and_fail_ends_process_witness:
  "\<exists>s'. report_and_fail (example_winmods [65536]) 65536 ''failed'' example_location example_ui = (Throw Process_end, s') \<and>
    ui_log s' = [(level_critical, example_location, ''failed'')] \<and>
    ui_boxes s' = [(utf16_text ''CrashHandler.cpp(109): failed'', Some ''app.exe'')]"
proof -
  have "length example_path < 2 ^ 31" "example_path \<noteq> []" "filename True example_path = ''app.exe''"
    by (simp_all add: example_path_def) code_simp
  with report_and_fail_ends_process [OF example_file_name, of "[65536]" 65536 "''failed''" example_location example_ui]
  show ?thesis by (fastforce simp: example_failure_text example_ui_def)
qed

end
