(* ===== verification/Spec2Isabelle.thy ===== *)
theory Spec2Isabelle
  imports CopyCounters SyncTest Teardown MainProgram OptContainers SafeVars StableDeque CodePages ParallelAnalysis
    FailureReport
begin

text \<open>
  SyncFiles: a verification of the file synchroniser under \<open>src/\<close>.

  The program (\<open>src/main.cpp\<close>) reads options, and searches a tree, deletes paths, replaces junctions,
  or copies one directory tree onto another. The copying is the class \<open>Functions\<close>
  (\<open>include/Functions.h\<close>, \<open>src/Functions.cpp\<close>): \<open>Copy\<close> lists both trees, makes relative names, makes
  directories, starts \<open>processors\<close> workers (\<open>DoStuff\<close>) that drain a copy queue and a delete queue,
  and four sorters (\<open>Helper_SortFiles\<close>) that decide which input files are wanted; then it queues the
  deletions, sets a flag, joins the workers and removes directories. The threads talk through
  \<open>ts_deque\<close> (\<open>include/Types.h\<close>), whose members hold a spin lock (\<open>include/Threading.h\<close>). Beside it
  stands a crash handler (\<open>CrashHandler/\<close>): \<open>Install\<close> registers \<open>UnhandledExceptions\<close>, which lists the
  loaded modules and writes a report in six sections, naming addresses and values with the help of
  the module table, a guess at what a value points to, and the symbols of the program databases.

  The theories and what they model:

  \<^item> \<open>Prelude\<close>: what a C++ call can do (\<open>outcome\<close>: return, throw, undefined behaviour, never
    return), loops over an explicit state (\<open>cwhile\<close>), the locale \<open>work_loop\<close> of a loop that works off
    a list, the string functions of the standard library.
  \<^item> \<open>Spinlock\<close>: \<open>Spinlock\<close> and \<open>SpinlockA\<close> as guards of an object (\<open>guarded\<close>), and any number of
    threads interleaving such calls (\<open>spin_step\<close>). Mutual exclusion, linearizability, progress; the
    locale \<open>protected_object\<close> carries an invariant of the calls to all reachable states.
  \<^item> \<open>TsDeque\<close>: every state-changing member of \<open>ts_deque\<close> (\<open>dq_\<close>); lock discipline, the queue order
    under concurrency (locale \<open>fifo_queue\<close>), the self-swap, the dangling reference of \<open>ts_front\<close>.
  \<^item> \<open>StableDeque\<close>: the second class \<open>ts_deque\<close>, of \<open>include/ThreadSafe.h\<close> (\<open>sd_\<close>), with the identity of elements and
    the validity of references and iterators; it agrees with the first call by call.
  \<^item> \<open>SafeVars\<close>: \<open>ThreadSafeVar\<close>, \<open>ThreadSafeVarVector\<close>, \<open>TSQueue\<close> and \<open>ts_set\<close> (\<open>var_\<close>, \<open>vec_\<close>,
    \<open>tsq_\<close>, \<open>tss_\<close>). \<open>OptContainers\<close>: \<open>String\<close>, \<open>Vector\<close> and \<open>Deque\<close>, nullable containers under a
    lock; refinement of a plain list (locale \<open>nullable_container\<close>), the two-object operations on a
    store of objects and their deadlocks.
  \<^item> \<open>FileSys\<close>: \<open>std::filesystem\<close> as far as it is called, on an explicit file system (\<open>fs\<close>), with
    refused paths so that every error branch can occur.
  \<^item> \<open>SyncEngine\<close>: the state of \<open>Functions\<close> (\<open>sync_state\<close>) and one definition per member function;
    \<open>Copy\<close> is the composition of its phases in the order of its joins. \<open>SyncLoops\<close>: what each loop does
    when it runs alone. \<open>SyncCopy\<close> and \<open>SyncResult\<close>: the phases one by one and the result of \<open>Copy\<close>
    against the specification \<open>synced\<close>, which says for every path what it holds afterwards.
  \<^item> \<open>SyncThreads\<close> and \<open>SyncProgress\<close>: the sorters, the workers and the main thread of \<open>Copy\<close> as a step
    relation (\<open>par_step\<close>), one queue call or one processed item per step; an invariant of all
    interleavings, the same result \<open>synced\<close> for all of them, and a measure by which the end stays
    reachable from every reachable state. \<open>CopyCounters\<close>: the same threads in smaller steps
    (\<open>fine_step\<close>), where the counters and the \<open>erase\<close> are steps of their own, and the loop of \<open>main\<close>
    that prints the counters; a simulation (locale \<open>stepwise_simulation\<close>) carries the results over.
  \<^item> \<open>Reconstitute\<close>: \<open>GetFilesRelative\<close> and \<open>ReconstitueSymlinks\<close> on a file system with junctions.
    \<open>SyncTest\<close>: the test of \<open>src/tests.cpp\<close> with all its runs, which pass. \<open>Teardown\<close>: the destructors of
    \<open>Functions\<close> and \<open>ts_deque\<close> as the order in which lifetimes end.
  \<^item> \<open>Formatting\<close>: \<open>FormatTime\<close>, \<open>FormatTimeNS\<close>, \<open>GetSize\<close> and the percentage of \<open>main\<close>, with their
    floating-point divisions as exact rounding to even at a given precision.
  \<^item> \<open>MainProgram\<close>: the option loop, \<open>Search\<close>, \<open>-rm\<close>, the string helpers, and \<open>main_run\<close>, which is
    \<open>main\<close> with its arguments, its standard input and the file system made explicit.
  \<^item> \<open>CrashBase\<close>: calls of the crash handler over its static state and its log (\<open>call\<close>, \<open>reporting\<close>), the
    number formats, and the memory of the crashed process (\<open>process\<close>), where a read may fault.
  \<^item> \<open>CrashUtil\<close> (\<open>PCH.h\<close>): \<open>stl::enumeration\<close> as a word, which refines a set of flags; pointer adjustment,
    string conversions, the records of run-time type information of \<open>Modules/ModuleHandler.h\<close>.
  \<^item> \<open>FailureReport\<close> (\<open>PCH.h\<close>, \<open>PCH.cpp\<close>): \<open>report_and_error\<close>, its source name, caption, log line and message box;
    \<open>CodePages\<close> (\<open>PDB/PdbHandler.cpp\<close>): the string conversions over the record \<open>code_page\<close>.
  \<^item> \<open>PdbSymbols\<close> (\<open>PDB/PdbHandler.cpp\<close>): \<open>processSymbol\<close>, \<open>pdb_details\<close> and the dump of all symbols over the
    record \<open>dia\<close> of DIA and COM functions; which line is reported, and the balance of COM calls.
  \<^item> \<open>ModuleTable\<close> (\<open>Modules/\<close>): a module made from its headers in memory, the enumeration and naming of
    modules over the record \<open>winmods\<close>; well-formed and sorted results, ends of the loops.
    \<open>ParallelLoop\<close>: its parallel loop with interleaved iterations (locale \<open>parallel_loop\<close>);
    \<open>ParallelAnalysis\<close>: the one of \<open>Introspection\<close>, whose iterations share the static state of \<open>pdb_details\<close>.
  \<^item> \<open>Introspection\<close>: the search of the module of a pointer (locale \<open>module_lookup\<close> for what its clients use)
    and the classification of values as numbers, pointers, objects or texts.
  \<^item> \<open>CrashReport\<close> (\<open>CrashHandler.cpp\<close>): \<open>Callstack\<close>, the sections, \<open>UnhandledExceptions\<close> and \<open>Install\<close> over the
    record \<open>handler_env\<close>; the sections fail one by one, the stack in blocks equals the stack in one
    piece, and control never comes back from an installed handler.

  Reading the statements. \<open>sync_ready fs inp out\<close> collects what the results about \<open>Copy\<close> need: a
  well-formed file system without refused paths, two existing separate roots written without a
  trailing separator, no path that is a file on one side and a directory on the other, and names
  short enough for the \<open>int\<close> lengths of the code. \<open>iter\<close> is the iteration order of
  \<open>boost::unordered_set\<close>, any enumeration of the set (\<open>iterates\<close>). Machine integers have their width.
  No definition uses fuel: a loop of the code is \<open>cwhile\<close>, whose value for a loop that is never left
  is \<open>Diverge\<close>, or a function with a termination proof, and the results say \<open>Ret\<close>. In the crash handler
  \<open>eha\<close> says whether \<open>catch (...)\<close> sees access violations (it does not with the compiler options of the
  presets; then they are \<open>Undef\<close>), and \<open>Throw Process_end\<close> is the end of the process. Hypotheses on the
  interfaces (\<open>lists_lines\<close>, \<open>has_file_name\<close>) are the documented behaviour of DIA and Windows.

  Not modelled: in the crash handler the messages its functions send to the default logger, and the
  parallel loop of \<open>analyze_data\<close> where COM is not available; \<open>get_allocator\<close> and \<open>max_size\<close>, allocators, the constructors of \<open>ts_set\<close> that do not compile;
  links other than the junctions of \<open>Reconstitute\<close>, memory orders weaker than sequential consistency,
  and the data races on plain members of \<open>Functions\<close> (\<open>OFilesSet\<close>, \<open>cdeleted\<close>, the flags), whose accesses
  are steps here, or parts of steps.
\<close>

end
